(* ===== verification/Prelude.thy ===== *)
theory Prelude
  imports Main "HOL-Library.Word" "HOL-Library.Sublist" "HOL-Library.Code_Target_Nat"
begin

section \<open>Shared vocabulary\<close>

text \<open>
  What every component of the development uses: the ways a Rust function stops
  without a value, the machine integers, the standard-library searches over slices
  the sources call (\<open>partition_point\<close>, \<open>binary_search\<close>, \<open>rposition\<close>) and the
  lemmas on lists that the component proofs share.
\<close>

named_theorems front_defs \<open>definitions of the front end that proofs unfold\<close>
named_theorems run_defs \<open>definitions of the runtime that proofs unfold\<close>

subsection \<open>Panics as values\<close>

text \<open>
  A panic of the source is a value of the left summand. The constructor says which
  kind of panic it is: a failed \<open>assert!\<close>, an \<open>expect\<close> on \<open>None\<close> or \<open>Err\<close>, an
  index or a slice out of range, a checked integer operation that overflows, a
  division by zero, an explicit \<open>panic!\<close>.
\<close>

datatype panic =
    AssertFailed
  | ExpectFailed
  | OutOfRange
  | Overflow
  | DivideByZero
  | Explicit

type_synonym 'a res = "panic + 'a"

type_synonym i64 = "64 word"
type_synonym u64 = "64 word"

fun is_ok :: "'e + 'a \<Rightarrow> bool" where
  "is_ok (Inl _) = False"
| "is_ok (Inr _) = True"

lemma is_ok_iff: "is_ok r \<longleftrightarrow> (\<exists>v. r = Inr v)"
  by (cases r) auto

text \<open>Sequencing: the rest runs only when the first part did not panic.\<close>

fun bind_res :: "'e + 'a \<Rightarrow> ('a \<Rightarrow> 'e + 'b) \<Rightarrow> 'e + 'b" where
  "bind_res (Inl e) f = Inl e"
| "bind_res (Inr v) f = f v"

fun map_ok :: "('a \<Rightarrow> 'b) \<Rightarrow> 'e + 'a \<Rightarrow> 'e + 'b" where
  "map_ok f (Inl e) = Inl e"
| "map_ok f (Inr v) = Inr (f v)"

lemma map_ok_Inr [simp]: "map_ok f r = Inr w \<longleftrightarrow> (\<exists>v. r = Inr v \<and> w = f v)"
  by (cases r) auto

lemma map_ok_Inl [simp]: "map_ok f r = Inl e \<longleftrightarrow> r = Inl e"
  by (cases r) auto

text \<open>The same for a loop with fuel, where \<open>None\<close> is running out of it.\<close>

fun bind_run :: "'a res option \<Rightarrow> ('a \<Rightarrow> 'b res option) \<Rightarrow> 'b res option" where
  "bind_run None f = None"
| "bind_run (Some (Inl e)) f = Some (Inl e)"
| "bind_run (Some (Inr a)) f = f a"

lemma bind_res_Inr: "bind_res r f = Inr w \<longleftrightarrow> (\<exists>v. r = Inr v \<and> f v = Inr w)"
  by (cases r) auto

lemma bind_res_cong [fundef_cong]:
  "r = s \<Longrightarrow> (\<And>v. s = Inr v \<Longrightarrow> f v = g v) \<Longrightarrow> bind_res r f = bind_res s g"
  by (cases s) auto

text \<open>An iterator chain whose closure may panic runs in order and stops at the first panic.\<close>

fun map_res :: "('a \<Rightarrow> 'e + 'b) \<Rightarrow> 'a list \<Rightarrow> 'e + 'b list" where
  "map_res f [] = Inr []"
| "map_res f (x # xs) =
     (case f x of
        Inl e \<Rightarrow> Inl e
      | Inr y \<Rightarrow> (case map_res f xs of Inl e \<Rightarrow> Inl e | Inr ys \<Rightarrow> Inr (y # ys)))"

lemma map_res_Inr: "map_res f xs = Inr ys \<longleftrightarrow> list_all2 (\<lambda>x y. f x = Inr y) xs ys"
proof (induction xs arbitrary: ys)
  case (Cons x xs)
  show ?case
  proof (cases "map_res f xs")
    case (Inl e)
    then have "\<And>zs. \<not> list_all2 (\<lambda>x y. f x = Inr y) xs zs" using Cons.IH by fastforce
    with Inl show ?thesis by (auto simp: list_all2_Cons1 split: sum.splits)
  next
    case (Inr zs)
    then have "\<And>ws. list_all2 (\<lambda>x y. f x = Inr y) xs ws \<longleftrightarrow> ws = zs" using Cons.IH by fastforce
    with Inr show ?thesis by (auto simp: list_all2_Cons1 split: sum.splits)
  qed
qed auto

lemma map_res_total: "map_res (\<lambda>x. Inr (f x)) xs = Inr (map f xs)"
  by (induction xs) auto

lemma map_res_map: "map_res f (map g xs) = map_res (\<lambda>x. f (g x)) xs"
  by (induction xs) (auto split: sum.splits)

lemma map_res_replicate:
  "map_res f (replicate n x) =
     (if n = 0 then Inr [] else case f x of Inl e \<Rightarrow> Inl e | Inr y \<Rightarrow> Inr (replicate n y))"
  by (induction n) (auto split: sum.splits)

lemma map_res_cong [fundef_cong]:
  "xs = ys \<Longrightarrow> (\<And>x. x \<in> set ys \<Longrightarrow> f x = g x) \<Longrightarrow> map_res f xs = map_res g ys"
  by (induction ys arbitrary: xs) (auto split: sum.splits)

lemma map_res_exists:
  "(\<And>x. x \<in> set xs \<Longrightarrow> \<exists>y. f x = Inr y \<and> R x y) \<Longrightarrow> \<exists>ys. map_res f xs = Inr ys \<and> list_all2 R xs ys"
proof (induction xs)
  case (Cons x xs)
  then obtain y ys where "f x = Inr y" "R x y" "map_res f xs = Inr ys" "list_all2 R xs ys"
    by (metis list.set_intros)
  then show ?case by auto
qed simp

lemma map_res_ok: "(\<And>x. x \<in> set xs \<Longrightarrow> f x = Inr (g x)) \<Longrightarrow> map_res f xs = Inr (map g xs)"
  by (induction xs) auto

text \<open>\<open>std::cmp::Ordering\<close>, and the \<open>cmp\<close> of a type whose order is total.\<close>

datatype cmp = CmpLess | CmpEqual | CmpGreater

definition cmp_of :: "'a::linorder \<Rightarrow> 'a \<Rightarrow> cmp" where
  "cmp_of a b = (if a < b then CmpLess else if a = b then CmpEqual else CmpGreater)"

lemma cmp_of_iff [simp]:
  "cmp_of a b = CmpLess \<longleftrightarrow> a < b" "cmp_of a b = CmpEqual \<longleftrightarrow> a = b"
  "cmp_of a b = CmpGreater \<longleftrightarrow> b < a"
  by (auto simp: cmp_of_def)

subsection \<open>Vectors\<close>

text \<open>Indexing, \<open>swap\<close> and range slicing panic out of range.\<close>

definition nth_res :: "'a list \<Rightarrow> nat \<Rightarrow> 'a res" where
  "nth_res xs i = (if i < length xs then Inr (xs ! i) else Inl OutOfRange)"

definition slice_res :: "'a list \<Rightarrow> nat \<Rightarrow> nat \<Rightarrow> 'a list res" where
  "slice_res xs a b = (if a \<le> b \<and> b \<le> length xs then Inr (take (b - a) (drop a xs)) else Inl OutOfRange)"

definition swap_res :: "'a list \<Rightarrow> nat \<Rightarrow> nat \<Rightarrow> 'a list res" where
  "swap_res xs i j =
     (if i < length xs \<and> j < length xs then Inr (xs[i := xs ! j, j := xs ! i]) else Inl OutOfRange)"

lemma nth_res_Inr [simp]: "nth_res xs i = Inr v \<longleftrightarrow> i < length xs \<and> xs ! i = v"
  by (auto simp: nth_res_def)

lemma nth_res_ok [simp]: "i < length xs \<Longrightarrow> nth_res xs i = Inr (xs ! i)"
  by (simp add: nth_res_def)

lemma map_res_nth: "(\<And>i. i \<in> set is \<Longrightarrow> i < length xs) \<Longrightarrow> map_res (nth_res xs) is = Inr (map ((!) xs) is)"
  by (induction "is") auto

subsection \<open>Searches over slices\<close>

text \<open>
  \<open>slice::partition_point\<close> returns the length of the longest prefix whose elements
  satisfy the predicate. Its contract asks for a slice that is partitioned by the
  predicate; every use in the development is on such a slice.
\<close>

definition partition_point :: "('a \<Rightarrow> bool) \<Rightarrow> 'a list \<Rightarrow> nat" where
  "partition_point P xs = length (takeWhile P xs)"

text \<open>\<open>Iterator::rposition\<close>: the index of the last element that satisfies the predicate.\<close>

fun rposition :: "('a \<Rightarrow> bool) \<Rightarrow> 'a list \<Rightarrow> nat option" where
  "rposition P [] = None"
| "rposition P (x # xs) =
     (case rposition P xs of
        Some i \<Rightarrow> Some (Suc i)
      | None \<Rightarrow> if P x then Some 0 else None)"

lemma rposition_None: "rposition P xs = None \<longleftrightarrow> (\<forall>x \<in> set xs. \<not> P x)"
  by (induction xs) (auto split: option.splits)

lemma rposition_Some:
  "rposition P xs = Some i \<Longrightarrow>
     i < length xs \<and> P (xs ! i) \<and> (\<forall>x \<in> set (drop (Suc i) xs). \<not> P x)"
proof (induction xs arbitrary: i)
  case (Cons x xs)
  show ?case
  proof (cases "rposition P xs")
    case None
    with Cons.prems have "i = 0" "P x" by (auto split: if_splits)
    with None show ?thesis by (auto simp: rposition_None)
  next
    case (Some j)
    with Cons.prems have "i = Suc j" by simp
    with Cons.IH [OF Some] show ?thesis by auto
  qed
qed simp

text \<open>\<open>slice::binary_search\<close> on an ascending slice: the position of the key, or \<open>None\<close> for \<open>Err\<close>.\<close>

definition binary_search :: "'a::linorder \<Rightarrow> 'a list \<Rightarrow> nat option" where
  "binary_search x xs =
     (let i = partition_point (\<lambda>y. y < x) xs in if i < length xs \<and> xs ! i = x then Some i else None)"

lemma partition_point_le: "partition_point P xs \<le> length xs"
  by (simp add: partition_point_def length_takeWhile_le)

lemma partition_point_less_nth: "j < partition_point P xs \<Longrightarrow> P (xs ! j)"
proof -
  assume "j < partition_point P xs"
  then have *: "j < length (takeWhile P xs)" by (simp add: partition_point_def)
  then have "takeWhile P xs ! j \<in> set (takeWhile P xs)" by (rule nth_mem)
  with * show "P (xs ! j)" by (metis set_takeWhileD takeWhile_nth)
qed

lemma partition_point_nth: "partition_point P xs < length xs \<Longrightarrow> \<not> P (xs ! partition_point P xs)"
  by (auto simp: partition_point_def nth_length_takeWhile)

text \<open>On a slice partitioned by the predicate, the partition point separates the two parts.\<close>

lemma partition_point_eqI:
  assumes "k \<le> length xs"
    and "\<And>j. j < k \<Longrightarrow> P (xs ! j)"
    and "k < length xs \<Longrightarrow> \<not> P (xs ! k)"
  shows "partition_point P xs = k"
proof -
  consider "partition_point P xs < k" | "k < partition_point P xs" | "partition_point P xs = k"
    by linarith
  then show ?thesis
  proof cases
    case 1
    with assms(1,2) partition_point_nth [of P xs] show ?thesis by auto
  next
    case 2
    then have "P (xs ! k)" by (rule partition_point_less_nth)
    moreover have "k < length xs" using 2 partition_point_le [of P xs] by linarith
    ultimately show ?thesis using assms(3) by simp
  qed simp
qed

text \<open>On a strictly ascending slice the search finds every element at its own position.\<close>

lemma strictly_ascending_nth:
  "sorted_wrt (<) xs \<Longrightarrow> i < j \<Longrightarrow> j < length xs \<Longrightarrow> xs ! i < (xs ! j :: 'a::linorder)"
  by (rule sorted_wrt_nth_less)

lemma binary_search_nth:
  assumes "sorted_wrt (<) xs" "i < length xs"
  shows "binary_search (xs ! i) xs = Some i"
proof -
  have "partition_point (\<lambda>y. y < xs ! i) xs = i"
    by (rule partition_point_eqI) (use assms strictly_ascending_nth [OF assms(1)] in auto)
  with assms(2) show ?thesis by (simp add: binary_search_def)
qed

lemma binary_search_Some: "binary_search x xs = Some i \<Longrightarrow> i < length xs \<and> xs ! i = x"
  by (auto simp: binary_search_def Let_def split: if_splits)

lemma binary_search_None:
  "sorted_wrt (<) xs \<Longrightarrow> binary_search x xs = None \<longleftrightarrow> x \<notin> set xs"
proof
  assume "sorted_wrt (<) xs" "binary_search x xs = None"
  then show "x \<notin> set xs" by (metis binary_search_nth in_set_conv_nth option.distinct(1))
next
  assume "x \<notin> set xs"
  then show "binary_search x xs = None"
    by (metis binary_search_Some nth_mem not_None_eq)
qed

subsection \<open>Lists\<close>

lemma count_list_append [simp]: "count_list (xs @ ys) x = count_list xs x + count_list ys x"
  by (induction xs) auto

lemma last_snoc_cases: "xs = [] \<or> (\<exists>ys y. xs = ys @ [y])"
  by (cases xs rule: rev_cases) auto

lemma filter_drop_Suc_nth:
  "i < length xs \<Longrightarrow> drop i xs = xs ! i # drop (Suc i) xs"
  by (simp add: Cons_nth_drop_Suc)

end
