(* ===== verification/Source_Text.thy ===== *)
theory Source_Text
  imports Prelude
begin

section \<open>Source text, files and spans\<close>

text \<open>
  The text of a source file and the places in it. A Rust \<open>str\<close> is a list of Unicode
  scalar values whose byte offsets are those of its UTF-8 encoding, so the model keeps
  the scalar values and derives the bytes. \<open>FileId\<close> and \<open>Span\<close> are the structs of
  \<open>chl-parser/src/source_map.rs\<close> and \<open>chl-parser/src/ast.rs\<close>.
\<close>

subsection \<open>UTF-8\<close>

type_synonym uchar = nat
type_synonym utext = "uchar list"

definition utf8_encode :: "uchar \<Rightarrow> nat list" where
  "utf8_encode c =
     (if c < 128 then [c]
      else if c < 2048 then [192 + c div 64, 128 + c mod 64]
      else if c < 65536 then [224 + c div 4096, 128 + (c div 64) mod 64, 128 + c mod 64]
      else [240 + c div 262144, 128 + (c div 4096) mod 64, 128 + (c div 64) mod 64,
            128 + c mod 64])"

definition utf8 :: "utext \<Rightarrow> nat list" where
  "utf8 t = concat (map utf8_encode t)"

definition len_utf8 :: "uchar \<Rightarrow> nat" where
  "len_utf8 c = (if c < 128 then 1 else if c < 2048 then 2 else if c < 65536 then 3 else 4)"

definition len_utf16 :: "uchar \<Rightarrow> nat" where
  "len_utf16 c = (if c < 65536 then 1 else 2)"

definition str_len :: "utext \<Rightarrow> nat" where
  "str_len t = length (utf8 t)"

definition is_ascii :: "utext \<Rightarrow> bool" where
  "is_ascii t \<longleftrightarrow> (\<forall>c \<in> set t. c < 128)"

definition utf16_count :: "utext \<Rightarrow> nat" where
  "utf16_count t = sum_list (map len_utf16 t)"

definition is_continuation :: "nat \<Rightarrow> bool" where
  "is_continuation b \<longleftrightarrow> 128 \<le> b \<and> b < 192"

definition is_char_boundary :: "utext \<Rightarrow> nat \<Rightarrow> bool" where
  "is_char_boundary t i \<longleftrightarrow>
     i = 0 \<or> i = str_len t \<or> (i < str_len t \<and> \<not> is_continuation (utf8 t ! i))"

fun char_indices_from :: "nat \<Rightarrow> utext \<Rightarrow> (nat \<times> uchar) list" where
  "char_indices_from i [] = []"
| "char_indices_from i (c # cs) = (i, c) # char_indices_from (i + len_utf8 c) cs"

definition char_indices :: "utext \<Rightarrow> (nat \<times> uchar) list" where
  "char_indices t = char_indices_from 0 t"

text \<open>
  The slice \<open>&t[a..b]\<close>, which panics unless the range is in order, in bounds and ends on
  character boundaries.
\<close>

definition str_slice :: "utext \<Rightarrow> nat \<Rightarrow> nat \<Rightarrow> utext res" where
  "str_slice t a b =
     (if a \<le> b \<and> b \<le> str_len t \<and> is_char_boundary t a \<and> is_char_boundary t b
      then Inr (map snd (filter (\<lambda>(i, c). a \<le> i \<and> i < b) (char_indices t)))
      else Inl OutOfRange)"

lemma length_utf8_encode [simp]: "length (utf8_encode c) = len_utf8 c"
  by (simp add: utf8_encode_def len_utf8_def)

lemma len_utf8_pos [simp]: "0 < len_utf8 c"
  by (simp add: len_utf8_def)

lemma utf8_Nil [simp]: "utf8 [] = []"
  by (simp add: utf8_def)

lemma utf8_Cons [simp]: "utf8 (c # t) = utf8_encode c @ utf8 t"
  by (simp add: utf8_def)

lemma utf8_append [simp]: "utf8 (s @ t) = utf8 s @ utf8 t"
  by (simp add: utf8_def)

lemma str_len_simps [simp]:
  "str_len [] = 0"
  "str_len (c # t) = len_utf8 c + str_len t"
  "str_len (s @ t) = str_len s + str_len t"
  by (simp_all add: str_len_def)

lemma str_len_0 [simp]: "str_len s = 0 \<longleftrightarrow> s = []"
  by (cases s) (auto simp: len_utf8_def)

text \<open>The first byte of a character is not a continuation byte and the others are.\<close>

lemma utf8_encode_first: "\<not> is_continuation (utf8_encode c ! 0)"
  by (auto simp: utf8_encode_def is_continuation_def)

lemma utf8_encode_rest:
  "0 < i \<Longrightarrow> i < len_utf8 c \<Longrightarrow> is_continuation (utf8_encode c ! i)"
  by (auto simp: utf8_encode_def len_utf8_def is_continuation_def nth_Cons' split: if_splits)

text \<open>The character boundaries are exactly the byte lengths of the prefixes of the text.\<close>

lemma is_char_boundary_prefix: "is_char_boundary (s @ t) (str_len s)"
proof (cases t)
  case Nil
  then show ?thesis by (simp add: is_char_boundary_def)
next
  case (Cons c t')
  have "utf8 (s @ t) ! str_len s = utf8_encode c ! 0"
    by (simp add: Cons nth_append str_len_def)
  with utf8_encode_first [of c] show ?thesis
    by (simp add: is_char_boundary_def Cons)
qed

lemma char_boundary_split:
  assumes "is_char_boundary t i"
  shows "\<exists>s u. t = s @ u \<and> i = str_len s"
proof -
  have "i \<le> str_len t \<Longrightarrow> (\<forall>s u. t = s @ u \<longrightarrow> i \<noteq> str_len s) \<Longrightarrow>
      i < str_len t \<and> is_continuation (utf8 t ! i)"
  proof (induction t arbitrary: i)
    case Nil
    then show ?case by simp
  next
    case (Cons c t)
    have i0: "i \<noteq> 0" using Cons.prems(2) by (metis append_Nil str_len_simps(1))
    show ?case
    proof (cases "i < len_utf8 c")
      case True
      with i0 utf8_encode_rest [of i c] show ?thesis
        by (simp add: nth_append)
    next
      case False
      then obtain j where j: "i = len_utf8 c + j"
        using le_Suc_ex not_less by blast
      have "\<forall>s u. t = s @ u \<longrightarrow> j \<noteq> str_len s"
      proof (intro allI impI)
        fix s u assume "t = s @ u"
        then have "c # t = (c # s) @ u" by simp
        with Cons.prems(2) have "i \<noteq> str_len (c # s)" by blast
        then show "j \<noteq> str_len s" by (simp add: j)
      qed
      with Cons.IH [of j] Cons.prems(1) j show ?thesis
        by (simp add: nth_append)
    qed
  qed
  moreover have "i \<le> str_len t" using assms by (auto simp: is_char_boundary_def)
  moreover have "\<not> (i < str_len t \<and> is_continuation (utf8 t ! i)) \<or> (\<exists>s u. t = s @ u \<and> i = str_len s)"
  proof (cases "i = 0 \<or> i = str_len t")
    case True
    then show ?thesis by (metis append_Nil append_Nil2 str_len_simps(1))
  next
    case False
    with assms show ?thesis by (auto simp: is_char_boundary_def)
  qed
  ultimately show ?thesis by blast
qed

lemma char_boundary_iff: "is_char_boundary t i \<longleftrightarrow> (\<exists>s u. t = s @ u \<and> i = str_len s)"
  using char_boundary_split is_char_boundary_prefix by blast

lemma char_indices_from_append:
  "char_indices_from i (s @ t) = char_indices_from i s @ char_indices_from (i + str_len s) t"
  by (induction s arbitrary: i) (simp_all add: add.assoc)

lemma char_indices_from_bounds:
  "(j, c) \<in> set (char_indices_from i t) \<Longrightarrow> i \<le> j \<and> j < i + str_len t"
proof (induction t arbitrary: i)
  case (Cons a t)
  show ?case
  proof (cases "(j, c) = (i, a)")
    case True
    then show ?thesis by simp
  next
    case False
    with Cons.prems have "(j, c) \<in> set (char_indices_from (i + len_utf8 a) t)" by auto
    from Cons.IH [OF this] show ?thesis by simp
  qed
qed simp

lemma map_snd_char_indices_from [simp]: "map snd (char_indices_from i t) = t"
  by (induction t arbitrary: i) auto

text \<open>A slice between two boundaries is the text between the two prefixes.\<close>

lemma str_slice_append:
  "str_slice (s @ m @ u) (str_len s) (str_len s + str_len m) = Inr m"
proof -
  let ?a = "str_len s" and ?b = "str_len s + str_len m"
  let ?P = "\<lambda>(i::nat, c::uchar). ?a \<le> i \<and> i < ?b"
  have bound: "is_char_boundary (s @ m @ u) ?a" "is_char_boundary (s @ m @ u) ?b"
    using is_char_boundary_prefix [of s "m @ u"] is_char_boundary_prefix [of "s @ m" u] by simp_all
  have "filter ?P (char_indices_from 0 s) = []"
    by (auto simp: filter_empty_conv dest!: char_indices_from_bounds)
  moreover have "filter ?P (char_indices_from ?a m) = char_indices_from ?a m"
    by (auto simp: filter_id_conv dest!: char_indices_from_bounds)
  moreover have "filter ?P (char_indices_from ?b u) = []"
    by (auto simp: filter_empty_conv dest!: char_indices_from_bounds)
  ultimately have "filter ?P (char_indices (s @ m @ u)) = char_indices_from ?a m"
    by (simp add: char_indices_def char_indices_from_append)
  with bound show ?thesis by (simp add: str_slice_def)
qed

lemma boundary_split2:
  assumes "is_char_boundary src i" "is_char_boundary src j" "i \<le> j"
  shows "\<exists>a m u. src = a @ m @ u \<and> i = str_len a \<and> j = str_len a + str_len m"
proof -
  obtain a u where a: "src = a @ u" "i = str_len a" using assms(1) char_boundary_iff by blast
  obtain b v where b: "src = b @ v" "j = str_len b" using assms(2) char_boundary_iff by blast
  have "a @ u = b @ v" using a b by simp
  then consider us where "a = b @ us" | us where "b = a @ us"
    by (auto simp: append_eq_append_conv2)
  then show ?thesis
  proof cases
    case 1
    with assms(3) a b have "str_len us = 0" by simp
    then have "us = []" by simp
    with 1 a b show ?thesis by (intro exI [of _ a] exI [of _ "[]"] exI [of _ u]) simp
  next
    case 2
    with a b show ?thesis by (intro exI [of _ a] exI [of _ us] exI [of _ v]) simp
  qed
qed

lemma prefix_unique:
  "p @ x = q @ y \<Longrightarrow> str_len p = str_len q \<Longrightarrow> p = q"
  by (auto simp: append_eq_append_conv2)

lemma str_slice_Inr:
  "str_slice t a b = Inr x \<longleftrightarrow> (\<exists>s u. t = s @ x @ u \<and> a = str_len s \<and> b = str_len s + str_len x)"
proof
  assume sl: "str_slice t a b = Inr x"
  then have "is_char_boundary t a" "is_char_boundary t b" "a \<le> b"
    by (auto simp: str_slice_def split: if_splits)
  then obtain s m u where smu: "t = s @ m @ u" "a = str_len s" "b = str_len s + str_len m"
    using boundary_split2 by blast
  with sl str_slice_append [of s m u] show "\<exists>s u. t = s @ x @ u \<and> a = str_len s \<and> b = str_len s + str_len x"
    by auto
qed (auto simp: str_slice_append)

lemma str_slice_join:
  assumes "str_slice t a b = Inr x" "str_slice t b c = Inr y"
  shows "str_slice t a c = Inr (x @ y)"
proof -
  obtain s u where su: "t = s @ x @ u" "a = str_len s" "b = str_len s + str_len x"
    using assms(1) str_slice_Inr by blast
  obtain s' u' where s'u': "t = s' @ y @ u'" "b = str_len s'" "c = str_len s' + str_len y"
    using assms(2) str_slice_Inr by blast
  have "s' = s @ x" using prefix_unique [of s' "y @ u'" "s @ x" u] su s'u' by simp
  with su s'u' show ?thesis unfolding str_slice_Inr by (intro exI [of _ s] exI [of _ u']) simp
qed

lemma newline_byte: "10 \<in> set (utf8 t) \<longleftrightarrow> 10 \<in> set t"
  by (induction t) (auto simp: utf8_encode_def split: if_splits)

text \<open>The bytes of a slice are those of the text between its ends.\<close>

lemma str_slice_byte:
  assumes "str_slice t a b = Inr x" "a \<le> i" "i < b"
  shows "utf8 t ! i = utf8 x ! (i - a)" "utf8 t ! i \<in> set (utf8 x)"
proof -
  obtain s u where su: "t = s @ x @ u" "a = str_len s" "b = str_len s + str_len x"
    using assms(1) str_slice_Inr by blast
  then show eq: "utf8 t ! i = utf8 x ! (i - a)"
    using assms(2,3) by (auto simp: nth_append str_len_def)
  show "utf8 t ! i \<in> set (utf8 x)"
    using su assms(2,3) unfolding eq by (intro nth_mem) (simp add: str_len_def)
qed

lemma is_ascii_len: "is_ascii t \<Longrightarrow> str_len t = length t"
  by (induction t) (auto simp: is_ascii_def len_utf8_def)

lemma is_ascii_utf16: "is_ascii t \<Longrightarrow> utf16_count t = length t"
  by (induction t) (auto simp: is_ascii_def utf16_count_def len_utf16_def)

lemma utf16_count_simps [simp]:
  "utf16_count [] = 0"
  "utf16_count (c # t) = len_utf16 c + utf16_count t"
  "utf16_count (s @ t) = utf16_count s + utf16_count t"
  by (simp_all add: utf16_count_def)

subsection \<open>Strings\<close>

text \<open>
  The standard library's string operations the sources use. A literal of the source is
  written \<open>lit\<close> of its ASCII characters.
\<close>

definition lit :: "string \<Rightarrow> utext" where
  "lit s = map of_char s"

definition starts_with :: "utext \<Rightarrow> utext \<Rightarrow> bool" where
  "starts_with t p \<longleftrightarrow> take (length p) t = p"

definition ends_with :: "utext \<Rightarrow> utext \<Rightarrow> bool" where
  "ends_with t p \<longleftrightarrow> length p \<le> length t \<and> drop (length t - length p) t = p"

definition strip_prefix :: "utext \<Rightarrow> utext \<Rightarrow> utext option" where
  "strip_prefix p t = (if starts_with t p then Some (drop (length p) t) else None)"

definition strip_suffix :: "utext \<Rightarrow> utext \<Rightarrow> utext option" where
  "strip_suffix p t = (if ends_with t p then Some (take (length t - length p) t) else None)"

fun contains :: "utext \<Rightarrow> utext \<Rightarrow> bool" where
  "contains [] p = starts_with [] p"
| "contains (c # t) p = (starts_with (c # t) p \<or> contains t p)"

text \<open>\<open>[T]::join\<close>: the parts with the separator between two neighbours.\<close>

fun join :: "utext \<Rightarrow> utext list \<Rightarrow> utext" where
  "join sep [] = []"
| "join sep [p] = p"
| "join sep (p # q # ps) = p @ sep @ join sep (q # ps)"

function decimal :: "nat \<Rightarrow> utext" where
  "decimal n = (if n < 10 then [48 + n] else decimal (n div 10) @ [48 + n mod 10])"
  by pat_completeness auto
termination
  by (relation "measure id") auto

declare decimal.simps [simp del]

lemma lit_simps [simp]: "lit [] = []" "lit (c # cs) = of_char c # lit cs"
  by (simp_all add: lit_def)

lemma starts_with_append: "starts_with t p \<longleftrightarrow> (\<exists>u. t = p @ u)"
proof
  assume "starts_with t p"
  then have "t = p @ drop (length p) t"
    using append_take_drop_id [of "length p" t] by (simp add: starts_with_def)
  then show "\<exists>u. t = p @ u" ..
qed (auto simp: starts_with_def)

lemma ends_with_append: "ends_with t p \<longleftrightarrow> (\<exists>u. t = u @ p)"
proof
  assume "ends_with t p"
  then have "t = take (length t - length p) t @ p"
    using append_take_drop_id [of "length t - length p" t] by (simp add: ends_with_def)
  then show "\<exists>u. t = u @ p" ..
qed (auto simp: ends_with_def)

lemma contains_append: "contains t p \<longleftrightarrow> (\<exists>u v. t = u @ p @ v)"
proof (induction t)
  case (Cons c t)
  show ?case
  proof
    assume "contains (c # t) p"
    then consider v where "c # t = p @ v" | u v where "t = u @ p @ v"
      using Cons.IH by (auto simp: starts_with_append)
    then show "\<exists>u v. c # t = u @ p @ v"
    proof cases
      case 1
      then show ?thesis by (intro exI [of _ "[]"] exI [of _ v]) simp
    next
      case 2
      then show ?thesis by (intro exI [of _ "c # u"] exI [of _ v]) simp
    qed
  next
    assume "\<exists>u v. c # t = u @ p @ v"
    then obtain u v where "c # t = u @ p @ v" by blast
    then have "starts_with (c # t) p \<or> (\<exists>u v. t = u @ p @ v)"
      by (cases u) (auto simp: starts_with_append)
    then show "contains (c # t) p" using Cons.IH by simp
  qed
qed (auto simp: starts_with_append)

subsection \<open>Files and spans\<close>

datatype FileId = FileId nat

definition FileId_ROOT :: FileId where
  "FileId_ROOT = FileId 0"

fun FileId_index :: "FileId \<Rightarrow> nat" where
  "FileId_index (FileId i) = i"

record Span =
  sp_file :: FileId
  sp_start :: nat
  sp_end :: nat

definition Span_new :: "FileId \<Rightarrow> nat \<Rightarrow> nat \<Rightarrow> Span" where
  "Span_new f a b = \<lparr>sp_file = f, sp_start = a, sp_end = b\<rparr>"

text \<open>\<open>Span::join\<close>: with debug assertions (\<open>dbg\<close>), spans of two files are a panic.\<close>

definition Span_join :: "bool \<Rightarrow> Span \<Rightarrow> Span \<Rightarrow> Span res" where
  "Span_join dbg a b =
     (if dbg \<and> sp_file a \<noteq> sp_file b then Inl AssertFailed
      else Inr \<lparr>sp_file = sp_file a, sp_start = min (sp_start a) (sp_start b),
                sp_end = max (sp_end a) (sp_end b)\<rparr>)"

definition Span_display :: "Span \<Rightarrow> utext" where
  "Span_display s = decimal (sp_start s) @ lit ''..'' @ decimal (sp_end s)"

text \<open>A datatype rather than a record, because the syntax tree recurses through it.\<close>

datatype (plugins only: code size) 'a Spanned = Spanned (spn_span: Span) (spn_node: 'a)

definition Spanned_new :: "Span \<Rightarrow> 'a \<Rightarrow> 'a Spanned" where
  "Spanned_new s n = Spanned s n"

definition as_range :: "Span \<Rightarrow> nat \<times> nat" where
  "as_range s = (sp_start s, sp_end s)"

lemma Span_new_sel [simp]:
  "sp_file (Span_new f a b) = f" "sp_start (Span_new f a b) = a" "sp_end (Span_new f a b) = b"
  by (simp_all add: Span_new_def)

end
