(* ===== verification/Line_Index.thy ===== *)
theory Line_Index
  imports Source_Text
begin

section \<open>Line and column positions\<close>

text \<open>
  \<open>chl-parser/src/line_index.rs\<close>: the table of line starts and line ends of a text, and
  the conversions between byte offsets and line/column positions in bytes and in UTF-16
  code units. The scan of \<open>LineIndex::new\<close> is a recursion on the byte index that the loop
  advances. Every assertion, index and subtraction that can panic is a branch. The
  flag \<open>dbg\<close> says whether debug assertions are compiled in.
\<close>

subsection \<open>The operations\<close>

datatype Encoding = Utf8 | Utf16

record LineCol =
  lc_line :: nat
  lc_col :: nat

record LineIndex =
  li_starts :: "nat list"
  li_ends :: "nat list"
  li_ascii :: bool

function scan_lines :: "nat list \<Rightarrow> nat \<Rightarrow> nat list \<Rightarrow> nat list \<Rightarrow> nat list \<times> nat list" where
  "scan_lines bytes i starts ends =
     (if i < length bytes then
        (if bytes ! i = 10 then scan_lines bytes (i + 1) (starts @ [i + 1]) (ends @ [i])
         else if bytes ! i = 13 \<and> i + 1 < length bytes \<and> bytes ! (i + 1) = 10
           then scan_lines bytes (i + 2) (starts @ [i + 2]) (ends @ [i])
         else if bytes ! i = 13 then scan_lines bytes (i + 1) (starts @ [i + 1]) (ends @ [i])
         else scan_lines bytes (i + 1) starts ends)
      else (starts, ends))"
  by pat_completeness auto
termination
  by (relation "measure (\<lambda>(bytes, i, _, _). length bytes - i)") auto

declare scan_lines.simps [simp del]

definition LineIndex_new :: "utext \<Rightarrow> LineIndex" where
  "LineIndex_new src =
     (let (starts, ends) = scan_lines (utf8 src) 0 [0] [] in
      \<lparr>li_starts = starts, li_ends = ends @ [str_len src], li_ascii = is_ascii src\<rparr>)"

definition line_count :: "LineIndex \<Rightarrow> nat" where
  "line_count ix = length (li_starts ix)"

definition line_range :: "LineIndex \<Rightarrow> nat \<Rightarrow> (nat \<times> nat) option res" where
  "line_range ix l =
     (if l < length (li_starts ix) then
        (if l < length (li_ends ix) then Inr (Some (li_starts ix ! l, li_ends ix ! l))
         else Inl OutOfRange)
      else Inr None)"

definition line_col :: "LineIndex \<Rightarrow> nat \<Rightarrow> LineCol res" where
  "line_col ix off =
     (if li_ends ix = [] then Inl ExpectFailed
      else if last (li_ends ix) < off then Inl AssertFailed
      else
        let k = partition_point (\<lambda>start. start \<le> off) (li_starts ix) in
        if k = 0 then Inl Overflow
        else if length (li_ends ix) \<le> k - 1 then Inl OutOfRange
        else if min off (li_ends ix ! (k - 1)) < li_starts ix ! (k - 1) then Inl Overflow
        else Inr \<lparr>lc_line = k - 1,
                  lc_col = min off (li_ends ix ! (k - 1)) - li_starts ix ! (k - 1)\<rparr>)"

text \<open>The loop that steps back to a character boundary; offset 0 is always one.\<close>

fun floor_boundary :: "utext \<Rightarrow> nat \<Rightarrow> nat" where
  "floor_boundary src 0 = 0"
| "floor_boundary src (Suc off) =
     (if is_char_boundary src (Suc off) then Suc off else floor_boundary src off)"

definition offset :: "bool \<Rightarrow> LineIndex \<Rightarrow> utext \<Rightarrow> LineCol \<Rightarrow> nat res" where
  "offset dbg ix src pos =
     (if dbg \<and> \<not> (li_ends ix \<noteq> [] \<and> last (li_ends ix) = str_len src) then Inl AssertFailed
      else if length (li_starts ix) \<le> lc_line pos then Inr (str_len src)
      else if length (li_ends ix) \<le> lc_line pos then Inl OutOfRange
      else
        let start = li_starts ix ! lc_line pos; fin = li_ends ix ! lc_line pos in
        if fin < start then Inl Overflow
        else Inr (floor_boundary src (start + min (lc_col pos) (fin - start))))"

definition line_col_in :: "LineIndex \<Rightarrow> utext \<Rightarrow> nat \<Rightarrow> Encoding \<Rightarrow> LineCol res" where
  "line_col_in ix src off enc =
     (case line_col ix off of
        Inl p \<Rightarrow> Inl p
      | Inr bytes \<Rightarrow>
          if \<not> is_char_boundary src off then Inl AssertFailed
          else (case enc of
              Utf8 \<Rightarrow> Inr bytes
            | Utf16 \<Rightarrow>
                if li_ascii ix then Inr bytes
                else
                  let start = li_starts ix ! lc_line bytes in
                  (case str_slice src start (start + lc_col bytes) of
                     Inl p \<Rightarrow> Inl p
                   | Inr s \<Rightarrow> Inr \<lparr>lc_line = lc_line bytes, lc_col = utf16_count s\<rparr>)))"

text \<open>The loop of \<open>offset_in\<close> over the characters of a line, with the units counted so far.\<close>

fun offset_units :: "nat \<Rightarrow> (nat \<times> uchar) list \<Rightarrow> nat \<Rightarrow> nat \<Rightarrow> nat \<Rightarrow> nat" where
  "offset_units start [] col units fin = fin"
| "offset_units start ((i, c) # cs) col units fin =
     (let units' = units + len_utf16 c in
      if col < units' then start + i else offset_units start cs col units' fin)"

definition offset_in :: "bool \<Rightarrow> LineIndex \<Rightarrow> utext \<Rightarrow> LineCol \<Rightarrow> Encoding \<Rightarrow> nat res" where
  "offset_in dbg ix src pos enc =
     (case enc of
        Utf8 \<Rightarrow> offset dbg ix src pos
      | Utf16 \<Rightarrow>
          if li_ascii ix then offset dbg ix src pos
          else if length (li_starts ix) \<le> lc_line pos then Inr (str_len src)
          else if length (li_ends ix) \<le> lc_line pos then Inl OutOfRange
          else
            let start = li_starts ix ! lc_line pos; fin = li_ends ix ! lc_line pos in
            (case str_slice src start fin of
               Inl p \<Rightarrow> Inl p
             | Inr s \<Rightarrow> Inr (offset_units start (char_indices s) (lc_col pos) 0 fin)))"

subsection \<open>The line table\<close>

text \<open>
  The contract of the table: line contents hold no line terminator, and the gap between
  two lines is exactly one terminator, \<open>\r\n\<close> being one.
\<close>

definition no_terminator :: "nat list \<Rightarrow> nat \<Rightarrow> nat \<Rightarrow> bool" where
  "no_terminator bytes a b \<longleftrightarrow> (\<forall>j. a \<le> j \<and> j < b \<longrightarrow> bytes ! j \<noteq> 10 \<and> bytes ! j \<noteq> 13)"

definition terminator :: "nat list \<Rightarrow> nat \<Rightarrow> nat \<Rightarrow> bool" where
  "terminator bytes a b \<longleftrightarrow>
     b \<le> length bytes \<and>
     (b = a + 1 \<and> bytes ! a = 10 \<or>
      b = a + 2 \<and> bytes ! a = 13 \<and> bytes ! (a + 1) = 10 \<or>
      b = a + 1 \<and> bytes ! a = 13 \<and> \<not> (b < length bytes \<and> bytes ! b = 10))"

definition line_table :: "nat list \<Rightarrow> nat list \<Rightarrow> nat list \<Rightarrow> bool" where
  "line_table bytes starts ends \<longleftrightarrow>
     starts \<noteq> [] \<and> starts ! 0 = 0 \<and> length ends = length starts \<and>
     last ends = length bytes \<and>
     (\<forall>k < length starts. starts ! k \<le> ends ! k \<and> no_terminator bytes (starts ! k) (ends ! k)) \<and>
     (\<forall>k. Suc k < length starts \<longrightarrow> terminator bytes (ends ! k) (starts ! Suc k))"

definition scan_inv :: "nat list \<Rightarrow> nat \<Rightarrow> nat list \<Rightarrow> nat list \<Rightarrow> bool" where
  "scan_inv bytes i starts ends \<longleftrightarrow>
     starts \<noteq> [] \<and> starts ! 0 = 0 \<and> length starts = Suc (length ends) \<and>
     last starts \<le> i \<and> i \<le> length bytes \<and> no_terminator bytes (last starts) i \<and>
     (\<forall>k < length ends. starts ! k \<le> ends ! k \<and> no_terminator bytes (starts ! k) (ends ! k) \<and>
        terminator bytes (ends ! k) (starts ! Suc k))"

lemma no_terminator_same [simp]: "no_terminator bytes a a"
  by (simp add: no_terminator_def)

lemma no_terminator_Suc:
  "no_terminator bytes a i \<Longrightarrow> bytes ! i \<noteq> 10 \<Longrightarrow> bytes ! i \<noteq> 13 \<Longrightarrow> no_terminator bytes a (Suc i)"
  by (auto simp: no_terminator_def less_Suc_eq)

lemma scan_inv_close:
  assumes "scan_inv bytes i starts ends" "terminator bytes i n" "i < n"
  shows "scan_inv bytes n (starts @ [n]) (ends @ [i])"
proof -
  have last: "last starts = starts ! length ends"
    using assms(1) by (simp add: scan_inv_def last_conv_nth)
  have "n \<le> length bytes" using assms(2) by (simp add: terminator_def)
  with assms last show ?thesis
    by (auto simp: scan_inv_def nth_append less_Suc_eq)
qed

lemma scan_inv_step:
  assumes "scan_inv bytes i starts ends" "i < length bytes" "bytes ! i \<noteq> 10" "bytes ! i \<noteq> 13"
  shows "scan_inv bytes (i + 1) starts ends"
  using assms by (auto simp: scan_inv_def no_terminator_Suc)

lemma scan_lines_inv:
  assumes "scan_inv bytes i starts ends"
  shows "case scan_lines bytes i starts ends of (s, e) \<Rightarrow> scan_inv bytes (length bytes) s e"
  using assms
proof (induction bytes i starts ends rule: scan_lines.induct)
  case (1 bytes i starts ends)
  consider (fin) "\<not> i < length bytes"
    | (nl) "i < length bytes" "bytes ! i = 10"
    | (crlf) "i < length bytes" "bytes ! i = 13" "i + 1 < length bytes" "bytes ! (i + 1) = 10"
    | (cr) "i < length bytes" "bytes ! i = 13" "\<not> (i + 1 < length bytes \<and> bytes ! (i + 1) = 10)"
    | (other) "i < length bytes" "bytes ! i \<noteq> 10" "bytes ! i \<noteq> 13"
    by blast
  then show ?case
  proof cases
    case fin
    then have "i = length bytes" using "1.prems" by (simp add: scan_inv_def)
    with "1.prems" show ?thesis by (simp add: scan_lines.simps [of bytes "length bytes"])
  next
    case nl
    then have "terminator bytes i (i + 1)" by (simp add: terminator_def)
    from scan_inv_close [OF "1.prems" this] nl "1.IH"(1) show ?thesis
      by (simp add: scan_lines.simps [of bytes i])
  next
    case crlf
    then have "terminator bytes i (i + 2)" by (simp add: terminator_def)
    from scan_inv_close [OF "1.prems" this] crlf "1.IH"(2) show ?thesis
      by (simp add: scan_lines.simps [of bytes i])
  next
    case cr
    then have "terminator bytes i (i + 1)" by (auto simp: terminator_def)
    from scan_inv_close [OF "1.prems" this] cr "1.IH"(3) show ?thesis
      by (auto simp: scan_lines.simps [of bytes i])
  next
    case other
    from scan_inv_step [OF "1.prems" other] other "1.IH"(4) show ?thesis
      by (simp add: scan_lines.simps [of bytes i])
  qed
qed

lemma scan_inv_line_table:
  assumes "scan_inv bytes (length bytes) starts ends"
  shows "line_table bytes starts (ends @ [length bytes])"
proof -
  have last: "last starts = starts ! length ends"
    using assms by (simp add: scan_inv_def last_conv_nth)
  have "terminator bytes ((ends @ [length bytes]) ! k) (starts ! Suc k)"
    if "Suc k < length starts" for k
    using assms that by (simp add: scan_inv_def nth_append)
  with assms last show ?thesis
    by (auto simp: scan_inv_def line_table_def nth_append less_Suc_eq)
qed

lemma LineIndex_new_table: "line_table (utf8 src) (li_starts (LineIndex_new src)) (li_ends (LineIndex_new src))"
proof -
  have "scan_inv (utf8 src) 0 [0] []" by (simp add: scan_inv_def)
  from scan_lines_inv [OF this] scan_inv_line_table show ?thesis
    by (auto simp: LineIndex_new_def str_len_def split: prod.splits)
qed


subsection \<open>Laws of the conversions\<close>

lemma boundary_at_ascii:
  "i < str_len src \<Longrightarrow> utf8 src ! i < 128 \<Longrightarrow> is_char_boundary src i"
  by (simp add: is_char_boundary_def is_continuation_def)

lemma boundary_after_ascii:
  assumes "i < str_len src" "utf8 src ! i < 128"
  shows "is_char_boundary src (Suc i)"
proof -
  obtain s u where t: "src = s @ u" "i = str_len s"
    using boundary_at_ascii [OF assms] char_boundary_iff by blast
  with assms(1) obtain c u' where u: "u = c # u'" by (cases u) auto
  have "utf8_encode c ! 0 < 128"
    using assms(2) by (simp add: t u nth_append str_len_def)
  then have "len_utf8 c = 1" by (auto simp: utf8_encode_def len_utf8_def split: if_splits)
  with is_char_boundary_prefix [of "s @ [c]" u'] show ?thesis by (simp add: t u)
qed

lemma floor_boundary_spec:
  "is_char_boundary src (floor_boundary src off) \<and> floor_boundary src off \<le> off \<and>
   (\<forall>j \<le> off. is_char_boundary src j \<longrightarrow> j \<le> floor_boundary src off)"
  by (induction src off rule: floor_boundary.induct)
    (auto simp: is_char_boundary_def le_Suc_eq)

lemma floor_boundary_id: "is_char_boundary src off \<Longrightarrow> floor_boundary src off = off"
  using floor_boundary_spec [of src off] by (meson le_antisym order_refl)

lemma offset_units_prefix:
  "offset_units start (char_indices_from i (s @ u)) (n + utf16_count s) n
     (start + i + str_len s + str_len u) = start + i + str_len s"
proof (induction s arbitrary: i n)
  case Nil
  then show ?case by (cases u) (simp_all add: len_utf16_def)
next
  case (Cons c s)
  from Cons.IH [of "i + len_utf8 c" "n + len_utf16 c"] show ?case
    by (simp add: add.assoc Let_def)
qed

text \<open>An offset between the \<open>\r\<close> and the \<open>\n\<close> of one terminator.\<close>

definition inside_crlf :: "utext \<Rightarrow> nat \<Rightarrow> bool" where
  "inside_crlf src off \<longleftrightarrow>
     0 < off \<and> off < str_len src \<and> utf8 src ! (off - 1) = 13 \<and> utf8 src ! off = 10"

text \<open>
  The contract the conversions rely on: the index holds the line table of the text it is
  used with and knows whether that text is ASCII.
\<close>

locale line_index_of =
  fixes src :: utext and ix :: LineIndex
  assumes line_tab: "line_table (utf8 src) (li_starts ix) (li_ends ix)"
    and ascii_flag: "li_ascii ix = is_ascii src"
begin

lemma starts_nonempty: "0 < length (li_starts ix)"
  using line_tab by (simp add: line_table_def)

lemma ends_length: "length (li_ends ix) = length (li_starts ix)"
  using line_tab by (simp add: line_table_def)

lemma ends_last: "last (li_ends ix) = str_len src"
  using line_tab by (simp add: line_table_def str_len_def)

lemma start_le_end: "k < length (li_starts ix) \<Longrightarrow> li_starts ix ! k \<le> li_ends ix ! k"
  using line_tab by (simp add: line_table_def)

lemma gap: "Suc k < length (li_starts ix) \<Longrightarrow> terminator (utf8 src) (li_ends ix ! k) (li_starts ix ! Suc k)"
  using line_tab by (simp add: line_table_def)

lemma end_less_start: "Suc k < length (li_starts ix) \<Longrightarrow> li_ends ix ! k < li_starts ix ! Suc k"
  using gap [of k] by (auto simp: terminator_def)

lemma starts_mono: "j < k \<Longrightarrow> k < length (li_starts ix) \<Longrightarrow> li_starts ix ! j < li_starts ix ! k"
proof (induction k)
  case (Suc k)
  have "li_starts ix ! k < li_starts ix ! Suc k"
    using start_le_end [of k] end_less_start [of k] Suc.prems by simp
  with Suc show ?case by (cases "j = k") auto
qed simp

lemma last_end: "Suc k = length (li_starts ix) \<Longrightarrow> li_ends ix ! k = str_len src"
  using ends_last ends_length starts_nonempty
  by (metis diff_Suc_1 last_conv_nth length_greater_0_conv)

lemma end_le: "k < length (li_starts ix) \<Longrightarrow> li_ends ix ! k \<le> str_len src"
  using last_end [of k] gap [of k]
  by (cases "Suc k = length (li_starts ix)") (auto simp: terminator_def str_len_def)

lemma end_boundary: "k < length (li_starts ix) \<Longrightarrow> is_char_boundary src (li_ends ix ! k)"
proof (cases "Suc k = length (li_starts ix)")
  case True
  then show ?thesis by (simp add: last_end is_char_boundary_def)
next
  case False
  assume "k < length (li_starts ix)"
  with False gap [of k] show ?thesis
    by (intro boundary_at_ascii) (auto simp: terminator_def str_len_def)
qed

lemma start_boundary: "k < length (li_starts ix) \<Longrightarrow> is_char_boundary src (li_starts ix ! k)"
proof (cases k)
  case 0
  then show ?thesis using line_tab by (simp add: line_table_def is_char_boundary_def)
next
  case (Suc j)
  assume "k < length (li_starts ix)"
  with Suc gap [of j] obtain i where
    "li_starts ix ! k = Suc i" "i < str_len src" "utf8 src ! i < 128"
    by (auto simp: terminator_def str_len_def)
  then show ?thesis by (simp add: boundary_after_ascii)
qed

lemma line_col_at:
  assumes "l < length (li_starts ix)" "li_starts ix ! l \<le> off" "off \<le> str_len src"
    and "Suc l < length (li_starts ix) \<Longrightarrow> off < li_starts ix ! Suc l"
  shows "line_col ix off =
    Inr \<lparr>lc_line = l, lc_col = min off (li_ends ix ! l) - li_starts ix ! l\<rparr>"
proof -
  have "partition_point (\<lambda>start. start \<le> off) (li_starts ix) = Suc l"
  proof (rule partition_point_eqI)
    fix j assume "j < Suc l"
    then show "li_starts ix ! j \<le> off"
      using starts_mono [of j l] assms(1,2) by (cases "j = l") auto
  qed (use assms in auto)
  moreover have "li_ends ix \<noteq> []" using starts_nonempty ends_length by auto
  ultimately show ?thesis
    using assms start_le_end [of l] by (simp add: line_col_def ends_last ends_length)
qed

lemma line_exists:
  assumes "off \<le> str_len src"
  shows "\<exists>l < length (li_starts ix). li_starts ix ! l \<le> off \<and>
    (Suc l < length (li_starts ix) \<longrightarrow> off < li_starts ix ! Suc l)"
proof -
  let ?k = "partition_point (\<lambda>start. start \<le> off) (li_starts ix)"
  have "li_starts ix ! 0 = 0" using line_tab by (simp add: line_table_def)
  then have "?k \<noteq> 0"
    using partition_point_nth [of "\<lambda>start. start \<le> off" "li_starts ix"] starts_nonempty
    by (metis le0)
  then obtain l where l: "?k = Suc l" by (cases ?k) auto
  show ?thesis
    using partition_point_le [of "\<lambda>start. start \<le> off" "li_starts ix"]
      partition_point_less_nth [of l "\<lambda>start. start \<le> off" "li_starts ix"]
      partition_point_nth [of "\<lambda>start. start \<le> off" "li_starts ix"] l
    by (intro exI [of _ l]) auto
qed

lemma off_le_end:
  assumes "l < length (li_starts ix)" "off \<le> str_len src" "\<not> inside_crlf src off"
    and "Suc l < length (li_starts ix) \<Longrightarrow> off < li_starts ix ! Suc l"
  shows "off \<le> li_ends ix ! l"
proof (cases "Suc l < length (li_starts ix)")
  case False
  with assms(1) have "Suc l = length (li_starts ix)" by simp
  from last_end [OF this] assms(2) show ?thesis by simp
next
  case True
  show ?thesis
  proof (rule ccontr)
    assume "\<not> ?thesis"
    with gap [OF True] assms(4) [OF True]
    have "off = Suc (li_ends ix ! l)" "utf8 src ! (li_ends ix ! l) = 13"
      "utf8 src ! Suc (li_ends ix ! l) = 10" "Suc (li_ends ix ! l) < str_len src"
      by (auto simp: terminator_def str_len_def)
    with assms(3) show False by (simp add: inside_crlf_def)
  qed
qed

lemma offset_at:
  assumes "l < length (li_starts ix)"
  shows "offset dbg ix src \<lparr>lc_line = l, lc_col = c\<rparr> =
    Inr (floor_boundary src (li_starts ix ! l + min c (li_ends ix ! l - li_starts ix ! l)))"
  using assms start_le_end [of l] starts_nonempty ends_length
  by (auto simp: offset_def ends_last Let_def)

lemma offset_past:
  "length (li_starts ix) \<le> l \<Longrightarrow> offset dbg ix src \<lparr>lc_line = l, lc_col = c\<rparr> = Inr (str_len src)"
  using starts_nonempty ends_length by (auto simp: offset_def ends_last)

lemma line_col_total:
  assumes "off \<le> str_len src"
  shows "\<exists>p. line_col ix off = Inr p \<and> lc_line p < line_count ix"
proof -
  obtain l where "l < length (li_starts ix)" "li_starts ix ! l \<le> off"
    "Suc l < length (li_starts ix) \<longrightarrow> off < li_starts ix ! Suc l"
    using line_exists [OF assms] by blast
  with line_col_at [of l off] assms show ?thesis by (simp add: line_count_def)
qed

lemma position_of_offset:
  assumes "off \<le> str_len src" "\<not> inside_crlf src off"
  obtains l where "l < length (li_starts ix)" "li_starts ix ! l \<le> off" "off \<le> li_ends ix ! l"
    "line_col ix off = Inr \<lparr>lc_line = l, lc_col = off - li_starts ix ! l\<rparr>"
proof -
  obtain l where l: "l < length (li_starts ix)" "li_starts ix ! l \<le> off"
    "Suc l < length (li_starts ix) \<longrightarrow> off < li_starts ix ! Suc l"
    using line_exists [OF assms(1)] by blast
  from off_le_end [of l off] l assms have "off \<le> li_ends ix ! l" by blast
  with line_col_at [of l off] l assms(1) that show thesis by simp
qed

lemma byte_round_trip:
  assumes "off \<le> str_len src" "\<not> inside_crlf src off" "is_char_boundary src off"
  shows "\<exists>p. line_col ix off = Inr p \<and> offset dbg ix src p = Inr off"
proof -
  from assms(1,2) obtain l where l: "l < length (li_starts ix)" "li_starts ix ! l \<le> off"
    "off \<le> li_ends ix ! l" "line_col ix off = Inr \<lparr>lc_line = l, lc_col = off - li_starts ix ! l\<rparr>"
    by (rule position_of_offset)
  have "li_starts ix ! l + min (off - li_starts ix ! l) (li_ends ix ! l - li_starts ix ! l) = off"
    using l(2,3) by simp
  with l offset_at [of l dbg "off - li_starts ix ! l"] floor_boundary_id [OF assms(3)]
  show ?thesis by simp
qed

lemma offset_in_line:
  assumes "l < length (li_starts ix)"
  shows "\<exists>off. offset dbg ix src \<lparr>lc_line = l, lc_col = c\<rparr> = Inr off \<and> is_char_boundary src off \<and>
    li_starts ix ! l \<le> off \<and> off \<le> li_ends ix ! l \<and> off - li_starts ix ! l \<le> c \<and>
    (\<forall>j. is_char_boundary src j \<longrightarrow> off < j \<longrightarrow> j \<le> li_ends ix ! l \<longrightarrow> c < j - li_starts ix ! l)"
proof -
  let ?m = "li_starts ix ! l + min c (li_ends ix ! l - li_starts ix ! l)"
  let ?off = "floor_boundary src ?m"
  have le: "li_starts ix ! l \<le> li_ends ix ! l" by (rule start_le_end [OF assms])
  from floor_boundary_spec [of src ?m] have fl: "is_char_boundary src ?off" "?off \<le> ?m"
    "\<And>j. j \<le> ?m \<Longrightarrow> is_char_boundary src j \<Longrightarrow> j \<le> ?off" by auto
  have "li_starts ix ! l \<le> ?off" by (rule fl(3)) (simp_all add: start_boundary [OF assms])
  moreover have "c < j - li_starts ix ! l"
    if "is_char_boundary src j" "?off < j" "j \<le> li_ends ix ! l" for j
  proof -
    have "?m < j" using fl(3) [of j] that(1,2) by force
    with that(3) show ?thesis by (auto simp: min_def split: if_splits)
  qed
  moreover have "?off \<le> li_ends ix ! l" "?off - li_starts ix ! l \<le> c" using fl(2) le by linarith+
  ultimately show ?thesis
    by (intro exI [of _ ?off] conjI allI impI offset_at [OF assms, of dbg c] fl(1))
qed

lemma slice_line:
  assumes "l < length (li_starts ix)" "li_starts ix ! l \<le> off" "off \<le> li_ends ix ! l"
    "is_char_boundary src off"
  obtains s u where "str_slice src (li_starts ix ! l) off = Inr s"
    "str_slice src (li_starts ix ! l) (li_ends ix ! l) = Inr (s @ u)"
    "off = li_starts ix ! l + str_len s" "li_ends ix ! l = off + str_len u"
proof -
  obtain a m v where amv: "src = a @ m @ v" "li_starts ix ! l = str_len a"
    "li_ends ix ! l = str_len a + str_len m"
    using boundary_split2 [OF start_boundary end_boundary start_le_end] assms(1) by metis
  obtain a' s w where asw: "src = a' @ s @ w" "li_starts ix ! l = str_len a'"
    "off = str_len a' + str_len s"
    using boundary_split2 [OF start_boundary assms(4,2)] assms(1) by metis
  obtain b u v' where buv: "src = b @ u @ v'" "off = str_len b"
    "li_ends ix ! l = str_len b + str_len u"
    using boundary_split2 [OF assms(4) end_boundary assms(3)] assms(1) by metis
  have "a = a'" using prefix_unique [of a "m @ v" a' "s @ w"] amv asw by simp
  moreover have "b = a' @ s" using prefix_unique [of b "u @ v'" "a' @ s" w] buv asw by simp
  ultimately have "a @ m @ v = a @ (s @ u) @ v'" using amv(1) buv(1) by simp
  moreover have "str_len m = str_len (s @ u)" using amv asw buv by simp
  ultimately have "m = s @ u" using prefix_unique [of m v "s @ u" v'] by simp
  with that [of s u] str_slice_append [of a m v] str_slice_append [of a' s w] amv asw buv
  show thesis by simp
qed

lemma utf16_round_trip:
  assumes "off \<le> str_len src" "\<not> inside_crlf src off" "is_char_boundary src off"
  shows "\<exists>p. line_col_in ix src off Utf16 = Inr p \<and> offset_in dbg ix src p Utf16 = Inr off"
proof (cases "li_ascii ix")
  case True
  from byte_round_trip [OF assms, of dbg] True assms(3) show ?thesis
    by (auto simp: line_col_in_def offset_in_def)
next
  case False
  from assms(1,2) obtain l where l: "l < length (li_starts ix)" "li_starts ix ! l \<le> off"
    "off \<le> li_ends ix ! l" "line_col ix off = Inr \<lparr>lc_line = l, lc_col = off - li_starts ix ! l\<rparr>"
    by (rule position_of_offset)
  from l(1-3) assms(3) obtain s u where su: "str_slice src (li_starts ix ! l) off = Inr s"
    "str_slice src (li_starts ix ! l) (li_ends ix ! l) = Inr (s @ u)"
    "off = li_starts ix ! l + str_len s" "li_ends ix ! l = off + str_len u"
    by (rule slice_line)
  have "line_col_in ix src off Utf16 = Inr \<lparr>lc_line = l, lc_col = utf16_count s\<rparr>"
    using l assms(3) su False by (simp add: line_col_in_def)
  moreover have "offset_units (li_starts ix ! l) (char_indices (s @ u)) (utf16_count s) 0
      (li_ends ix ! l) = off"
    using offset_units_prefix [of "li_starts ix ! l" 0 s u 0] su(3,4)
    by (simp add: char_indices_def)
  ultimately show ?thesis using l(1) su(2) False ends_length by (simp add: offset_in_def)
qed

end

interpretation new_index: line_index_of src "LineIndex_new src" for src
  by unfold_locales (rule LineIndex_new_table, simp add: LineIndex_new_def split: prod.splits)

subsection \<open>Properties\<close>

text \<open>The table that \<open>LineIndex::new\<close> builds: as many ends as starts, the first line at
  offset 0, the last end at the end of the text, no line content holding a line feed or a carriage
  return, and exactly one terminator (\<open>\n\<close>, \<open>\r\n\<close> taken whole, or a lone \<open>\r\<close>) between two
  neighbouring lines.\<close>
lemma LineIndex_new_line_table:
  "line_table (utf8 src) (li_starts (LineIndex_new src)) (li_ends (LineIndex_new src))"
  by (rule LineIndex_new_table)

text \<open>C27. Byte positions round-trip: for a character boundary that is not inside a \<open>\r\n\<close>,
  \<open>line_col\<close> returns a position and \<open>offset\<close> takes that position back to the same offset,
  with or without debug assertions.\<close>
theorem line_col_offset_roundtrip:
  assumes "is_char_boundary src off" "\<not> inside_crlf src off"
  shows "\<exists>p. line_col (LineIndex_new src) off = Inr p \<and>
    offset dbg (LineIndex_new src) src p = Inr off"
  using assms new_index.byte_round_trip [of off src dbg] by (auto simp: is_char_boundary_def)

theorem line_col_offset_roundtrip_witness:
  "\<exists>p. line_col (LineIndex_new [97, 8364, 13, 10, 98]) 4 = Inr p \<and>
    offset True (LineIndex_new [97, 8364, 13, 10, 98]) [97, 8364, 13, 10, 98] p = Inr 4"
  by (rule line_col_offset_roundtrip)
    (simp_all add: is_char_boundary_def inside_crlf_def is_continuation_def utf8_encode_def len_utf8_def)

text \<open>UTF-16 positions round-trip under the same conditions, through the ASCII shortcut and
  through the counting loop alike.\<close>
lemma line_col_offset_roundtrip_utf16:
  assumes "is_char_boundary src off" "\<not> inside_crlf src off"
  shows "\<exists>p. line_col_in (LineIndex_new src) src off Utf16 = Inr p \<and>
    offset_in dbg (LineIndex_new src) src p Utf16 = Inr off"
  using assms new_index.utf16_round_trip [of off src dbg] by (auto simp: is_char_boundary_def)

text \<open>\<open>offset\<close> names an offset for every position and never panics. For a line past the last
  it is the end of the text. Otherwise it lies in the line's content, and it is the greatest
  character boundary of that content whose column does not exceed the column asked for.\<close>
lemma offset_clamps:
  "\<exists>off. offset dbg (LineIndex_new src) src pos = Inr off \<and> is_char_boundary src off \<and>
     (if line_count (LineIndex_new src) \<le> lc_line pos then off = str_len src
      else li_starts (LineIndex_new src) ! lc_line pos \<le> off \<and>
           off \<le> li_ends (LineIndex_new src) ! lc_line pos \<and>
           off - li_starts (LineIndex_new src) ! lc_line pos \<le> lc_col pos \<and>
           \<not> (\<exists>j. is_char_boundary src j \<and> off < j \<and> j \<le> li_ends (LineIndex_new src) ! lc_line pos \<and>
                 j - li_starts (LineIndex_new src) ! lc_line pos \<le> lc_col pos))"
proof -
  obtain l c where pos: "pos = \<lparr>lc_line = l, lc_col = c\<rparr>" by (cases pos) auto
  show ?thesis
  proof (cases "line_count (LineIndex_new src) \<le> l")
    case True
    then show ?thesis
      using new_index.offset_past [of src l dbg c] by (simp add: pos line_count_def is_char_boundary_def)
  next
    case False
    then have "l < length (li_starts (LineIndex_new src))" by (simp add: line_count_def)
    from new_index.offset_in_line [OF this, of dbg c] obtain off where
      "offset dbg (LineIndex_new src) src pos = Inr off" "is_char_boundary src off"
      "li_starts (LineIndex_new src) ! l \<le> off" "off \<le> li_ends (LineIndex_new src) ! l"
      "off - li_starts (LineIndex_new src) ! l \<le> c"
      "\<not> (\<exists>j. is_char_boundary src j \<and> off < j \<and> j \<le> li_ends (LineIndex_new src) ! l \<and>
        j - li_starts (LineIndex_new src) ! l \<le> c)"
      unfolding pos by (metis linorder_not_le)
    with False show ?thesis by (simp add: pos)
  qed
qed

end
