(* ===== verification/Builtins.thy ===== *)
theory Builtins
  imports Source_Text
begin

section \<open>Surface builtins\<close>

text \<open>
  \<open>chl-parser/src/builtins.rs\<close>: the table of names that CHL source calls as builtins and
  the accessors that read a variant's row by its discriminant.
\<close>

datatype SurfaceBuiltin =
    Sum_B | Max_B | Min_B | Groupby | Set_B | Map_B | Box_B | EmptyMap | IntToUint | AwaitFinal
  | Begin_B | HttpServe | TestSink | Stdin | Summon

datatype Arity = Exact nat | Any

fun accepts :: "Arity \<Rightarrow> nat \<Rightarrow> bool" where
  "accepts (Exact k) n = (n = k)"
| "accepts Any n = True"

definition Arity_display :: "Arity \<Rightarrow> utext" where
  "Arity_display a =
     (case a of
        Exact n \<Rightarrow>
          if n = 0 then lit ''no arguments''
          else if n = 1 then lit ''exactly one argument''
          else if n = 2 then lit ''exactly two arguments''
          else if n = 3 then lit ''exactly three arguments''
          else lit ''exactly '' @ decimal n @ lit '' arguments''
      | Any \<Rightarrow> lit ''any number of arguments'')"

datatype SurfaceBuiltinKind = Function_K | TransactionMarker | SinkDeclaration | Source_K | Qualifier

record SurfaceBuiltinEntry =
  e_spelling :: utext
  e_builtin :: SurfaceBuiltin
  e_arity :: Arity
  e_kind :: SurfaceBuiltinKind

definition new_entry :: "string \<Rightarrow> SurfaceBuiltin \<Rightarrow> Arity \<Rightarrow> SurfaceBuiltinKind \<Rightarrow> SurfaceBuiltinEntry" where
  "new_entry s b a k = \<lparr>e_spelling = lit s, e_builtin = b, e_arity = a, e_kind = k\<rparr>"

definition SURFACE_BUILTINS :: "SurfaceBuiltinEntry list" where
  "SURFACE_BUILTINS =
    [new_entry ''sum'' Sum_B (Exact 1) Function_K,
     new_entry ''max'' Max_B (Exact 1) Function_K,
     new_entry ''min'' Min_B (Exact 1) Function_K,
     new_entry ''groupby'' Groupby (Exact 2) Function_K,
     new_entry ''set'' Set_B (Exact 1) Function_K,
     new_entry ''map'' Map_B (Exact 1) Function_K,
     new_entry ''box'' Box_B (Exact 1) Function_K,
     new_entry ''empty_map'' EmptyMap (Exact 0) Function_K,
     new_entry ''int_to_uint'' IntToUint (Exact 1) Function_K,
     new_entry ''await_final'' AwaitFinal (Exact 1) Function_K,
     new_entry ''begin'' Begin_B (Exact 0) TransactionMarker,
     new_entry ''http_serve'' HttpServe (Exact 3) SinkDeclaration,
     new_entry ''test_sink'' TestSink (Exact 0) SinkDeclaration,
     new_entry ''stdin'' Stdin (Exact 0) Source_K,
     new_entry ''summon'' Summon (Exact 1) Qualifier]"

definition from_name :: "utext \<Rightarrow> SurfaceBuiltin option" where
  "from_name name =
     map_option e_builtin (find (\<lambda>e. e_spelling e = name) SURFACE_BUILTINS)"

text \<open>The cast \<open>self as usize\<close>: the position in the declaration order.\<close>

fun discriminant :: "SurfaceBuiltin \<Rightarrow> nat" where
  "discriminant Sum_B = 0" | "discriminant Max_B = 1" | "discriminant Min_B = 2"
| "discriminant Groupby = 3" | "discriminant Set_B = 4" | "discriminant Map_B = 5"
| "discriminant Box_B = 6" | "discriminant EmptyMap = 7" | "discriminant IntToUint = 8"
| "discriminant AwaitFinal = 9" | "discriminant Begin_B = 10" | "discriminant HttpServe = 11"
| "discriminant TestSink = 12" | "discriminant Stdin = 13" | "discriminant Summon = 14"

definition entry :: "bool \<Rightarrow> SurfaceBuiltin \<Rightarrow> SurfaceBuiltinEntry res" where
  "entry dbg b =
     (if length SURFACE_BUILTINS \<le> discriminant b then Inl OutOfRange
      else
        let row = SURFACE_BUILTINS ! discriminant b in
        if dbg \<and> discriminant (e_builtin row) \<noteq> discriminant b then Inl AssertFailed
        else Inr row)"

definition spelling :: "bool \<Rightarrow> SurfaceBuiltin \<Rightarrow> utext res" where
  "spelling dbg b = map_ok e_spelling (entry dbg b)"

definition arity :: "bool \<Rightarrow> SurfaceBuiltin \<Rightarrow> Arity res" where
  "arity dbg b = map_ok e_arity (entry dbg b)"

definition kind_of :: "bool \<Rightarrow> SurfaceBuiltin \<Rightarrow> SurfaceBuiltinKind res" where
  "kind_of dbg b = map_ok e_kind (entry dbg b)"

lemma entry_row: "\<exists>row. entry dbg b = Inr row \<and> e_builtin row = b \<and> row \<in> set SURFACE_BUILTINS"
  by (cases b) (simp_all add: entry_def SURFACE_BUILTINS_def new_entry_def del: lit_simps)

lemma spellings_distinct: "distinct (map e_spelling SURFACE_BUILTINS)"
  by code_simp

lemma builtins_distinct: "distinct (map e_builtin SURFACE_BUILTINS)"
  by (simp add: SURFACE_BUILTINS_def new_entry_def del: lit_simps)

lemma find_key_unique:
  "distinct (map f xs) \<Longrightarrow> x \<in> set xs \<Longrightarrow> find (\<lambda>e. f e = f x) xs = Some x"
  by (induction xs) force+

text \<open>Names and builtins correspond one to one: \<open>from_name\<close> recognises a name exactly when
  it is the spelling of the builtin it returns, and the row read by discriminant exists and is that
  builtin's, so \<open>entry\<close> never panics.\<close>
lemma from_name_spelling:
  "from_name name = Some b \<longleftrightarrow> spelling dbg b = Inr name"
proof -
  obtain row where row: "entry dbg b = Inr row" "e_builtin row = b" "row \<in> set SURFACE_BUILTINS"
    using entry_row by blast
  have sp: "spelling dbg b = Inr (e_spelling row)" by (simp add: spelling_def row)
  show ?thesis
  proof
    assume "from_name name = Some b"
    then obtain e where e: "find (\<lambda>e. e_spelling e = name) SURFACE_BUILTINS = Some e" "e_builtin e = b"
      by (auto simp: from_name_def)
    then have "e \<in> set SURFACE_BUILTINS" "e_spelling e = name" by (auto simp: find_Some_iff)
    moreover have "e = row"
      using builtins_distinct calculation(1) e(2) row(2,3) by (metis distinct_map inj_onD)
    ultimately show "spelling dbg b = Inr name" using sp by simp
  next
    assume "spelling dbg b = Inr name"
    with sp have "e_spelling row = name" by simp
    with find_key_unique [OF spellings_distinct row(3)] row(2) show "from_name name = Some b"
      by (simp add: from_name_def)
  qed
qed

end
