(* ===== verification/Literals.thy ===== *)
theory Literals
  imports Source_Text
begin

section \<open>String and integer literals\<close>

text \<open>
  The readers of literal text in \<open>chl-parser/src/lexer.rs\<close>: \<open>parse_int\<close> for the decimal literals
  with digit separators, \<open>unescape\<close> and \<open>process_string\<close> for the quoted ones.
\<close>

subsection \<open>The operations\<close>

text \<open>\<open>str::parse::<i64>\<close>: an optional sign and at least one digit, in range of the type.\<close>

definition is_digit :: "uchar \<Rightarrow> bool" where
  "is_digit c \<longleftrightarrow> 48 \<le> c \<and> c \<le> 57"

definition digits_value :: "utext \<Rightarrow> nat" where
  "digits_value ds = foldl (\<lambda>n c. 10 * n + (c - 48)) 0 ds"

definition parse_i64 :: "utext \<Rightarrow> i64 option" where
  "parse_i64 t =
     (let neg = (case t of c # _ \<Rightarrow> c = 45 | [] \<Rightarrow> False);
          ds = (case t of c # t' \<Rightarrow> if c = 45 \<or> c = 43 then t' else t | [] \<Rightarrow> []) in
      if ds = [] \<or> \<not> list_all is_digit ds then None
      else if neg then
        (if digits_value ds \<le> 2 ^ 63 then Some (- of_nat (digits_value ds)) else None)
      else if digits_value ds < 2 ^ 63 then Some (of_nat (digits_value ds)) else None)"

definition parse_int :: "utext \<Rightarrow> i64 option" where
  "parse_int t =
     (if ends_with t (lit ''_'') \<or> contains t (lit ''__'') then None
      else parse_i64 (filter (\<lambda>c. c \<noteq> 95) t))"

text \<open>The escapes \<open>\n\<close>, \<open>\t\<close>, \<open>\r\<close>, the backslash, the two quotes and \<open>\0\<close>.\<close>

definition ESCAPES :: "(uchar \<times> uchar) list" where
  "ESCAPES = [(110, 10), (116, 9), (114, 13), (92, 92), (34, 34), (39, 39), (48, 0)]"

definition escaped :: "uchar \<Rightarrow> uchar option" where
  "escaped c = map_option snd (find (\<lambda>(escape, _). escape = c) ESCAPES)"

fun unescape :: "utext \<Rightarrow> utext" where
  "unescape [] = []"
| "unescape [c] = [c]"
| "unescape (c # d # cs) =
     (if c \<noteq> 92 then c # unescape (d # cs)
      else (case escaped d of
          Some v \<Rightarrow> v # unescape cs
        | None \<Rightarrow> 92 # d # unescape cs))"

definition process_string :: "utext \<Rightarrow> uchar \<Rightarrow> utext option" where
  "process_string raw quote =
     (case strip_prefix [quote] raw of
        None \<Rightarrow> None
      | Some t \<Rightarrow> map_option unescape (strip_suffix [quote] t))"

subsection \<open>Integers\<close>

lemma digit_not_sep: "is_digit c \<Longrightarrow> c \<noteq> 95" "is_digit c \<Longrightarrow> c \<noteq> 45" "is_digit c \<Longrightarrow> c \<noteq> 43"
  by (auto simp: is_digit_def)

lemma ends_with_last: "ends_with t [c] \<longleftrightarrow> t \<noteq> [] \<and> last t = c"
  by (cases t rule: rev_cases) (auto simp: ends_with_append)

text \<open>A run of digits: not empty and digits only.\<close>

definition digit_run :: "utext \<Rightarrow> bool" where
  "digit_run g \<longleftrightarrow> g \<noteq> [] \<and> list_all is_digit g"

lemma join_sep_Cons: "gs \<noteq> [] \<Longrightarrow> join s (g # gs) = g @ s @ join s gs"
  by (cases gs) auto

lemma starts_with_join:
  assumes "gs \<noteq> []" "list_all digit_run gs"
  shows "\<exists>c t. join [95] gs = c # t \<and> is_digit c"
proof -
  obtain g gs' where gs: "gs = g # gs'" using assms(1) by (cases gs) auto
  then obtain c r where "g = c # r" "is_digit c"
    using assms(2) by (cases g) (auto simp: digit_run_def)
  then show ?thesis using gs by (cases gs') auto
qed

lemma double_sep_digits:
  "list_all is_digit g \<Longrightarrow> contains (g @ t) [95, 95] = contains t [95, 95]"
  by (induction g) (auto simp: starts_with_def dest: digit_not_sep)

lemma digits_no_double_sep: "list_all is_digit g \<Longrightarrow> \<not> contains g [95, 95]"
  using double_sep_digits [of g "[]"] by (simp add: starts_with_def)

lemma join_separators:
  assumes "gs \<noteq> []" "list_all digit_run gs"
  shows "\<not> contains (join [95] gs) [95, 95] \<and> \<not> ends_with (join [95] gs) [95] \<and>
    filter (\<lambda>c. c \<noteq> 95) (join [95] gs) = concat gs"
  using assms
proof (induction gs)
  case (Cons g gs)
  have g: "g \<noteq> []" "list_all is_digit g" using Cons.prems by (auto simp: digit_run_def)
  have flt: "filter (\<lambda>c. c \<noteq> 95) g = g"
    using g(2) by (auto simp: filter_id_conv list_all_iff dest: digit_not_sep)
  have last: "last g \<noteq> 95" using g by (metis digit_not_sep(1) last_in_set list_all_iff)
  show ?case
  proof (cases "gs = []")
    case True
    with g flt last digits_no_double_sep [OF g(2)] show ?thesis
      by (simp add: ends_with_last)
  next
    case False
    obtain c t where ct: "join [95] gs = c # t" "is_digit c"
      using starts_with_join [OF False] Cons.prems by auto
    have IH: "\<not> contains (join [95] gs) [95, 95]" "\<not> ends_with (join [95] gs) [95]"
      "filter (\<lambda>c. c \<noteq> 95) (join [95] gs) = concat gs"
      using Cons.IH [OF False] Cons.prems by auto
    have "\<not> contains ([95] @ join [95] gs) [95, 95]"
      using IH(1) ct by (auto simp: starts_with_def dest: digit_not_sep)
    then have "\<not> contains (join [95] (g # gs)) [95, 95]"
      using double_sep_digits [OF g(2)] False by (simp add: join_sep_Cons)
    moreover have "\<not> ends_with (join [95] (g # gs)) [95]"
      using IH(2) False ct(1) by (simp add: ends_with_last join_sep_Cons)
    ultimately show ?thesis using IH(3) flt False by (simp add: join_sep_Cons)
  qed
qed simp

lemma separators_join:
  assumes "list_all (\<lambda>c. is_digit c \<or> c = 95) t" "t \<noteq> []" "is_digit (hd t)"
    "\<not> contains t [95, 95]" "\<not> ends_with t [95]"
  shows "\<exists>gs. gs \<noteq> [] \<and> list_all digit_run gs \<and> t = join [95] gs"
  using assms
proof (induction "length t" arbitrary: t rule: less_induct)
  case less
  let ?g = "takeWhile is_digit t" and ?r = "dropWhile is_digit t"
  have g: "digit_run ?g" using less.prems(2,3)
    by (cases t) (auto simp: digit_run_def list_all_iff dest: set_takeWhileD)
  have t: "t = ?g @ ?r" by simp
  show ?case
  proof (cases ?r)
    case Nil
    with g t show ?thesis by (intro exI [of _ "[?g]"]) auto
  next
    case (Cons c r)
    have "\<not> is_digit c" using Cons hd_dropWhile [of is_digit t] by simp
    moreover have "c \<in> set t" using Cons by (metis list.set_intros(1) set_dropWhileD)
    ultimately have c: "c = 95" using less.prems(1) by (auto simp: list_all_iff)
    have t': "t = ?g @ 95 # r" using t Cons c by simp
    have nd: "\<not> contains (95 # r) [95, 95]"
      using less.prems(4) double_sep_digits [of ?g "95 # r"] t' g by (simp add: digit_run_def)
    have "r \<noteq> []" using less.prems(5) arg_cong [OF t', of last] less.prems(2)
      by (auto simp: ends_with_last)
    moreover have all: "list_all (\<lambda>c. is_digit c \<or> c = 95) r"
      using less.prems(1) arg_cong [OF t', of set] by (auto simp: list_all_iff)
    moreover have "is_digit (hd r)"
      using nd \<open>r \<noteq> []\<close> all by (cases r) (auto simp: starts_with_def)
    moreover have "\<not> ends_with r [95]"
      using less.prems(2,5) \<open>r \<noteq> []\<close> arg_cong [OF t', of last] by (simp add: ends_with_last)
    moreover have "length r < length t" using arg_cong [OF t', of length] by simp
    ultimately obtain gs where gs: "gs \<noteq> []" "list_all digit_run gs" "r = join [95] gs"
      using less.hyps [of r] nd by auto
    then have "t = join [95] (?g # gs)" using t' by (simp add: join_sep_Cons)
    then show ?thesis using g gs by (intro exI [of _ "?g # gs"]) auto
  qed
qed

lemma parse_i64_digits:
  "digit_run t \<Longrightarrow>
     parse_i64 t = (if digits_value t < 2 ^ 63 then Some (of_nat (digits_value t)) else None)"
  by (cases t) (auto simp: parse_i64_def digit_run_def Let_def dest: digit_not_sep)

lemma concat_digit_run: "gs \<noteq> [] \<Longrightarrow> list_all digit_run gs \<Longrightarrow> digit_run (concat gs)"
  by (cases gs) (auto simp: digit_run_def list_all_iff)

text \<open>C28. On a text the integer rule matches (a digit, then digits and underscores), \<open>parse_int\<close>
  returns a value exactly when the text is runs of digits with one underscore between two
  neighbouring runs and the number the digits write fits an \<open>i64\<close>, and the value is that number.\<close>
theorem parse_int_spec:
  assumes "t \<noteq> []" "is_digit (hd t)" "list_all (\<lambda>c. is_digit c \<or> c = 95) t"
  shows "parse_int t = Some v \<longleftrightarrow>
    (\<exists>gs. gs \<noteq> [] \<and> list_all digit_run gs \<and> t = join [95] gs \<and>
       digits_value (concat gs) < 2 ^ 63 \<and> v = of_nat (digits_value (concat gs)))"
proof (cases "contains t [95, 95] \<or> ends_with t [95]")
  case True
  then have "parse_int t = None" by (auto simp: parse_int_def)
  with True join_separators show ?thesis by auto
next
  case False
  then obtain gs where gs: "gs \<noteq> []" "list_all digit_run gs" "t = join [95] gs"
    using separators_join [of t] assms by auto
  have val: "parse_int (join [95] hs) = (if digits_value (concat hs) < 2 ^ 63
      then Some (of_nat (digits_value (concat hs))) else None)"
    if "hs \<noteq> []" "list_all digit_run hs" for hs
    using join_separators [OF that] parse_i64_digits [OF concat_digit_run [OF that]]
    by (simp add: parse_int_def)
  show ?thesis
  proof
    assume "parse_int t = Some v"
    with val [OF gs(1,2)] gs show "\<exists>gs. gs \<noteq> [] \<and> list_all digit_run gs \<and> t = join [95] gs \<and>
       digits_value (concat gs) < 2 ^ 63 \<and> v = of_nat (digits_value (concat gs))"
      by (intro exI [of _ gs]) (auto split: if_splits)
  next
    assume "\<exists>gs. gs \<noteq> [] \<and> list_all digit_run gs \<and> t = join [95] gs \<and>
       digits_value (concat gs) < 2 ^ 63 \<and> v = of_nat (digits_value (concat gs))"
    with val show "parse_int t = Some v" by auto
  qed
qed

theorem parse_int_spec_witness:
  "parse_int (lit ''1_000'') = Some 1000 \<longleftrightarrow>
    (\<exists>gs. gs \<noteq> [] \<and> list_all digit_run gs \<and> lit ''1_000'' = join [95] gs \<and>
       digits_value (concat gs) < 2 ^ 63 \<and> (1000::i64) = of_nat (digits_value (concat gs)))"
  by (rule parse_int_spec) (simp_all add: is_digit_def)

subsection \<open>Strings\<close>

text \<open>
  A writer of string literals: every character the escape table can produce is written as its
  escape. \<open>string_body\<close> is the body that the two string rules of the token enum accept.
\<close>

definition escape_char :: "uchar \<Rightarrow> utext" where
  "escape_char c =
     (case find (\<lambda>(_, v). v = c) ESCAPES of Some (e, _) \<Rightarrow> [92, e] | None \<Rightarrow> [c])"

definition escape :: "utext \<Rightarrow> utext" where
  "escape t = concat (map escape_char t)"

fun string_body :: "uchar \<Rightarrow> utext \<Rightarrow> bool" where
  "string_body q [] = True"
| "string_body q [c] = (c \<noteq> q \<and> c \<noteq> 92 \<and> c \<noteq> 10)"
| "string_body q (c # d # cs) =
     (if c = 92 then d \<noteq> 10 \<and> string_body q cs else c \<noteq> q \<and> c \<noteq> 10 \<and> string_body q (d # cs))"

lemma escape_char_cases:
  "escape_char c = [c] \<and> c \<notin> {10, 9, 13, 92, 34, 39, 0} \<or>
   (\<exists>e. escape_char c = [92, e] \<and> escaped e = Some c \<and> e \<noteq> 10)"
  by (auto simp: escape_char_def ESCAPES_def escaped_def)

lemma unescape_plain: "c \<noteq> 92 \<Longrightarrow> unescape (c # r) = c # unescape r"
  by (cases r) auto

lemma unescape_escape: "unescape (escape t) = t"
proof (induction t)
  case (Cons c t)
  from escape_char_cases [of c] show ?case
    using Cons by (auto simp: escape_def unescape_plain)
qed (simp add: escape_def)

lemma string_body_plain: "c \<notin> {q, 92, 10} \<Longrightarrow> string_body q (c # r) = string_body q r"
  by (cases r) auto

lemma string_body_escape: "q \<in> {34, 39} \<Longrightarrow> string_body q (escape t)"
proof (induction t)
  case (Cons c t)
  from escape_char_cases [of c] show ?case
    using Cons by (auto simp: escape_def string_body_plain)
qed (simp add: escape_def)

text \<open>C29. Every text is the value of a one-line string literal in either quote: its escaped form
  is a body the string rules accept, and \<open>process_string\<close> on the quoted body returns the text.\<close>
theorem process_string_escape:
  assumes "q = 34 \<or> q = 39"
  shows "string_body q (escape t) \<and> process_string (q # escape t @ [q]) q = Some t"
  using assms string_body_escape [of q t]
  by (auto simp: process_string_def strip_prefix_def strip_suffix_def starts_with_def ends_with_def
      unescape_escape)

theorem process_string_escape_witness:
  "string_body 34 (escape [34, 10, 97]) \<and>
   process_string (34 # escape [34, 10, 97] @ [34]) 34 = Some [34, 10, 97]"
  by (rule process_string_escape) simp

end
