(* ===== verification/Tokens.thy ===== *)
theory Tokens
  imports Builtins Literals
begin

section \<open>The token alphabet and the lexer's tables\<close>

text \<open>
  The data of \<open>chl-parser/src/lexer.rs\<close>: the tokens, the keyword table, the highlight
  classes, the lexical errors, the bracket kinds and the layout levels. A constructor \<open>T_X\<close> is \<open>Token::X\<close> and \<open>C_X\<close> is
  \<open>HighlightClass::X\<close>.
\<close>

subsection \<open>Tokens\<close>

datatype (plugins only: code size) Token =
    T_Newline | T_Indent | T_Dedent | T_BlockValueIndent | T_BlockValueDedent | T_Error | T_True
  | T_False | T_Where | T_And | T_Or | T_Not | T_If | T_Elif | T_Else | T_For | T_In | T_Def
  | T_Return | T_Yield | T_Pass | T_With | T_Match | T_Case | T_Forall | T_Requires | T_Type
  | T_Impl | T_Instance | T_Trait | T_Import | T_Use | T_As | T_Pub | T_Run | T_Param
  | T_Const | T_This | T_LShiftEq | T_LShift | T_EqEq | T_NotEq | T_LtE | T_LtColon | T_GtE
  | T_PlusPlus | T_PlusEq | T_CaretPlus | T_CaretEq | T_MinusEq | T_Arrow | T_DoubleArrow
  | T_DataArrow | T_StarStar | T_StarEq | T_DoubleSlashEq | T_DoubleSlash | T_Plus | T_Minus
  | T_Star | T_Amp | T_Pipe | T_Caret | T_Eq | T_Lt | T_Gt | T_LParen | T_RParen | T_LBracket
  | T_RBracket | T_Bang | T_LBrace | T_RBrace | T_Comma | T_Colon | T_ColonEq | T_ColonColon
  | T_Dot | T_DotDot | T_Backtick | T_Semi | T_Backslash | T_At | T_Int i64 | T_String utext
  | T_Ident utext

definition KEYWORDS :: "(utext \<times> Token) list" where
  "KEYWORDS =
    [(lit ''True'', T_True), (lit ''False'', T_False), (lit ''where'', T_Where),
     (lit ''and'', T_And), (lit ''or'', T_Or), (lit ''not'', T_Not), (lit ''if'', T_If),
     (lit ''elif'', T_Elif), (lit ''else'', T_Else), (lit ''for'', T_For), (lit ''in'', T_In),
     (lit ''def'', T_Def), (lit ''return'', T_Return), (lit ''yield'', T_Yield),
     (lit ''pass'', T_Pass), (lit ''with'', T_With), (lit ''match'', T_Match),
     (lit ''case'', T_Case), (lit ''forall'', T_Forall), (lit ''requires'', T_Requires),
     (lit ''type'', T_Type), (lit ''impl'', T_Impl), (lit ''instance'', T_Instance),
     (lit ''trait'', T_Trait), (lit ''import'', T_Import), (lit ''use'', T_Use),
     (lit ''as'', T_As), (lit ''pub'', T_Pub), (lit ''run'', T_Run), (lit ''param'', T_Param),
     (lit ''const'', T_Const), (lit ''this'', T_This)]"

datatype HighlightClass =
    C_Comment | C_Todo | C_String | C_Escape | C_Integer | C_Boolean | C_KeywordControl
  | C_KeywordOther | C_FunctionName | C_Builtin | C_Type | C_Identifier | C_VariantTag
  | C_Decorator | C_Lambda | C_Mutation | C_Feed | C_Define | C_Operator | C_Punctuation
  | C_Bracket

definition HighlightClass_ALL :: "HighlightClass list" where
  "HighlightClass_ALL =
    [C_Comment, C_Todo, C_String, C_Escape, C_Integer, C_Boolean, C_KeywordControl,
     C_KeywordOther, C_FunctionName, C_Builtin, C_Type, C_Identifier, C_VariantTag,
     C_Decorator, C_Lambda, C_Mutation, C_Feed, C_Define, C_Operator, C_Punctuation, C_Bracket]"

primrec HighlightClass_name :: "HighlightClass \<Rightarrow> utext" where
  "HighlightClass_name C_Comment = lit ''comment''"
| "HighlightClass_name C_Todo = lit ''todo''"
| "HighlightClass_name C_String = lit ''string''"
| "HighlightClass_name C_Escape = lit ''escape''"
| "HighlightClass_name C_Integer = lit ''integer''"
| "HighlightClass_name C_Boolean = lit ''boolean''"
| "HighlightClass_name C_KeywordControl = lit ''keyword-control''"
| "HighlightClass_name C_KeywordOther = lit ''keyword-other''"
| "HighlightClass_name C_FunctionName = lit ''function-name''"
| "HighlightClass_name C_Builtin = lit ''builtin''"
| "HighlightClass_name C_Type = lit ''type''"
| "HighlightClass_name C_Identifier = lit ''identifier''"
| "HighlightClass_name C_VariantTag = lit ''variant-tag''"
| "HighlightClass_name C_Decorator = lit ''decorator''"
| "HighlightClass_name C_Lambda = lit ''lambda''"
| "HighlightClass_name C_Mutation = lit ''mutation''"
| "HighlightClass_name C_Feed = lit ''feed''"
| "HighlightClass_name C_Define = lit ''define''"
| "HighlightClass_name C_Operator = lit ''operator''"
| "HighlightClass_name C_Punctuation = lit ''punctuation''"
| "HighlightClass_name C_Bracket = lit ''bracket''"

text \<open>
  \<open>is_type_name\<close> of \<open>chl-parser/src/ast.rs\<close>. \<open>char::is_uppercase\<close> decides an ASCII
  character by its range and any other by the Unicode table, the parameter \<open>upper\<close>.
\<close>

definition is_uppercase :: "(uchar \<Rightarrow> bool) \<Rightarrow> uchar \<Rightarrow> bool" where
  "is_uppercase upper c = (if c < 128 then 65 \<le> c \<and> c \<le> 90 else upper c)"

definition is_type_name :: "(uchar \<Rightarrow> bool) \<Rightarrow> utext \<Rightarrow> bool" where
  "is_type_name upper name = (case name of [] \<Rightarrow> False | c # _ \<Rightarrow> is_uppercase upper c)"

primrec highlight_class :: "(uchar \<Rightarrow> bool) \<Rightarrow> Token \<Rightarrow> HighlightClass option" where
  "highlight_class upper T_Newline = None"
| "highlight_class upper T_Indent = None"
| "highlight_class upper T_Dedent = None"
| "highlight_class upper T_BlockValueIndent = None"
| "highlight_class upper T_BlockValueDedent = None"
| "highlight_class upper T_Error = None"
| "highlight_class upper T_True = Some C_Boolean"
| "highlight_class upper T_False = Some C_Boolean"
| "highlight_class upper T_Where = Some C_KeywordOther"
| "highlight_class upper T_And = Some C_KeywordOther"
| "highlight_class upper T_Or = Some C_KeywordOther"
| "highlight_class upper T_Not = Some C_KeywordOther"
| "highlight_class upper T_If = Some C_KeywordControl"
| "highlight_class upper T_Elif = Some C_KeywordControl"
| "highlight_class upper T_Else = Some C_KeywordControl"
| "highlight_class upper T_For = Some C_KeywordControl"
| "highlight_class upper T_In = Some C_KeywordControl"
| "highlight_class upper T_Def = Some C_KeywordOther"
| "highlight_class upper T_Return = Some C_KeywordControl"
| "highlight_class upper T_Yield = Some C_KeywordControl"
| "highlight_class upper T_Pass = Some C_KeywordControl"
| "highlight_class upper T_With = Some C_KeywordControl"
| "highlight_class upper T_Match = Some C_KeywordControl"
| "highlight_class upper T_Case = Some C_KeywordControl"
| "highlight_class upper T_Forall = Some C_KeywordOther"
| "highlight_class upper T_Requires = Some C_KeywordOther"
| "highlight_class upper T_Type = Some C_KeywordOther"
| "highlight_class upper T_Impl = Some C_KeywordOther"
| "highlight_class upper T_Instance = Some C_KeywordOther"
| "highlight_class upper T_Trait = Some C_KeywordOther"
| "highlight_class upper T_Import = Some C_KeywordOther"
| "highlight_class upper T_Use = Some C_KeywordOther"
| "highlight_class upper T_As = Some C_KeywordOther"
| "highlight_class upper T_Pub = Some C_KeywordOther"
| "highlight_class upper T_Run = Some C_KeywordOther"
| "highlight_class upper T_Param = Some C_KeywordOther"
| "highlight_class upper T_Const = Some C_KeywordOther"
| "highlight_class upper T_This = Some C_KeywordOther"
| "highlight_class upper T_LShiftEq = Some C_Define"
| "highlight_class upper T_LShift = Some C_Feed"
| "highlight_class upper T_EqEq = Some C_Operator"
| "highlight_class upper T_NotEq = Some C_Operator"
| "highlight_class upper T_LtE = Some C_Operator"
| "highlight_class upper T_LtColon = Some C_Operator"
| "highlight_class upper T_GtE = Some C_Operator"
| "highlight_class upper T_PlusPlus = Some C_Operator"
| "highlight_class upper T_PlusEq = Some C_Operator"
| "highlight_class upper T_CaretPlus = Some C_Operator"
| "highlight_class upper T_CaretEq = Some C_Operator"
| "highlight_class upper T_MinusEq = Some C_Operator"
| "highlight_class upper T_Arrow = Some C_Operator"
| "highlight_class upper T_DoubleArrow = Some C_Operator"
| "highlight_class upper T_DataArrow = Some C_Operator"
| "highlight_class upper T_StarStar = Some C_Operator"
| "highlight_class upper T_StarEq = Some C_Operator"
| "highlight_class upper T_DoubleSlashEq = Some C_Operator"
| "highlight_class upper T_DoubleSlash = Some C_Operator"
| "highlight_class upper T_Plus = Some C_Operator"
| "highlight_class upper T_Minus = Some C_Operator"
| "highlight_class upper T_Star = Some C_Operator"
| "highlight_class upper T_Amp = Some C_Operator"
| "highlight_class upper T_Pipe = Some C_Operator"
| "highlight_class upper T_Caret = Some C_Operator"
| "highlight_class upper T_Eq = Some C_Operator"
| "highlight_class upper T_Lt = Some C_Operator"
| "highlight_class upper T_Gt = Some C_Operator"
| "highlight_class upper T_LParen = Some C_Bracket"
| "highlight_class upper T_RParen = Some C_Bracket"
| "highlight_class upper T_LBracket = Some C_Bracket"
| "highlight_class upper T_RBracket = Some C_Bracket"
| "highlight_class upper T_Bang = Some C_Operator"
| "highlight_class upper T_LBrace = Some C_Bracket"
| "highlight_class upper T_RBrace = Some C_Bracket"
| "highlight_class upper T_Comma = Some C_Punctuation"
| "highlight_class upper T_Colon = Some C_Punctuation"
| "highlight_class upper T_ColonEq = Some C_Mutation"
| "highlight_class upper T_ColonColon = Some C_Punctuation"
| "highlight_class upper T_Dot = Some C_Punctuation"
| "highlight_class upper T_DotDot = Some C_Punctuation"
| "highlight_class upper T_Backtick = Some C_VariantTag"
| "highlight_class upper T_Semi = Some C_Punctuation"
| "highlight_class upper T_Backslash = Some C_Lambda"
| "highlight_class upper T_At = Some C_Decorator"
| "highlight_class upper (T_Int _) = Some C_Integer"
| "highlight_class upper (T_String _) = Some C_String"
| "highlight_class upper (T_Ident name) =
     (if from_name name \<noteq> None then Some C_Builtin
      else if is_type_name upper name then Some C_Type
      else Some C_Identifier)"

primrec Token_display :: "Token \<Rightarrow> utext" where
  "Token_display T_Newline = lit ''newline''"
| "Token_display T_Indent = lit ''indent''"
| "Token_display T_Dedent = lit ''dedent''"
| "Token_display T_BlockValueIndent = lit ''indent''"
| "Token_display T_BlockValueDedent = lit ''dedent''"
| "Token_display T_Error = lit ''unrecognized characters''"
| "Token_display T_True = lit ''True''"
| "Token_display T_False = lit ''False''"
| "Token_display T_Where = lit ''where''"
| "Token_display T_And = lit ''and''"
| "Token_display T_Or = lit ''or''"
| "Token_display T_Not = lit ''not''"
| "Token_display T_If = lit ''if''"
| "Token_display T_Elif = lit ''elif''"
| "Token_display T_Else = lit ''else''"
| "Token_display T_For = lit ''for''"
| "Token_display T_In = lit ''in''"
| "Token_display T_Def = lit ''def''"
| "Token_display T_Return = lit ''return''"
| "Token_display T_Yield = lit ''yield''"
| "Token_display T_Pass = lit ''pass''"
| "Token_display T_With = lit ''with''"
| "Token_display T_Match = lit ''match''"
| "Token_display T_Case = lit ''case''"
| "Token_display T_Forall = lit ''forall''"
| "Token_display T_Requires = lit ''requires''"
| "Token_display T_Type = lit ''type''"
| "Token_display T_Impl = lit ''impl''"
| "Token_display T_Instance = lit ''instance''"
| "Token_display T_Trait = lit ''trait''"
| "Token_display T_Import = lit ''import''"
| "Token_display T_Use = lit ''use''"
| "Token_display T_As = lit ''as''"
| "Token_display T_Pub = lit ''pub''"
| "Token_display T_Run = lit ''run''"
| "Token_display T_Param = lit ''param''"
| "Token_display T_Const = lit ''const''"
| "Token_display T_This = lit ''this''"
| "Token_display T_LShiftEq = lit ''<<=''"
| "Token_display T_LShift = lit ''<<''"
| "Token_display T_EqEq = lit ''==''"
| "Token_display T_NotEq = lit ''!=''"
| "Token_display T_LtE = lit ''<=''"
| "Token_display T_LtColon = lit ''<:''"
| "Token_display T_GtE = lit ''>=''"
| "Token_display T_PlusPlus = lit ''++''"
| "Token_display T_PlusEq = lit ''+=''"
| "Token_display T_CaretPlus = lit ''^+''"
| "Token_display T_CaretEq = lit ''^=''"
| "Token_display T_MinusEq = lit ''-=''"
| "Token_display T_Arrow = lit ''->''"
| "Token_display T_DoubleArrow = lit ''=>''"
| "Token_display T_DataArrow = lit ''|=>''"
| "Token_display T_StarStar = lit ''**''"
| "Token_display T_StarEq = lit ''*=''"
| "Token_display T_DoubleSlashEq = lit ''//=''"
| "Token_display T_DoubleSlash = lit ''//''"
| "Token_display T_Plus = lit ''+''"
| "Token_display T_Minus = lit ''-''"
| "Token_display T_Star = lit ''*''"
| "Token_display T_Amp = lit ''&''"
| "Token_display T_Pipe = lit ''|''"
| "Token_display T_Caret = lit ''^''"
| "Token_display T_Eq = lit ''=''"
| "Token_display T_Lt = lit ''<''"
| "Token_display T_Gt = lit ''>''"
| "Token_display T_LParen = lit ''(''"
| "Token_display T_RParen = lit '')''"
| "Token_display T_LBracket = lit ''[''"
| "Token_display T_RBracket = lit '']''"
| "Token_display T_Bang = lit ''!''"
| "Token_display T_LBrace = lit ''{''"
| "Token_display T_RBrace = lit ''}''"
| "Token_display T_Comma = lit '',''"
| "Token_display T_Colon = lit '':''"
| "Token_display T_ColonEq = lit '':=''"
| "Token_display T_ColonColon = lit ''::''"
| "Token_display T_Dot = lit ''.''"
| "Token_display T_DotDot = lit ''..''"
| "Token_display T_Backtick = [96]"
| "Token_display T_Semi = lit '';''"
| "Token_display T_Backslash = [92]"
| "Token_display T_At = lit ''@''"
| "Token_display (T_Int _) = lit ''integer literal''"
| "Token_display (T_String _) = lit ''string literal''"
| "Token_display (T_Ident _) = lit ''identifier''"

subsection \<open>Brackets and errors\<close>

datatype Bracket = Paren | Square | Brace

definition opened_by :: "Token \<Rightarrow> Bracket option" where
  "opened_by tok =
     (if tok = T_LParen then Some Paren
      else if tok = T_LBracket then Some Square
      else if tok = T_LBrace then Some Brace
      else None)"

definition closed_by :: "Token \<Rightarrow> Bracket option" where
  "closed_by tok =
     (if tok = T_RParen then Some Paren
      else if tok = T_RBracket then Some Square
      else if tok = T_RBrace then Some Brace
      else None)"

fun close_token :: "Bracket \<Rightarrow> Token" where
  "close_token Paren = T_RParen"
| "close_token Square = T_RBracket"
| "close_token Brace = T_RBrace"

fun open_char :: "Bracket \<Rightarrow> uchar" where
  "open_char Paren = 40"
| "open_char Square = 91"
| "open_char Brace = 123"

fun close_char :: "Bracket \<Rightarrow> uchar" where
  "close_char Paren = 41"
| "close_char Square = 93"
| "close_char Brace = 125"

datatype LexError =
    InvalidToken Span
  | UnterminatedString Span
  | DetachedBacktick Span
  | UnmatchedClose Span
  | MismatchedClose (mc_span: Span) (mc_close: Bracket) (mc_open: Span) (mc_opener: Bracket)
  | UnclosedBracket Span
  | InconsistentIndent Span

fun LexError_display :: "LexError \<Rightarrow> utext" where
  "LexError_display (InvalidToken _) = lit ''unrecognized token''"
| "LexError_display (UnterminatedString _) = lit ''string literal has no closing quote on its line''"
| "LexError_display (DetachedBacktick _) = lit ''backtick is not immediately followed by a tag name''"
| "LexError_display (UnmatchedClose _) = lit ''closing bracket with no opening bracket''"
| "LexError_display (UnclosedBracket _) = lit ''bracket is never closed''"
| "LexError_display (InconsistentIndent _) = lit ''indentation does not match any enclosing level''"
| "LexError_display (MismatchedClose _ close _ opener) =
     [96, close_char close, 96] @ lit '' does not match '' @ [96, open_char opener, 96]"

fun error_span :: "LexError \<Rightarrow> Span" where
  "error_span (InvalidToken s) = s"
| "error_span (UnterminatedString s) = s"
| "error_span (DetachedBacktick s) = s"
| "error_span (UnmatchedClose s) = s"
| "error_span (UnclosedBracket s) = s"
| "error_span (InconsistentIndent s) = s"
| "error_span (MismatchedClose s _ _ _) = s"

definition related :: "LexError \<Rightarrow> (Span \<times> utext) option" where
  "related e =
     (case e of
        MismatchedClose _ _ opn _ \<Rightarrow> Some (opn, lit ''this bracket is never closed'')
      | _ \<Rightarrow> None)"

subsection \<open>Layout levels\<close>

datatype Level = Fixed nat | Pending nat | Pinned nat

fun floor_of :: "Level \<Rightarrow> nat" where
  "floor_of (Fixed c) = c"
| "floor_of (Pinned c) = c"
| "floor_of (Pending m) = m"

fun closer :: "Level \<Rightarrow> Token" where
  "closer (Fixed _) = T_Dedent"
| "closer (Pending _) = T_BlockValueDedent"
| "closer (Pinned _) = T_BlockValueDedent"

fun strands :: "Level \<Rightarrow> nat \<Rightarrow> bool" where
  "strands (Fixed c) indent = (c < indent)"
| "strands (Pinned c) indent = (c < indent)"
| "strands (Pending _) indent = False"

fun closes_at :: "Level \<Rightarrow> nat \<Rightarrow> bool" where
  "closes_at (Fixed c) indent = (c > indent)"
| "closes_at (Pinned c) indent = (c > indent)"
| "closes_at (Pending m) indent = (m \<ge> indent)"

definition opens_block_at_line_start :: "Token \<Rightarrow> bool" where
  "opens_block_at_line_start tok \<longleftrightarrow>
     tok \<in> {T_If, T_Elif, T_Else, T_For, T_Def, T_Type, T_Impl, T_Instance, T_Trait, T_With,
            T_Match, T_Case}"

end
