(* ===== verification/Layout_Pass.thy ===== *)
theory Layout_Pass
  imports Tokens
begin

section \<open>The layout pass\<close>

text \<open>
  \<open>Layout\<close> of \<open>chl-parser/src/lexer.rs\<close>: one run of the off-side rule over the raw tokens. The
  record has the fields of the struct; the vectors keep the source's order, so the top of a stack
  is the last element. Each method is one definition that takes the state and returns it
  updated, or a panic. Slice membership by \<open>binary_search\<close> on an ascending slice is list
  membership.
\<close>

subsection \<open>State\<close>

record OpenBracket =
  ob_kind :: Bracket
  ob_span :: Span
  ob_index :: nat
  ob_resync :: bool
  ob_statement_ended :: bool
  ob_stray :: "(Bracket \<times> Span) option"

definition closes_early :: "OpenBracket \<Rightarrow> bool" where
  "closes_early b \<longleftrightarrow> ob_resync b \<or> ob_stray b \<noteq> None"

record Layout =
  lo_file :: FileId
  lo_source :: utext
  lo_out :: "(Token \<times> Span) list"
  lo_errors :: "LexError list"
  lo_indent_stack :: "Level list"
  lo_brackets :: "OpenBracket list"
  lo_resync :: "nat list"
  lo_resync_next :: "nat list"
  lo_at_line_start :: bool
  lo_dropped_newline :: "Span option"
  lo_line_head :: "nat \<times> nat"
  lo_block_value_indents :: "(nat \<times> nat) list"
  lo_line_opens_at_first_token :: bool
  lo_head_next :: bool
  lo_head_is_line_first :: bool
  lo_line_short :: bool
  lo_short_header :: "nat option"
  lo_line_indent :: nat

definition push_out :: "Token \<Rightarrow> Span \<Rightarrow> Layout \<Rightarrow> Layout" where
  "push_out tok span st = st\<lparr>lo_out := lo_out st @ [(tok, span)]\<rparr>"

definition push_error :: "LexError \<Rightarrow> Layout \<Rightarrow> Layout" where
  "push_error e st = st\<lparr>lo_errors := lo_errors st @ [e]\<rparr>"

subsection \<open>Methods\<close>

text \<open>\<open>str::rfind\<close> and \<open>str::find\<close> for one character: byte offsets.\<close>

definition rfind :: "uchar \<Rightarrow> utext \<Rightarrow> nat option" where
  "rfind c t =
     (let hits = filter (\<lambda>(i, d). d = c) (char_indices t) in
      if hits = [] then None else Some (fst (last hits)))"

definition find_char :: "uchar \<Rightarrow> utext \<Rightarrow> nat option" where
  "find_char c t = map_option fst (find (\<lambda>(i, d). d = c) (char_indices t))"

definition column :: "Layout \<Rightarrow> Span \<Rightarrow> (nat \<times> nat) res" where
  "column st span =
     (case str_slice (lo_source st) 0 (sp_start span) of
        Inl p \<Rightarrow> Inl p
      | Inr before \<Rightarrow>
          let line_start = (case rfind 10 before of Some i \<Rightarrow> i + 1 | None \<Rightarrow> 0) in
          if sp_start span < line_start then Inl Overflow
          else Inr (line_start, sp_start span - line_start))"

definition statement_head :: "Token \<Rightarrow> Span \<Rightarrow> Layout \<Rightarrow> Layout" where
  "statement_head tok span st =
     (let st = st\<lparr>lo_line_head := (length (lo_out st), sp_start span)\<rparr>;
          st = (if lo_head_is_line_first st
                then st\<lparr>lo_line_opens_at_first_token := opens_block_at_line_start tok\<rparr> else st) in
      st\<lparr>lo_head_next := (tok = T_Pub \<or> tok = T_Const)\<rparr>)"

text \<open>The loop of \<open>line_start\<close> that closes the levels a line leaves.\<close>

definition is_fixed :: "Level \<Rightarrow> bool" where
  "is_fixed l = (case l of Fixed _ \<Rightarrow> True | _ \<Rightarrow> False)"

definition leaves_top :: "nat \<Rightarrow> Level list \<Rightarrow> bool" where
  "leaves_top indent stk \<longleftrightarrow>
     2 \<le> length stk \<and> closes_at (last stk) indent \<and>
     \<not> (is_fixed (last stk) \<and> strands (last (butlast stk)) indent)"

function close_levels :: "nat \<Rightarrow> Span \<Rightarrow> Layout \<Rightarrow> Layout" where
  "close_levels indent at st =
     (if leaves_top indent (lo_indent_stack st)
      then close_levels indent at
             (push_out (closer (last (lo_indent_stack st))) at
               (st\<lparr>lo_indent_stack := butlast (lo_indent_stack st)\<rparr>))
      else st)"
  by pat_completeness auto
termination
  by (relation "measure (\<lambda>(_, _, st). length (lo_indent_stack st))")
    (auto simp: push_out_def leaves_top_def)

declare close_levels.simps [simp del]

definition settle_level :: "nat \<Rightarrow> Span \<Rightarrow> Layout \<Rightarrow> Layout res" where
  "settle_level indent span st =
     (if lo_indent_stack st = [] then Inl ExpectFailed
      else case last (lo_indent_stack st) of
        Pending m \<Rightarrow> Inr (st\<lparr>lo_indent_stack := butlast (lo_indent_stack st) @ [Pinned indent]\<rparr>)
      | Fixed c \<Rightarrow>
          Inr (if c = indent then st
               else push_error (InconsistentIndent span) (st\<lparr>lo_line_short := c > indent\<rparr>))
      | Pinned c \<Rightarrow>
          Inr (if c = indent then st
               else push_error (InconsistentIndent span) (st\<lparr>lo_line_short := c > indent\<rparr>)))"

text \<open>The part of \<open>line_start\<close> that opens or closes levels for a line at column \<open>indent\<close>.\<close>

definition line_levels :: "nat \<Rightarrow> nat \<Rightarrow> Span \<Rightarrow> Layout \<Rightarrow> Layout res" where
  "line_levels start indent span st =
     (if lo_indent_stack st = [] then Inl ExpectFailed
      else
        let level_floor = floor_of (last (lo_indent_stack st));
            current = (case lo_short_header st of
                Some c \<Rightarrow> min c level_floor | None \<Rightarrow> level_floor);
            st = st\<lparr>lo_short_header := None\<rparr> in
        if indent > current
        then Inr (push_out T_Indent (Span_new (lo_file st) start (sp_start span))
               (st\<lparr>lo_indent_stack := lo_indent_stack st @ [Fixed indent]\<rparr>))
        else settle_level indent span
               (close_levels indent
                 (Span_new (lo_file st) (sp_start span) (sp_start span)) st))"

definition line_start :: "Token \<Rightarrow> Span \<Rightarrow> Layout \<Rightarrow> Layout res" where
  "line_start tok span st =
     (case column st span of
        Inl p \<Rightarrow> Inl p
      | Inr (start, indent) \<Rightarrow>
          (case line_levels start indent span
                  (st\<lparr>lo_line_indent := indent, lo_line_short := False\<rparr>) of
             Inl p \<Rightarrow> Inl p
           | Inr st \<Rightarrow> Inr (statement_head tok span (st\<lparr>lo_head_is_line_first := True\<rparr>))))"

definition end_line :: "Span \<Rightarrow> Layout \<Rightarrow> Layout" where
  "end_line span st =
     (let opens_block = (lo_out st \<noteq> [] \<and> fst (last (lo_out st)) = T_Colon);
          st = (if opens_block \<and> \<not> lo_line_opens_at_first_token st
                then st\<lparr>lo_indent_stack := lo_indent_stack st @ [Pending (lo_line_indent st)],
                        lo_block_value_indents := lo_block_value_indents st @ [lo_line_head st]\<rparr>
                else st);
          st = (if opens_block \<and> lo_line_short st
                then st\<lparr>lo_short_header := Some (lo_line_indent st)\<rparr> else st) in
      (push_out T_Newline span st)\<lparr>lo_at_line_start := True\<rparr>)"

definition never_closed :: "OpenBracket \<Rightarrow> Layout \<Rightarrow> Layout" where
  "never_closed b st =
     push_error
       (case ob_stray b of
          Some (close, span) \<Rightarrow> MismatchedClose span close (ob_span b) (ob_kind b)
        | None \<Rightarrow> UnclosedBracket (ob_span b)) st"

text \<open>A zero-width closer for \<open>b\<close> and its error, as the three closing loops push them.\<close>

definition close_missing :: "Span \<Rightarrow> OpenBracket \<Rightarrow> Layout \<Rightarrow> Layout" where
  "close_missing at b st = never_closed b (push_out (close_token (ob_kind b)) at st)"

text \<open>The loop that flags the open brackets from the innermost, on the reversed stack.\<close>

fun mark_ended :: "OpenBracket list \<Rightarrow> OpenBracket list" where
  "mark_ended [] = []"
| "mark_ended (b # bs) =
     (if ob_statement_ended b then b # bs else b\<lparr>ob_statement_ended := True\<rparr> # mark_ended bs)"

function close_early :: "Span \<Rightarrow> Layout \<Rightarrow> Layout" where
  "close_early at st =
     (if lo_brackets st \<noteq> [] \<and> closes_early (last (lo_brackets st))
      then close_early at
             (close_missing at (last (lo_brackets st))
               (st\<lparr>lo_brackets := butlast (lo_brackets st)\<rparr>))
      else st)"
  by pat_completeness auto
termination
  by (relation "measure (\<lambda>(_, st). length (lo_brackets st))")
    (auto simp: close_missing_def never_closed_def push_error_def push_out_def)

declare close_early.simps [simp del]

definition physical_line :: "Token \<Rightarrow> Span \<Rightarrow> Span \<Rightarrow> Layout \<Rightarrow> Layout res" where
  "physical_line tok span newline st =
     (case column st span of
        Inl p \<Rightarrow> Inl p
      | Inr (_, indent) \<Rightarrow>
          if indent > lo_line_indent st \<or> closed_by tok \<noteq> None then Inr st
          else
            let st = st\<lparr>lo_brackets := rev (mark_ended (rev (lo_brackets st)))\<rparr>;
                st = close_early (Span_new (lo_file st) (sp_start newline) (sp_start newline)) st in
            Inr (if lo_brackets st = [] then end_line newline st else st))"

text \<open>The innermost of the brackets a close bracket passes over meets it.\<close>

definition meet_stray :: "Bracket \<Rightarrow> Span \<Rightarrow> OpenBracket list \<Rightarrow> OpenBracket list" where
  "meet_stray kind span inner =
     (case inner of
        [] \<Rightarrow> []
      | b # bs \<Rightarrow>
          b\<lparr>ob_stray := Some (case ob_stray b of Some s \<Rightarrow> s | None \<Rightarrow> (kind, span))\<rparr> # bs)"

definition close_bracket :: "Bracket \<Rightarrow> Span \<Rightarrow> Layout \<Rightarrow> Layout" where
  "close_bracket kind span st =
     (case rposition (\<lambda>b. ob_kind b = kind) (lo_brackets st) of
        None \<Rightarrow>
          if lo_brackets st \<noteq> [] \<and> ob_stray (last (lo_brackets st)) = None
          then st\<lparr>lo_brackets := butlast (lo_brackets st) @
                    [(last (lo_brackets st))\<lparr>ob_stray := Some (kind, span)\<rparr>]\<rparr>
          else push_error (UnmatchedClose span) st
      | Some i \<Rightarrow>
          let at = Span_new (lo_file st) (sp_start span) (sp_start span);
              inner = meet_stray kind span (rev (drop (i + 1) (lo_brackets st)));
              matched = lo_brackets st ! i;
              st = fold (close_missing at) inner (st\<lparr>lo_brackets := take i (lo_brackets st)\<rparr>);
              st = (if inner \<noteq> [] \<and> ob_statement_ended matched
                    then st\<lparr>lo_resync_next := lo_resync_next st @ [ob_index matched]\<rparr> else st);
              st = (case ob_stray matched of
                  Some (_, stray) \<Rightarrow> push_error (UnmatchedClose stray) st
                | None \<Rightarrow> st) in
          push_out (close_token kind) span st)"

text \<open>
  \<open>Layout::token\<close> in its three parts: the line that starts inside brackets, the line or statement
  that starts here, and the token itself.
\<close>

definition resume_line :: "Token \<Rightarrow> Span \<Rightarrow> Layout \<Rightarrow> Layout res" where
  "resume_line tok span st =
     (if tok = T_Newline then Inr st
      else case lo_dropped_newline st of
        Some newline \<Rightarrow> physical_line tok span newline (st\<lparr>lo_dropped_newline := None\<rparr>)
      | None \<Rightarrow> Inr st)"

definition begin_statement :: "Token \<Rightarrow> Span \<Rightarrow> Layout \<Rightarrow> Layout res" where
  "begin_statement tok span st =
     (if lo_at_line_start st \<and> lo_brackets st = [] then line_start tok span st
      else if lo_head_next st \<and> tok \<noteq> T_Newline then Inr (statement_head tok span st)
      else Inr st)"

definition place_token :: "nat \<Rightarrow> Token \<Rightarrow> Span \<Rightarrow> Layout \<Rightarrow> Layout" where
  "place_token index tok span st =
     (case opened_by tok of
        Some kind \<Rightarrow>
          push_out tok span
            (st\<lparr>lo_brackets := lo_brackets st @
                 [\<lparr>ob_kind = kind, ob_span = span, ob_index = index,
                   ob_resync = (index \<in> set (lo_resync st)),
                   ob_statement_ended = False, ob_stray = None\<rparr>]\<rparr>)
      | None \<Rightarrow>
          (case closed_by tok of
             Some kind \<Rightarrow> close_bracket kind span st
           | None \<Rightarrow>
               if tok = T_Newline then
                 (if lo_brackets st = [] then end_line span st
                  else st\<lparr>lo_dropped_newline :=
                         Some (case lo_dropped_newline st of Some s \<Rightarrow> s | None \<Rightarrow> span)\<rparr>)
               else
                 let st = push_out tok span st in
                 if tok = T_Semi \<and> lo_brackets st = []
                 then st\<lparr>lo_head_next := True, lo_head_is_line_first := False\<rparr>
                 else st))"

definition token :: "nat \<Rightarrow> Token \<Rightarrow> Span \<Rightarrow> Layout \<Rightarrow> Layout res" where
  "token index tok span st =
     (if lo_at_line_start st \<and> tok = T_Newline then Inr st
      else
        case resume_line tok span st of
          Inl p \<Rightarrow> Inl p
        | Inr st \<Rightarrow>
            (case begin_statement tok span st of
               Inl p \<Rightarrow> Inl p
             | Inr st \<Rightarrow> Inr (place_token index tok span (st\<lparr>lo_at_line_start := False\<rparr>))))"

text \<open>The loops of \<open>finish\<close>: the brackets still open, the levels still open, the openers.\<close>

function close_open :: "Span \<Rightarrow> Layout \<Rightarrow> Layout" where
  "close_open at st =
     (if lo_brackets st \<noteq> []
      then
        let b = last (lo_brackets st);
            st = push_out (close_token (ob_kind b)) at (st\<lparr>lo_brackets := butlast (lo_brackets st)\<rparr>);
            st = st\<lparr>lo_resync_next := lo_resync_next st @ [ob_index b]\<rparr> in
        close_open at (never_closed b st)
      else st)"
  by pat_completeness auto
termination
  by (relation "measure (\<lambda>(_, st). length (lo_brackets st))")
    (auto simp: never_closed_def push_error_def push_out_def)

declare close_open.simps [simp del]

function dedent_all :: "Span \<Rightarrow> Layout \<Rightarrow> Layout" where
  "dedent_all at st =
     (if length (lo_indent_stack st) > 1
      then dedent_all at
             (push_out (closer (last (lo_indent_stack st))) at
               (st\<lparr>lo_indent_stack := butlast (lo_indent_stack st)\<rparr>))
      else st)"
  by pat_completeness auto
termination
  by (relation "measure (\<lambda>(_, st). length (lo_indent_stack st))") (auto simp: push_out_def)

declare dedent_all.simps [simp del]

fun insert_openers ::
  "FileId \<Rightarrow> nat \<Rightarrow> (Token \<times> Span) list \<Rightarrow> (nat \<times> nat) list \<Rightarrow>
     (Token \<times> Span) list \<times> (nat \<times> nat) list" where
  "insert_openers file i [] openers = ([], openers)"
| "insert_openers file i (tok # toks) openers =
     (let here = takeWhile (\<lambda>(before, _). before = i) openers;
          (out, rest) = insert_openers file (Suc i) toks
             (dropWhile (\<lambda>(before, _). before = i) openers) in
      (map (\<lambda>(_, at). (T_BlockValueIndent, Span_new file at at)) here @ tok # out, rest))"

definition finish :: "bool \<Rightarrow> Layout \<Rightarrow> Layout res" where
  "finish dbg st =
     (let end_span = Span_new (lo_file st) (str_len (lo_source st)) (str_len (lo_source st));
          st = close_open end_span st;
          st = (if lo_out st \<noteq> [] \<and> fst (last (lo_out st)) = T_Newline then st
                else push_out T_Newline end_span st);
          st = dedent_all end_span st in
      if lo_block_value_indents st \<noteq> [] then
        (let (out, rest) = insert_openers (lo_file st) 0 (lo_out st) (lo_block_value_indents st) in
         if dbg \<and> rest \<noteq> [] then Inl AssertFailed else Inr (st\<lparr>lo_out := out\<rparr>))
      else Inr st)"

definition initial_layout :: "FileId \<Rightarrow> utext \<Rightarrow> nat list \<Rightarrow> Layout" where
  "initial_layout file src resync =
     \<lparr>lo_file = file, lo_source = src, lo_out = [], lo_errors = [],
      lo_indent_stack = [Fixed 0], lo_brackets = [], lo_resync = resync, lo_resync_next = [],
      lo_at_line_start = True, lo_dropped_newline = None, lo_line_head = (0, 0),
      lo_block_value_indents = [], lo_line_opens_at_first_token = False, lo_head_next = False,
      lo_head_is_line_first = False, lo_line_short = False, lo_short_header = None,
      lo_line_indent = 0\<rparr>"

fun run_tokens :: "nat \<Rightarrow> (Token \<times> Span) list \<Rightarrow> Layout \<Rightarrow> Layout res" where
  "run_tokens index [] st = Inr st"
| "run_tokens index ((tok, span) # toks) st =
     (case token index tok span st of
        Inl p \<Rightarrow> Inl p
      | Inr st \<Rightarrow> run_tokens (Suc index) toks st)"

definition Layout_run ::
  "bool \<Rightarrow> FileId \<Rightarrow> utext \<Rightarrow> (Token \<times> Span) list \<Rightarrow> nat list \<Rightarrow> Layout res" where
  "Layout_run dbg file src raw resync =
     (case run_tokens 0 raw (initial_layout file src resync) of
        Inl p \<Rightarrow> Inl p
      | Inr st \<Rightarrow> finish dbg st)"

end
