(* ===== verification/Layout_Nesting.thy ===== *)
theory Layout_Nesting
  imports Layout_Pass
begin

section \<open>Nesting of the layout pass's output\<close>

text \<open>
  The stack discipline the parser relies on: a checker \<open>nest\<close> over the token stream whose stack
  holds the open brackets and the open levels, closed forms of the loops of the pass, and the
  invariant that relates the checker's stack to the pass's own two stacks.
\<close>

subsection \<open>The checker\<close>

datatype Opener = OpenedBracket Bracket | OpenedIndent | OpenedBlockValue

definition inside_bracket :: "Opener list \<Rightarrow> bool" where
  "inside_bracket stk = (case stk of OpenedBracket _ # _ \<Rightarrow> True | _ \<Rightarrow> False)"

definition pop_opener :: "Opener \<Rightarrow> Opener list \<Rightarrow> Opener list option" where
  "pop_opener x stk = (case stk of y # ys \<Rightarrow> if x = y then Some ys else None | [] \<Rightarrow> None)"

definition nest_step :: "Token \<Rightarrow> Opener list \<Rightarrow> Opener list option" where
  "nest_step tok stk =
     (case opened_by tok of
        Some k \<Rightarrow> Some (OpenedBracket k # stk)
      | None \<Rightarrow>
          (case closed_by tok of
             Some k \<Rightarrow> pop_opener (OpenedBracket k) stk
           | None \<Rightarrow>
               if tok = T_Newline then (if inside_bracket stk then None else Some stk)
               else if tok = T_Indent then (if inside_bracket stk then None else Some (OpenedIndent # stk))
               else if tok = T_BlockValueIndent
                 then (if inside_bracket stk then None else Some (OpenedBlockValue # stk))
               else if tok = T_Dedent then pop_opener OpenedIndent stk
               else if tok = T_BlockValueDedent then pop_opener OpenedBlockValue stk
               else Some stk))"

fun nest :: "Token list \<Rightarrow> Opener list \<Rightarrow> Opener list option" where
  "nest [] stk = Some stk"
| "nest (tok # toks) stk =
     (case nest_step tok stk of None \<Rightarrow> None | Some stk' \<Rightarrow> nest toks stk')"

lemma nest_append:
  "nest (xs @ ys) stk = (case nest xs stk of None \<Rightarrow> None | Some stk' \<Rightarrow> nest ys stk')"
  by (induction xs arbitrary: stk) (auto split: option.splits)

definition layout_token :: "Token \<Rightarrow> bool" where
  "layout_token tok \<longleftrightarrow> tok \<in> {T_Indent, T_Dedent, T_BlockValueIndent, T_BlockValueDedent}"

definition in_line :: "Token \<Rightarrow> bool" where
  "in_line tok \<longleftrightarrow> tok \<noteq> T_Newline \<and> \<not> layout_token tok"

lemma opened_by_simps [simp]:
  "opened_by T_Newline = None" "opened_by T_Indent = None" "opened_by T_Dedent = None"
  "opened_by T_BlockValueIndent = None" "opened_by T_BlockValueDedent = None"
  "opened_by (close_token k) = None" "opened_by T_Colon = None" "opened_by T_Semi = None"
  by (simp_all add: opened_by_def) (cases k; simp)

lemma closed_by_simps [simp]:
  "closed_by T_Newline = None" "closed_by T_Indent = None" "closed_by T_Dedent = None"
  "closed_by T_BlockValueIndent = None" "closed_by T_BlockValueDedent = None"
  "closed_by (close_token k) = Some k" "closed_by T_Colon = None" "closed_by T_Semi = None"
  by (simp_all add: closed_by_def) (cases k; simp)

lemma opened_not_closed: "opened_by tok = Some k \<Longrightarrow> closed_by tok = None"
  by (auto simp: opened_by_def closed_by_def split: if_splits)

lemma closed_by_Some: "closed_by tok = Some k \<longleftrightarrow> tok = close_token k"
  by (cases k) (auto simp: closed_by_def)

lemma opened_by_in_line: "opened_by tok = Some k \<Longrightarrow> in_line tok \<and> tok \<noteq> T_Colon"
  by (auto simp: opened_by_def in_line_def layout_token_def split: if_splits)

lemma close_token_in_line [simp]: "in_line (close_token k)" "close_token k \<noteq> T_Colon"
  "close_token k \<noteq> T_Newline"
  by (cases k; simp add: in_line_def layout_token_def)+

lemma nest_step_simps [simp]:
  "nest_step T_Newline stk = (if inside_bracket stk then None else Some stk)"
  "nest_step T_Indent stk = (if inside_bracket stk then None else Some (OpenedIndent # stk))"
  "nest_step T_BlockValueIndent stk =
     (if inside_bracket stk then None else Some (OpenedBlockValue # stk))"
  "nest_step T_Dedent (OpenedIndent # stk) = Some stk"
  "nest_step T_BlockValueDedent (OpenedBlockValue # stk) = Some stk"
  "nest_step (close_token k) (OpenedBracket k # stk) = Some stk"
  by (simp_all add: nest_step_def pop_opener_def)

lemma nest_step_open: "opened_by tok = Some k \<Longrightarrow> nest_step tok stk = Some (OpenedBracket k # stk)"
  by (simp add: nest_step_def)

lemma nest_step_plain:
  "in_line tok \<Longrightarrow> opened_by tok = None \<Longrightarrow> closed_by tok = None \<Longrightarrow> nest_step tok stk = Some stk"
  by (auto simp: nest_step_def in_line_def layout_token_def)

subsection \<open>Stacks\<close>

definition level_opener :: "Level \<Rightarrow> Opener" where
  "level_opener l = (if is_fixed l then OpenedIndent else OpenedBlockValue)"

definition levels :: "Level list \<Rightarrow> Opener list" where
  "levels stk = map level_opener (rev (tl stk))"

definition bracket_openers :: "OpenBracket list \<Rightarrow> Opener list" where
  "bracket_openers bs = map (\<lambda>b. OpenedBracket (ob_kind b)) (rev bs)"

lemma nest_step_closer [simp]: "nest_step (closer l) (level_opener l # stk) = Some stk"
  by (cases l) (simp_all add: level_opener_def is_fixed_def)

lemma inside_bracket_levels [simp]: "\<not> inside_bracket (levels stk)"
  by (auto simp: levels_def inside_bracket_def level_opener_def split: list.splits Opener.splits if_splits)

lemma inside_bracket_simps [simp]:
  "\<not> inside_bracket []" "\<not> inside_bracket (OpenedIndent # stk)"
  "\<not> inside_bracket (OpenedBlockValue # stk)" "inside_bracket (OpenedBracket k # stk)"
  by (simp_all add: inside_bracket_def)

lemma nest_closers: "nest (map closer ls) (map level_opener ls @ stk) = Some stk"
  by (induction ls) auto

lemma nest_close_tokens:
  "nest (map close_token ks) (map OpenedBracket ks @ stk) = Some stk"
  by (induction ks) auto

lemma levels_snoc: "stk \<noteq> [] \<Longrightarrow> levels (stk @ [l]) = level_opener l # levels stk"
  by (cases stk) (simp_all add: levels_def)

lemma levels_append:
  "stk \<noteq> [] \<Longrightarrow> levels (stk @ ls) = map level_opener (rev ls) @ levels stk"
  by (cases stk) (simp_all add: levels_def rev_map)

lemma bracket_openers_simps [simp]:
  "bracket_openers [] = []"
  "bracket_openers [b] = [OpenedBracket (ob_kind b)]"
  "bracket_openers (bs @ cs) = bracket_openers cs @ bracket_openers bs"
  by (simp_all add: bracket_openers_def)

text \<open>Bracket-only segments do not see the levels below them.\<close>

lemma nest_change_base:
  assumes "list_all in_line toks" "\<not> inside_bracket base" "\<not> inside_bracket base'"
    and "nest toks (map OpenedBracket ks @ base) = Some stk"
  shows "\<exists>ks'. stk = map OpenedBracket ks' @ base \<and>
    nest toks (map OpenedBracket ks @ base') = Some (map OpenedBracket ks' @ base')"
  using assms(1,4)
proof (induction toks arbitrary: ks)
  case (Cons tok toks)
  have tok: "in_line tok" "list_all in_line toks" using Cons.prems(1) by auto
  consider (op) k where "opened_by tok = Some k" | (cl) k where "tok = close_token k"
    | (pl) "opened_by tok = None" "closed_by tok = None"
    using closed_by_Some by (metis option.exhaust)
  then show ?case
  proof cases
    case op
    with Cons.prems(2) have "nest toks (map OpenedBracket (k # ks) @ base) = Some stk"
      by (simp add: nest_step_open)
    from Cons.IH [OF tok(2) this] op show ?thesis by (simp add: nest_step_open)
  next
    case cl
    have "ks \<noteq> []"
    proof
      assume "ks = []"
      with cl Cons.prems(2) assms(2) show False
        by (auto simp: nest_step_def pop_opener_def inside_bracket_def
            split: option.splits list.splits if_splits)
    qed
    then obtain k' ks' where ks: "ks = k' # ks'" by (cases ks) auto
    with cl Cons.prems(2) have "k' = k"
      by (auto simp: nest_step_def pop_opener_def split: option.splits if_splits)
    with cl ks Cons.prems(2) Cons.IH [OF tok(2), of ks'] show ?thesis by simp
  next
    case pl
    with Cons.prems(2) Cons.IH [OF tok(2), of ks] show ?thesis
      by (simp add: nest_step_plain [OF tok(1)])
  qed
qed auto

subsection \<open>Closed forms of the loops\<close>

definition missing_error :: "OpenBracket \<Rightarrow> LexError" where
  "missing_error b =
     (case ob_stray b of
        Some (close, span) \<Rightarrow> MismatchedClose span close (ob_span b) (ob_kind b)
      | None \<Rightarrow> UnclosedBracket (ob_span b))"

definition missing_tokens :: "Span \<Rightarrow> OpenBracket list \<Rightarrow> (Token \<times> Span) list" where
  "missing_tokens at bs = map (\<lambda>b. (close_token (ob_kind b), at)) bs"

lemma map_fst_missing: "map fst (missing_tokens at bs) = map close_token (map ob_kind bs)"
  by (simp add: missing_tokens_def)

lemma fold_close_missing:
  "fold (close_missing at) bs st =
     st\<lparr>lo_out := lo_out st @ missing_tokens at bs, lo_errors := lo_errors st @ map missing_error bs\<rparr>"
  by (induction bs arbitrary: st)
    (simp_all add: close_missing_def never_closed_def push_error_def push_out_def
      missing_error_def missing_tokens_def)

lemma close_early_form:
  "close_early at st =
     st\<lparr>lo_brackets := rev (dropWhile closes_early (rev (lo_brackets st))),
        lo_out := lo_out st @ missing_tokens at (takeWhile closes_early (rev (lo_brackets st))),
        lo_errors := lo_errors st @
          map missing_error (takeWhile closes_early (rev (lo_brackets st)))\<rparr>"
proof (induction at st rule: close_early.induct)
  case (1 at st)
  show ?case
  proof (cases "lo_brackets st \<noteq> [] \<and> closes_early (last (lo_brackets st))")
    case True
    then obtain bs b where bs: "lo_brackets st = bs @ [b]" "closes_early b"
      by (metis append_butlast_last_id)
    from 1 [OF True] bs show ?thesis
      by (simp add: close_early.simps [of at st] close_missing_def never_closed_def push_error_def
          push_out_def missing_tokens_def missing_error_def)
  next
    case False
    then have "takeWhile closes_early (rev (lo_brackets st)) = [] \<and>
        dropWhile closes_early (rev (lo_brackets st)) = rev (lo_brackets st)"
      by (cases "lo_brackets st" rule: rev_cases) auto
    with False show ?thesis by (auto simp: close_early.simps [of at st] missing_tokens_def)
  qed
qed

lemma close_open_form:
  "close_open at st =
     st\<lparr>lo_brackets := [], lo_out := lo_out st @ missing_tokens at (rev (lo_brackets st)),
        lo_errors := lo_errors st @ map missing_error (rev (lo_brackets st)),
        lo_resync_next := lo_resync_next st @ map ob_index (rev (lo_brackets st))\<rparr>"
proof (induction at st rule: close_open.induct)
  case (1 at st)
  show ?case
  proof (cases "lo_brackets st = []")
    case True
    then show ?thesis by (simp add: close_open.simps [of at st] missing_tokens_def)
  next
    case False
    then obtain bs b where bs: "lo_brackets st = bs @ [b]" by (metis append_butlast_last_id)
    from 1 [OF False refl refl refl] bs show ?thesis
      by (simp add: close_open.simps [of at st] never_closed_def push_error_def push_out_def
          missing_tokens_def missing_error_def Let_def)
  qed
qed

definition closer_tokens :: "Span \<Rightarrow> Level list \<Rightarrow> (Token \<times> Span) list" where
  "closer_tokens at ls = map (\<lambda>l. (closer l, at)) ls"

lemma close_levels_form:
  assumes "lo_indent_stack st \<noteq> []"
  shows "\<exists>rest popped. lo_indent_stack st = rest @ popped \<and> rest \<noteq> [] \<and> \<not> leaves_top indent rest \<and>
    close_levels indent at st =
      st\<lparr>lo_indent_stack := rest, lo_out := lo_out st @ closer_tokens at (rev popped)\<rparr>"
  using assms
proof (induction indent at st rule: close_levels.induct)
  case (1 indent at st)
  show ?case
  proof (cases "leaves_top indent (lo_indent_stack st)")
    case False
    then show ?thesis using "1.prems"
      by (intro exI [of _ "lo_indent_stack st"] exI [of _ "[]"])
        (simp add: close_levels.simps [of indent at st] closer_tokens_def)
  next
    case True
    obtain ls l where ls: "lo_indent_stack st = ls @ [l]"
      using "1.prems" by (metis append_butlast_last_id)
    with True have "ls \<noteq> []" by (auto simp: leaves_top_def)
    from "1.IH" [OF True] this ls obtain rest popped where
      "ls = rest @ popped" "rest \<noteq> []" "\<not> leaves_top indent rest"
      "close_levels indent at (push_out (closer l) at (st\<lparr>lo_indent_stack := ls\<rparr>)) =
        st\<lparr>lo_indent_stack := rest,
           lo_out := (lo_out st @ [(closer l, at)]) @ closer_tokens at (rev popped)\<rparr>"
      by (auto simp: push_out_def)
    with True ls show ?thesis
      by (rule_tac x = rest in exI, rule_tac x = "popped @ [l]" in exI)
        (simp add: close_levels.simps [of indent at st] closer_tokens_def butlast_append)
  qed
qed

lemma dedent_all_form:
  assumes "lo_indent_stack st = l # ls"
  shows "dedent_all at st =
    st\<lparr>lo_indent_stack := [l], lo_out := lo_out st @ closer_tokens at (rev ls)\<rparr>"
  using assms
proof (induction ls arbitrary: st rule: rev_induct)
  case Nil
  then show ?case by (simp add: dedent_all.simps [of at st] closer_tokens_def)
next
  case (snoc k ls)
  let ?st = "push_out (closer k) at (st\<lparr>lo_indent_stack := l # ls\<rparr>)"
  have "dedent_all at st = dedent_all at ?st"
    using snoc.prems by (simp add: dedent_all.simps [of at st] butlast_append)
  with snoc.IH [of ?st] show ?case by (simp add: push_out_def closer_tokens_def)
qed

subsection \<open>Inserting the openers of block values\<close>

lemma insert_openers_Nil [simp]: "insert_openers file i toks [] = (toks, [])"
  by (induction toks arbitrary: i) auto

text \<open>
  Ascending openers that all go before a token of the list are all inserted, and later ones wait.
\<close>

definition ascending_within :: "nat \<Rightarrow> nat \<Rightarrow> (nat \<times> nat) list \<Rightarrow> bool" where
  "ascending_within i n ops \<longleftrightarrow>
     sorted (map fst ops) \<and> (\<forall>op \<in> set ops. i \<le> fst op \<and> fst op < n)"

lemma ascending_dropWhile:
  assumes "ascending_within i n ops"
  shows "ascending_within (Suc i) n (dropWhile (\<lambda>(before, _). before = i) ops)"
  using assms
proof (induction ops)
  case (Cons op ops)
  then have IH: "ascending_within (Suc i) n (dropWhile (\<lambda>(before, _). before = i) ops)"
    by (auto simp: ascending_within_def)
  show ?case
  proof (cases "fst op = i")
    case True
    then show ?thesis using IH by (auto split: prod.splits)
  next
    case False
    with Cons.prems have "i < fst op" "\<And>p. p \<in> set ops \<Longrightarrow> fst op \<le> fst p"
      by (auto simp: ascending_within_def)
    with Cons.prems False show ?thesis
      by (fastforce simp: ascending_within_def split: prod.splits)
  qed
qed (simp add: ascending_within_def)

lemma takeWhile_later:
  assumes "\<forall>op \<in> set later. \<not> P op"
  shows "takeWhile P (ops @ later) = takeWhile P ops"
    and "dropWhile P (ops @ later) = dropWhile P ops @ later"
  using assms by (induction ops) (auto simp: takeWhile_eq_Nil_iff dropWhile_eq_self_iff neq_Nil_conv)

lemma insert_openers_split:
  assumes "ascending_within i (i + length toks) ops"
    and "\<forall>op \<in> set later. i + length toks \<le> fst op"
  shows "insert_openers file i toks (ops @ later) = (fst (insert_openers file i toks ops), later) \<and>
    snd (insert_openers file i toks ops) = []"
  using assms
proof (induction toks arbitrary: i ops)
  case Nil
  then have "ops = []" by (cases ops) (auto simp: ascending_within_def)
  then show ?case by simp
next
  case (Cons tok toks)
  let ?P = "\<lambda>(before, _::nat). before = i"
  have "ascending_within (Suc i) (Suc i + length toks) (dropWhile ?P ops)"
    using ascending_dropWhile [OF Cons.prems(1)] by simp
  from Cons.IH [OF this] Cons.prems(2)
  have IH: "insert_openers file (Suc i) toks (dropWhile ?P ops @ later) =
      (fst (insert_openers file (Suc i) toks (dropWhile ?P ops)), later)"
    "snd (insert_openers file (Suc i) toks (dropWhile ?P ops)) = []" by auto
  have "\<forall>op \<in> set later. \<not> ?P op" using Cons.prems(2) by fastforce
  from takeWhile_later [OF this] IH show ?case by (auto split: prod.splits)
qed

lemma insert_openers_append:
  "insert_openers file i (xs @ ys) ops =
     (let (o1, r1) = insert_openers file i xs ops;
          (o2, r2) = insert_openers file (i + length xs) ys r1 in (o1 @ o2, r2))"
  by (induction xs arbitrary: i ops) (auto split: prod.splits simp: Let_def)

definition woven_tokens :: "FileId \<Rightarrow> (Token \<times> Span) list \<Rightarrow> (nat \<times> nat) list \<Rightarrow> Token list" where
  "woven_tokens file out ops = map fst (fst (insert_openers file 0 out ops))"

lemma woven_all:
  "ascending_within 0 (length out) ops \<Longrightarrow> snd (insert_openers file 0 out ops) = []"
  using insert_openers_split [of 0 out ops "[]"] by simp

lemma woven_append:
  assumes "ascending_within 0 (length out) ops"
  shows "woven_tokens file (out @ new) ops = woven_tokens file out ops @ map fst new"
  using woven_all [OF assms, of "file"]
  by (auto simp: woven_tokens_def insert_openers_append Let_def split: prod.splits)

lemma woven_opener:
  assumes "ascending_within 0 h ops" "h < length out"
  shows "woven_tokens file out (ops @ [(h, at)]) =
    woven_tokens file (take h out) ops @ T_BlockValueIndent # map fst (drop h out)"
proof -
  obtain tok rest where d: "drop h out = tok # rest"
    using assms(2) by (cases "drop h out") auto
  have "insert_openers file 0 (take h out @ drop h out) (ops @ [(h, at)]) =
      (fst (insert_openers file 0 (take h out) ops) @
        (T_BlockValueIndent, Span_new file at at) # tok # rest, [])"
    using insert_openers_split [of 0 "take h out" ops "[(h, at)]" "file"] assms
    by (simp add: insert_openers_append d del: append_take_drop_id)
  then have "insert_openers file 0 out (ops @ [(h, at)]) =
      (fst (insert_openers file 0 (take h out) ops) @
        (T_BlockValueIndent, Span_new file at at) # tok # rest, [])"
    unfolding append_take_drop_id .
  then show ?thesis by (simp add: woven_tokens_def d)
qed

lemma ascending_weaken: "ascending_within i n ops \<Longrightarrow> n \<le> m \<Longrightarrow> ascending_within i m ops"
  by (force simp: ascending_within_def)

lemma ascending_snoc:
  "ascending_within 0 h ops \<Longrightarrow> h < n \<Longrightarrow> ascending_within 0 n (ops @ [(h, at)])"
  by (auto simp: ascending_within_def sorted_append)

subsection \<open>The invariant\<close>

text \<open>
  \<open>base_inv\<close> holds at every point of a run: the checker accepts the output with its openers
  inserted, and its stack is the open brackets over the open levels. \<open>line_inv\<close> holds inside a
  logical line: since the head of its last statement the output has no layout token and no
  newline, and the checker's stack there was the levels alone. \<open>start_inv\<close> holds where a line may
  start. \<open>head_inv\<close> is what \<open>head_next\<close> says of the token before it.
\<close>

definition woven :: "Layout \<Rightarrow> Token list" where
  "woven st = woven_tokens (lo_file st) (lo_out st) (lo_block_value_indents st)"

definition last_token_in :: "Token set \<Rightarrow> Layout \<Rightarrow> bool" where
  "last_token_in T st \<longleftrightarrow> lo_out st \<noteq> [] \<and> fst (last (lo_out st)) \<in> T"

definition base_inv :: "Layout \<Rightarrow> bool" where
  "base_inv st \<longleftrightarrow>
     lo_indent_stack st \<noteq> [] \<and>
     ascending_within 0 (length (lo_out st)) (lo_block_value_indents st) \<and>
     (\<forall>op \<in> set (lo_block_value_indents st). in_line (fst (lo_out st ! fst op))) \<and>
     nest (woven st) [] = Some (bracket_openers (lo_brackets st) @ levels (lo_indent_stack st))"

definition line_inv :: "Layout \<Rightarrow> bool" where
  "line_inv st \<longleftrightarrow>
     fst (lo_line_head st) \<le> length (lo_out st) \<and>
     ascending_within 0 (fst (lo_line_head st)) (lo_block_value_indents st) \<and>
     list_all in_line (map fst (drop (fst (lo_line_head st)) (lo_out st))) \<and>
     nest (woven_tokens (lo_file st) (take (fst (lo_line_head st)) (lo_out st))
             (lo_block_value_indents st)) [] = Some (levels (lo_indent_stack st)) \<and>
     (fst (lo_line_head st) = length (lo_out st) \<longrightarrow> \<not> last_token_in {T_Colon} st)"

definition start_inv :: "Layout \<Rightarrow> bool" where
  "start_inv st \<longleftrightarrow> lo_brackets st = [] \<and> (lo_out st = [] \<or> last_token_in {T_Newline} st)"

definition head_inv :: "Layout \<Rightarrow> bool" where
  "head_inv st \<longleftrightarrow>
     (lo_head_next st \<longrightarrow> lo_brackets st = [] \<and> last_token_in {T_Semi, T_Pub, T_Const} st)"

definition lay_inv :: "Layout \<Rightarrow> bool" where
  "lay_inv st \<longleftrightarrow>
     base_inv st \<and>
     (if lo_at_line_start st then start_inv st else line_inv st \<and> head_inv st) \<and>
     (lo_dropped_newline st \<noteq> None \<longrightarrow> lo_brackets st \<noteq> [])"

text \<open>Two states that agree on what the nesting depends on.\<close>

definition same_nesting :: "Layout \<Rightarrow> Layout \<Rightarrow> bool" where
  "same_nesting st st' \<longleftrightarrow>
     lo_file st' = lo_file st \<and> lo_out st' = lo_out st \<and>
     lo_indent_stack st' = lo_indent_stack st \<and>
     map ob_kind (lo_brackets st') = map ob_kind (lo_brackets st) \<and>
     lo_block_value_indents st' = lo_block_value_indents st"

lemma bracket_openers_kinds:
  "map ob_kind bs = map ob_kind cs \<Longrightarrow> bracket_openers bs = bracket_openers cs"
proof -
  assume "map ob_kind bs = map ob_kind cs"
  then have "map OpenedBracket (rev (map ob_kind bs)) = map OpenedBracket (rev (map ob_kind cs))"
    by simp
  then show ?thesis by (simp add: bracket_openers_def rev_map comp_def)
qed

lemma same_nesting_base: "same_nesting st st' \<Longrightarrow> base_inv st \<Longrightarrow> base_inv st'"
  by (auto simp: same_nesting_def base_inv_def woven_def dest: bracket_openers_kinds)

lemma same_nesting_line:
  "same_nesting st st' \<Longrightarrow> lo_line_head st' = lo_line_head st \<Longrightarrow> line_inv st \<Longrightarrow> line_inv st'"
  by (auto simp: same_nesting_def line_inv_def last_token_in_def)

text \<open>Appending tokens that the checker accepts.\<close>

lemma append_base:
  assumes "base_inv st" "lo_file st' = lo_file st" "lo_out st' = lo_out st @ new"
    "lo_block_value_indents st' = lo_block_value_indents st" "lo_indent_stack st' \<noteq> []"
    "nest (map fst new) (bracket_openers (lo_brackets st) @ levels (lo_indent_stack st)) =
       Some (bracket_openers (lo_brackets st') @ levels (lo_indent_stack st'))"
  shows "base_inv st'"
proof -
  have "in_line (fst ((lo_out st @ new) ! fst op))" if "op \<in> set (lo_block_value_indents st)" for op
    using assms(1) that by (auto simp: base_inv_def ascending_within_def nth_append)
  with assms show ?thesis
    by (auto simp: base_inv_def woven_def woven_append nest_append intro: ascending_weaken)
qed

lemma append_line:
  assumes "line_inv st" "lo_file st' = lo_file st" "lo_out st' = lo_out st @ new"
    "lo_block_value_indents st' = lo_block_value_indents st"
    "lo_indent_stack st' = lo_indent_stack st" "lo_line_head st' = lo_line_head st"
    "list_all in_line (map fst new)"
  shows "line_inv st'"
  using assms by (cases "new = []") (auto simp: line_inv_def last_token_in_def)

text \<open>A statement head set where no bracket is open starts a fresh segment.\<close>

lemma head_line:
  assumes "base_inv st" "lo_brackets st = []" "\<not> last_token_in {T_Colon} st"
    "same_nesting st st'" "fst (lo_line_head st') = length (lo_out st')"
  shows "line_inv st'"
  using assms by (auto simp: base_inv_def line_inv_def same_nesting_def woven_def last_token_in_def)

lemma statement_head_frame:
  "same_nesting st (statement_head tok span st)"
  "fst (lo_line_head (statement_head tok span st)) = length (lo_out (statement_head tok span st))"
  "lo_brackets (statement_head tok span st) = lo_brackets st"
  "lo_at_line_start (statement_head tok span st) = lo_at_line_start st"
  "lo_dropped_newline (statement_head tok span st) = lo_dropped_newline st"
  "lo_out (statement_head tok span st) = lo_out st"
  "lo_source (statement_head tok span st) = lo_source st"
  "lo_head_next (statement_head tok span st) = (tok = T_Pub \<or> tok = T_Const)"
  by (simp_all add: statement_head_def same_nesting_def Let_def)

text \<open>The end of a logical line with every bracket closed, opening a level or not.\<close>

lemma end_line_base:
  assumes "base_inv st" "line_inv st" "lo_brackets st = []"
  shows "base_inv (end_line span st)"
proof (cases "last_token_in {T_Colon} st \<and> \<not> lo_line_opens_at_first_token st")
  case False
  then have "lo_indent_stack (end_line span st) = lo_indent_stack st \<and>
      lo_block_value_indents (end_line span st) = lo_block_value_indents st"
    by (auto simp: end_line_def push_out_def last_token_in_def Let_def)
  with assms show ?thesis
    by (intro append_base [OF assms(1), where new = "[(T_Newline, span)]"])
      (auto simp: end_line_def push_out_def Let_def base_inv_def)
next
  case True
  let ?h = "fst (lo_line_head st)" and ?ops = "lo_block_value_indents st"
  let ?lv = "levels (lo_indent_stack st)"
  let ?pre = "woven_tokens (lo_file st) (take ?h (lo_out st)) ?ops"
  have h: "?h < length (lo_out st)" "ascending_within 0 ?h ?ops"
    "list_all in_line (map fst (drop ?h (lo_out st)))" "nest ?pre [] = Some ?lv"
    using assms(2) True by (auto simp: line_inv_def)
  have "woven st = ?pre @ map fst (drop ?h (lo_out st))"
    using woven_append [of "take ?h (lo_out st)" ?ops "lo_file st" "drop ?h (lo_out st)"] h(1,2)
    by (simp add: woven_def)
  then have "nest (map fst (drop ?h (lo_out st))) (map OpenedBracket [] @ ?lv) = Some ?lv"
    using assms(1,3) h(4) by (simp add: base_inv_def nest_append)
  from nest_change_base [OF h(3) inside_bracket_levels _ this, of "OpenedBlockValue # ?lv"]
  have seg: "nest (map fst (drop ?h (lo_out st))) (OpenedBlockValue # ?lv) =
      Some (OpenedBlockValue # ?lv)"
    by auto
  let ?st = "end_line span st"
  have f: "lo_file ?st = lo_file st" "lo_out ?st = lo_out st @ [(T_Newline, span)]"
    "lo_indent_stack ?st = lo_indent_stack st @ [Pending (lo_line_indent st)]"
    "lo_brackets ?st = []" "lo_block_value_indents ?st = ?ops @ [lo_line_head st]"
    using True assms(3) by (auto simp: end_line_def push_out_def last_token_in_def Let_def)
  have asc: "ascending_within 0 (length (lo_out st)) (?ops @ [lo_line_head st])"
    using ascending_snoc [OF h(2,1), of "snd (lo_line_head st)"] by simp
  have "woven ?st = ?pre @ T_BlockValueIndent # map fst (drop ?h (lo_out st)) @ [T_Newline]"
    using woven_append [OF asc, of "lo_file st" "[(T_Newline, span)]"]
      woven_opener [OF h(2,1), of "lo_file st" "snd (lo_line_head st)"]
    by (simp add: woven_def f)
  then have "nest (woven ?st) [] = Some (OpenedBlockValue # ?lv)"
    using h(4) seg by (simp add: nest_append)
  moreover have "levels (lo_indent_stack ?st) = OpenedBlockValue # ?lv"
    using assms(1) by (simp add: f levels_snoc base_inv_def level_opener_def is_fixed_def)
  moreover have "in_line (fst ((lo_out st @ [(T_Newline, span)]) ! fst op))"
    if "op \<in> set (?ops @ [lo_line_head st])" for op
  proof (cases "op = lo_line_head st")
    case True
    with h(1,3) show ?thesis by (auto simp: nth_append list_all_length dest: spec [of _ 0])
  next
    case False
    with that assms(1) h(1,2) show ?thesis
      by (auto simp: base_inv_def ascending_within_def nth_append)
  qed
  ultimately show ?thesis
    using ascending_weaken [OF asc, of "Suc (length (lo_out st))"] by (simp add: base_inv_def f)
qed

lemma end_line_start:
  assumes "lo_brackets st = []"
  shows "start_inv (end_line span st)" "lo_at_line_start (end_line span st)"
    "lo_dropped_newline (end_line span st) = lo_dropped_newline st"
    "lo_source (end_line span st) = lo_source st" "lo_file (end_line span st) = lo_file st"
  using assms by (auto simp: end_line_def push_out_def start_inv_def last_token_in_def Let_def)

subsection \<open>Every method keeps the invariant\<close>

lemma rfind_less: "rfind c t = Some i \<Longrightarrow> i < str_len t"
proof -
  assume *: "rfind c t = Some i"
  let ?hits = "filter (\<lambda>(i, d). d = c) (char_indices t)"
  from * have "?hits \<noteq> []" "i = fst (last ?hits)" by (auto simp: rfind_def Let_def split: if_splits)
  then have "(i, snd (last ?hits)) \<in> set (char_indices t)"
    using last_in_set [of ?hits] by auto
  then show ?thesis by (auto simp: char_indices_def dest: char_indices_from_bounds)
qed

lemma column_total:
  assumes "is_char_boundary (lo_source st) (sp_start span)"
  shows "\<exists>start indent. column st span = Inr (start, indent)"
proof -
  obtain s u where su: "lo_source st = s @ u" "sp_start span = str_len s"
    using assms char_boundary_iff by blast
  have "str_slice (lo_source st) 0 (sp_start span) = Inr s"
    using str_slice_append [of "[]" s u] by (simp add: su)
  moreover have "i < str_len s" if "rfind 10 s = Some i" for i using rfind_less that .
  ultimately show ?thesis
    by (auto simp: column_def su(2) Let_def split: option.splits)
qed

definition frame :: "Layout \<Rightarrow> Layout \<Rightarrow> bool" where
  "frame st st' \<longleftrightarrow> lo_file st' = lo_file st \<and> lo_source st' = lo_source st"

lemma settle_level_total:
  assumes "base_inv st" "lo_brackets st = []"
  shows "\<exists>st'. settle_level indent span st = Inr st' \<and> base_inv st' \<and> frame st st' \<and>
    lo_brackets st' = [] \<and> lo_out st' = lo_out st \<and>
    lo_at_line_start st' = lo_at_line_start st \<and> lo_dropped_newline st' = lo_dropped_newline st"
proof -
  have ne: "lo_indent_stack st \<noteq> []" using assms(1) by (simp add: base_inv_def)
  show ?thesis
  proof (cases "last (lo_indent_stack st)")
    case (Pending m)
    then have "levels (butlast (lo_indent_stack st) @ [Pinned indent]) = levels (lo_indent_stack st)"
      using ne by (cases "lo_indent_stack st" rule: rev_cases)
        (auto simp: levels_def level_opener_def is_fixed_def tl_append split: list.splits)
    with Pending ne assms show ?thesis
      by (auto simp: settle_level_def base_inv_def woven_def frame_def)
  qed (use ne assms in \<open>auto simp: settle_level_def push_error_def base_inv_def woven_def frame_def\<close>)
qed

lemma line_levels_total:
  assumes "base_inv st" "lo_brackets st = []"
  shows "\<exists>st' new. line_levels start indent span st = Inr st' \<and> base_inv st' \<and> frame st st' \<and>
    lo_brackets st' = [] \<and> lo_dropped_newline st' = lo_dropped_newline st \<and>
    lo_out st' = lo_out st @ new \<and> list_all (\<lambda>(t, _). layout_token t) new"
proof -
  have ne: "lo_indent_stack st \<noteq> []" using assms(1) by (simp add: base_inv_def)
  let ?st = "st\<lparr>lo_short_header := None\<rparr>"
  let ?at = "Span_new (lo_file st) (sp_start span) (sp_start span)"
  let ?new = "[(T_Indent, Span_new (lo_file st) start (sp_start span))]"
  let ?push = "push_out T_Indent (Span_new (lo_file st) start (sp_start span))
    (?st\<lparr>lo_indent_stack := lo_indent_stack st @ [Fixed indent]\<rparr>)"
  let ?cl = "close_levels indent ?at ?st"
  have base: "base_inv ?st" using assms(1) by (simp add: base_inv_def woven_def)
  have "line_levels start indent span st = Inr ?push \<or>
      line_levels start indent span st = settle_level indent span ?cl"
    using ne by (simp add: line_levels_def Let_def)
  then show ?thesis
  proof
    assume *: "line_levels start indent span st = Inr ?push"
    have "base_inv ?push"
      by (rule append_base [OF base, where new = ?new])
        (use ne assms(2) in \<open>simp_all add: push_out_def levels_snoc level_opener_def is_fixed_def\<close>)
    with * assms(2) show ?thesis
      by (intro exI [of _ ?push] exI [of _ ?new]) (simp add: push_out_def frame_def layout_token_def)
  next
    assume *: "line_levels start indent span st = settle_level indent span ?cl"
    obtain rest popped where cl: "lo_indent_stack ?st = rest @ popped" "rest \<noteq> []"
      "?cl = ?st\<lparr>lo_indent_stack := rest, lo_out := lo_out ?st @ closer_tokens ?at (rev popped)\<rparr>"
      using close_levels_form [of ?st indent ?at] ne by auto
    have "base_inv ?cl"
      by (rule append_base [OF base, where new = "closer_tokens ?at (rev popped)"])
        (use cl assms(2) in \<open>simp_all add: closer_tokens_def levels_append comp_def nest_closers\<close>)
    moreover have "lo_brackets ?cl = []" using cl assms(2) by simp
    ultimately obtain st' where st': "settle_level indent span ?cl = Inr st'" "base_inv st'"
      "frame ?cl st'" "lo_brackets st' = []" "lo_out st' = lo_out ?cl"
      "lo_dropped_newline st' = lo_dropped_newline ?cl"
      using settle_level_total [of ?cl indent span] by auto
    have "layout_token (closer l)" for l by (cases l) (auto simp: layout_token_def)
    then show ?thesis using st' cl *
      by (intro exI [of _ st'] exI [of _ "closer_tokens ?at (rev popped)"])
        (auto simp: frame_def closer_tokens_def list_all_iff)
  qed
qed

lemma line_start_total:
  assumes "base_inv st" "start_inv st" "is_char_boundary (lo_source st) (sp_start span)"
  shows "\<exists>st' new. line_start tok span st = Inr st' \<and> base_inv st' \<and> line_inv st' \<and> frame st st' \<and>
    lo_brackets st' = [] \<and> lo_dropped_newline st' = lo_dropped_newline st \<and>
    lo_head_next st' = (tok = T_Pub \<or> tok = T_Const) \<and>
    lo_out st' = lo_out st @ new \<and> list_all (\<lambda>(t, _). layout_token t) new"
proof -
  obtain start indent where col: "column st span = Inr (start, indent)"
    using column_total [OF assms(3)] by blast
  let ?st = "st\<lparr>lo_line_indent := indent, lo_line_short := False\<rparr>"
  have "base_inv ?st" "lo_brackets ?st = []"
    using assms(1,2) by (simp_all add: base_inv_def woven_def start_inv_def)
  then obtain st1 new where st1: "line_levels start indent span ?st = Inr st1" "base_inv st1"
    "frame ?st st1" "lo_brackets st1 = []" "lo_dropped_newline st1 = lo_dropped_newline ?st"
    "lo_out st1 = lo_out ?st @ new" "list_all (\<lambda>(t, _). layout_token t) new"
    using line_levels_total [of ?st start indent span] by blast
  let ?st2 = "st1\<lparr>lo_head_is_line_first := True\<rparr>"
  let ?st3 = "statement_head tok span ?st2"
  have "\<not> last_token_in {T_Colon} ?st2"
    using st1(6,7) assms(2)
    by (cases new rule: rev_cases) (auto simp: last_token_in_def start_inv_def layout_token_def)
  moreover have base2: "base_inv ?st2" using st1(2) by (simp add: base_inv_def woven_def)
  ultimately have "line_inv ?st3"
    using head_line [of ?st2 ?st3] st1(4) by (simp add: statement_head_frame)
  moreover have "base_inv ?st3" by (rule same_nesting_base [OF statement_head_frame(1) base2])
  moreover have "line_start tok span st = Inr ?st3" using col st1(1) by (simp add: line_start_def)
  moreover have "lo_file ?st3 = lo_file ?st2"
    using statement_head_frame(1) [of ?st2 tok span] by (simp add: same_nesting_def)
  ultimately show ?thesis
    using st1 by (intro exI [of _ ?st3] exI [of _ new]) (simp add: statement_head_frame frame_def)
qed

lemma nest_close_brackets:
  "nest (map close_token (map ob_kind (rev cs))) (bracket_openers (bs @ cs) @ stk) =
     Some (bracket_openers bs @ stk)"
  using nest_close_tokens [of "map ob_kind (rev cs)" "bracket_openers bs @ stk"]
  by (simp add: bracket_openers_def comp_def)

text \<open>Closing the innermost brackets \<open>cs\<close>, by zero-width closers or by a close bracket.\<close>

lemma close_brackets_inv:
  assumes "base_inv st" "line_inv st" "lo_brackets st = bs @ cs"
    and "lo_out st' = lo_out st @ new" "map fst new = map close_token (map ob_kind (rev cs))"
    and "map ob_kind (lo_brackets st') = map ob_kind bs"
    and "lo_file st' = lo_file st" "lo_block_value_indents st' = lo_block_value_indents st"
    "lo_indent_stack st' = lo_indent_stack st" "lo_line_head st' = lo_line_head st"
  shows "base_inv st'" "line_inv st'"
proof -
  have "bracket_openers (lo_brackets st') = bracket_openers bs"
    using assms(6) by (rule bracket_openers_kinds)
  then have "nest (map fst new) (bracket_openers (lo_brackets st) @ levels (lo_indent_stack st)) =
      Some (bracket_openers (lo_brackets st') @ levels (lo_indent_stack st'))"
    unfolding assms(3,5,9) by (simp only: nest_close_brackets)
  then show "base_inv st'"
    using append_base [OF assms(1,7,4,8)] assms(1,9) by (simp add: base_inv_def)
  have "list_all in_line (map fst new)" unfolding assms(5) by (simp add: list_all_iff)
  then show "line_inv st'" using append_line [OF assms(2,7,4,8,9,10)] by simp
qed

lemma mark_ended_kinds [simp]: "map ob_kind (mark_ended bs) = map ob_kind bs"
  by (induction bs) auto

lemma mark_ended_Nil [simp]: "mark_ended bs = [] \<longleftrightarrow> bs = []"
  by (cases bs) auto

lemma physical_line_total:
  assumes "base_inv st" "line_inv st" "lo_brackets st \<noteq> []" "\<not> lo_at_line_start st"
    "\<not> lo_head_next st" "lo_dropped_newline st = None"
    "is_char_boundary (lo_source st) (sp_start span)"
  shows "\<exists>st'. physical_line tok span newline st = Inr st' \<and> lay_inv st' \<and> frame st st' \<and>
    lo_dropped_newline st' = None"
proof -
  obtain start indent where col: "column st span = Inr (start, indent)"
    using column_total [OF assms(7)] by blast
  let ?bs = "mark_ended (rev (lo_brackets st))"
  let ?at = "Span_new (lo_file st) (sp_start newline) (sp_start newline)"
  let ?st = "close_early ?at (st\<lparr>lo_brackets := rev ?bs\<rparr>)"
  have stay: "lay_inv st" using assms by (simp add: lay_inv_def head_inv_def)
  have kinds: "map ob_kind (lo_brackets st) = map ob_kind (rev ?bs)"
    by (simp add: rev_map [symmetric])
  then have bs: "bracket_openers (lo_brackets st) = bracket_openers (rev ?bs)"
    by (rule bracket_openers_kinds)
  have base: "base_inv (st\<lparr>lo_brackets := rev ?bs\<rparr>)" "line_inv (st\<lparr>lo_brackets := rev ?bs\<rparr>)"
    using assms(1,2) by (simp_all add: base_inv_def line_inv_def woven_def last_token_in_def bs)
  have split: "lo_brackets (st\<lparr>lo_brackets := rev ?bs\<rparr>) =
      rev (dropWhile closes_early ?bs) @ rev (takeWhile closes_early ?bs)"
    by (simp add: rev_append [symmetric])
  have inv: "base_inv ?st" "line_inv ?st"
    by (rule close_brackets_inv [OF base split, where new = "missing_tokens ?at (takeWhile closes_early ?bs)"];
        simp add: close_early_form missing_tokens_def comp_def)+
  have keep: "frame st ?st" "\<not> lo_at_line_start ?st" "lo_dropped_newline ?st = None"
    "\<not> lo_head_next ?st"
    using assms by (simp_all add: close_early_form frame_def)
  show ?thesis
  proof (cases "indent > lo_line_indent st \<or> closed_by tok \<noteq> None")
    case True
    with col stay assms(6) show ?thesis by (simp add: physical_line_def frame_def)
  next
    case False
    then have eq: "physical_line tok span newline st =
        Inr (if lo_brackets ?st = [] then end_line newline ?st else ?st)"
      using col by (simp add: physical_line_def Let_def)
    show ?thesis
    proof (cases "lo_brackets ?st = []")
      case True
      with eq inv keep end_line_base [OF inv True] end_line_start [OF True] show ?thesis
        by (simp add: lay_inv_def frame_def)
    next
      case False
      with eq inv keep show ?thesis by (simp add: lay_inv_def head_inv_def)
    qed
  qed
qed

lemma meet_stray_kinds [simp]: "map ob_kind (meet_stray k span bs) = map ob_kind bs"
  by (auto simp: meet_stray_def split: list.splits)

lemma close_bracket_form:
  fixes span :: Span
  assumes "rposition (\<lambda>b. ob_kind b = k) (lo_brackets st) = Some i"
  defines "inner \<equiv> meet_stray k span (rev (drop (i + 1) (lo_brackets st)))"
    and "matched \<equiv> lo_brackets st ! i"
  shows "close_bracket k span st =
    st\<lparr>lo_brackets := take i (lo_brackets st),
       lo_out := lo_out st @
         missing_tokens (Span_new (lo_file st) (sp_start span) (sp_start span)) inner @
         [(close_token k, span)],
       lo_errors := lo_errors st @ map missing_error inner @
         (case ob_stray matched of Some (_, stray) \<Rightarrow> [UnmatchedClose stray] | None \<Rightarrow> []),
       lo_resync_next := lo_resync_next st @
         (if inner \<noteq> [] \<and> ob_statement_ended matched then [ob_index matched] else [])\<rparr>"
  unfolding close_bracket_def assms(1) option.case Let_def fold_close_missing
    inner_def [symmetric] matched_def [symmetric]
  by (auto simp: push_out_def push_error_def missing_tokens_def split: option.splits)

lemma close_bracket_inv:
  assumes "base_inv st" "line_inv st"
  shows "base_inv (close_bracket k span st) \<and> line_inv (close_bracket k span st)"
proof (cases "rposition (\<lambda>b. ob_kind b = k) (lo_brackets st)")
  case None
  have "same_nesting st (close_bracket k span st)"
    "lo_line_head (close_bracket k span st) = lo_line_head st"
    using None by (cases "lo_brackets st" rule: rev_cases;
        auto simp: close_bracket_def same_nesting_def push_error_def)+
  with assms same_nesting_base same_nesting_line show ?thesis by blast
next
  case (Some i)
  let ?bs = "lo_brackets st" and ?at = "Span_new (lo_file st) (sp_start span) (sp_start span)"
  let ?inner = "meet_stray k span (rev (drop (i + 1) ?bs))"
  let ?new = "missing_tokens ?at ?inner @ [(close_token k, span)]"
  from rposition_Some [OF Some] have i: "i < length ?bs" "ob_kind (?bs ! i) = k" by auto
  then have split: "?bs = take i ?bs @ (?bs ! i # drop (i + 1) ?bs)"
    by (simp add: id_take_nth_drop)
  have "map fst ?new = map close_token (map ob_kind ?inner) @ [close_token (ob_kind (?bs ! i))]"
    by (simp only: map_append map_fst_missing i list.map fst_conv)
  then have new: "map fst ?new = map close_token (map ob_kind (rev (?bs ! i # drop (i + 1) ?bs)))"
    unfolding meet_stray_kinds by simp
  show ?thesis
    using close_brackets_inv [OF assms split _ new, of "close_bracket k span st"]
    by (simp add: close_bracket_form [OF Some])
qed

text \<open>The close of a bracket keeps what the rest of \<open>token\<close> reads.\<close>

lemma close_bracket_frame:
  "lo_at_line_start (close_bracket k span st) = lo_at_line_start st \<and>
   lo_dropped_newline (close_bracket k span st) = lo_dropped_newline st \<and>
   lo_head_next (close_bracket k span st) = lo_head_next st \<and>
   lo_file (close_bracket k span st) = lo_file st \<and>
   lo_source (close_bracket k span st) = lo_source st"
proof (cases "rposition (\<lambda>b. ob_kind b = k) (lo_brackets st)")
  case None
  then show ?thesis by (simp add: close_bracket_def push_error_def)
next
  case (Some i)
  then show ?thesis by (simp add: close_bracket_form [OF Some])
qed

text \<open>
  The state before a token is placed: inside a line, with \<open>head_next\<close> set only by a prefix that is
  about to be placed or, before a newline, by the last token.
\<close>

definition placing_inv :: "Token \<Rightarrow> Layout \<Rightarrow> bool" where
  "placing_inv tok st \<longleftrightarrow>
     base_inv st \<and> line_inv st \<and>
     (lo_dropped_newline st \<noteq> None \<longrightarrow> lo_brackets st \<noteq> [] \<and> tok = T_Newline) \<and>
     (lo_head_next st \<longrightarrow> lo_brackets st = [] \<and> tok \<in> {T_Pub, T_Const, T_Newline})"

lemma begin_statement_total:
  assumes "lay_inv st" "is_char_boundary (lo_source st) (sp_start span)"
    "\<not> (lo_at_line_start st \<and> tok = T_Newline)"
    "lo_dropped_newline st \<noteq> None \<Longrightarrow> tok = T_Newline"
  shows "\<exists>st'. begin_statement tok span st = Inr st' \<and> placing_inv tok st' \<and> frame st st'"
proof (cases "lo_at_line_start st")
  case True
  with assms(1) have "base_inv st" "start_inv st" "lo_brackets st = []"
    "lo_dropped_newline st = None"
    by (auto simp: lay_inv_def start_inv_def)
  with True line_start_total [of st span tok] assms(2) show ?thesis
    by (auto simp: begin_statement_def placing_inv_def)
next
  case False
  with assms(1) have inv: "base_inv st" "line_inv st" "head_inv st" by (auto simp: lay_inv_def)
  show ?thesis
  proof (cases "lo_head_next st \<and> tok \<noteq> T_Newline")
    case True
    let ?st = "statement_head tok span st"
    have st: "lo_brackets st = []" "\<not> last_token_in {T_Colon} st"
      using True inv(3) by (auto simp: head_inv_def last_token_in_def)
    have "line_inv ?st"
      by (rule head_line [OF inv(1) st statement_head_frame(1,2)])
    moreover have "base_inv ?st" by (rule same_nesting_base [OF statement_head_frame(1) inv(1)])
    moreover have "frame st ?st"
      using statement_head_frame(1) [of st tok span]
      by (simp add: frame_def statement_head_frame same_nesting_def)
    ultimately show ?thesis using True False st assms
      by (auto simp: begin_statement_def placing_inv_def statement_head_frame lay_inv_def)
  next
    case False
    with \<open>\<not> lo_at_line_start st\<close> inv assms show ?thesis
      by (auto simp: begin_statement_def placing_inv_def frame_def head_inv_def lay_inv_def)
  qed
qed

lemma resume_line_total:
  assumes "lay_inv st" "is_char_boundary (lo_source st) (sp_start span)"
    "\<not> (lo_at_line_start st \<and> tok = T_Newline)"
  shows "\<exists>st'. resume_line tok span st = Inr st' \<and> lay_inv st' \<and> frame st st' \<and>
    \<not> (lo_at_line_start st' \<and> tok = T_Newline) \<and>
    (lo_dropped_newline st' \<noteq> None \<longrightarrow> tok = T_Newline)"
proof (cases "tok = T_Newline \<or> lo_dropped_newline st = None")
  case True
  with assms show ?thesis by (auto simp: resume_line_def frame_def)
next
  case False
  then obtain nl where nl: "lo_dropped_newline st = Some nl" "tok \<noteq> T_Newline" by auto
  then have br: "lo_brackets st \<noteq> []" using assms(1) by (simp add: lay_inv_def)
  then have ls: "\<not> lo_at_line_start st" using assms(1) by (auto simp: lay_inv_def start_inv_def)
  let ?st = "st\<lparr>lo_dropped_newline := None\<rparr>"
  have "base_inv ?st" "line_inv ?st" "\<not> lo_head_next ?st"
    using assms(1) br ls
    by (auto simp: lay_inv_def base_inv_def line_inv_def head_inv_def woven_def last_token_in_def)
  with physical_line_total [of ?st span tok nl] br ls assms(2) nl show ?thesis
    by (auto simp: resume_line_def frame_def)
qed

lemma place_token_inv:
  assumes "placing_inv tok st" "\<not> layout_token tok" "\<not> lo_at_line_start st"
  shows "lay_inv (place_token index tok span st)" "frame st (place_token index tok span st)"
proof -
  have inv: "base_inv st" "line_inv st" using assms(1) by (auto simp: placing_inv_def)
  let ?st = "place_token index tok span st"
  have "lay_inv ?st \<and> frame st ?st"
  proof (cases "opened_by tok")
    case (Some k)
    then have *: "tok \<noteq> T_Newline" "tok \<noteq> T_Pub" "tok \<noteq> T_Const" "in_line tok"
      by (auto simp: opened_by_def in_line_def layout_token_def split: if_splits)
    have "base_inv ?st"
      by (rule append_base [OF inv(1), where new = "[(tok, span)]"])
        (use Some inv(1) in \<open>simp_all add: place_token_def push_out_def nest_step_open base_inv_def\<close>)
    moreover have "line_inv ?st"
      by (rule append_line [OF inv(2), where new = "[(tok, span)]"])
        (use Some * in \<open>simp_all add: place_token_def push_out_def\<close>)
    ultimately show ?thesis using Some * assms
      by (simp add: lay_inv_def head_inv_def placing_inv_def place_token_def push_out_def frame_def)
  next
    case None
    note op = None
    show ?thesis
    proof (cases "closed_by tok")
      case (Some k)
      then have "tok = close_token k" by (simp add: closed_by_Some)
      then have "tok \<noteq> T_Newline" "tok \<noteq> T_Pub" "tok \<noteq> T_Const" by (cases k; simp)+
      with op Some assms close_bracket_inv [OF inv, of k span] close_bracket_frame [of k span st]
      show ?thesis
        by (simp add: lay_inv_def head_inv_def placing_inv_def place_token_def frame_def)
    next
      case None
      note plain = op None
      show ?thesis
      proof (cases "tok = T_Newline")
        case True
        show ?thesis
        proof (cases "lo_brackets st = []")
          case br: True
          with plain True assms(1) end_line_base [OF inv br, of span] end_line_start [OF br, of span]
          show ?thesis
            by (simp add: lay_inv_def placing_inv_def place_token_def frame_def)
        next
          case False
          with plain True assms inv show ?thesis
            by (auto simp: lay_inv_def placing_inv_def place_token_def frame_def head_inv_def
                base_inv_def line_inv_def woven_def last_token_in_def)
        qed
      next
        case False
        then have il: "in_line tok" using assms(2) by (simp add: in_line_def)
        have "base_inv ?st"
          by (rule append_base [OF inv(1), where new = "[(tok, span)]"])
            (use False il plain inv(1) in \<open>simp_all add: place_token_def push_out_def
              nest_step_plain base_inv_def Let_def\<close>)
        moreover have "line_inv ?st"
          by (rule append_line [OF inv(2), where new = "[(tok, span)]"])
            (use False il plain in \<open>simp_all add: place_token_def push_out_def Let_def\<close>)
        ultimately show ?thesis using plain False assms
          by (auto simp: lay_inv_def head_inv_def placing_inv_def place_token_def push_out_def
              frame_def last_token_in_def Let_def)
      qed
    qed
  qed
  then show "lay_inv ?st" "frame st ?st" by auto
qed

text \<open>The tokens a run takes: none that layout itself makes, each starting on a boundary.\<close>

definition raw_token :: "utext \<Rightarrow> Token \<times> Span \<Rightarrow> bool" where
  "raw_token src t \<longleftrightarrow> \<not> layout_token (fst t) \<and> is_char_boundary src (sp_start (snd t))"

lemma token_total:
  assumes "lay_inv st" "raw_token (lo_source st) (tok, span)"
  shows "\<exists>st'. token index tok span st = Inr st' \<and> lay_inv st' \<and> frame st st'"
proof (cases "lo_at_line_start st \<and> tok = T_Newline")
  case True
  with assms show ?thesis by (simp add: token_def frame_def)
next
  case False
  obtain st1 where st1: "resume_line tok span st = Inr st1" "lay_inv st1" "frame st st1"
    "\<not> (lo_at_line_start st1 \<and> tok = T_Newline)" "lo_dropped_newline st1 \<noteq> None \<longrightarrow> tok = T_Newline"
    using resume_line_total [OF assms(1) _ False] assms(2) by (auto simp: raw_token_def)
  then obtain st2 where st2: "begin_statement tok span st1 = Inr st2" "placing_inv tok st2"
    "frame st1 st2"
    using begin_statement_total [of st1 span tok] assms(2) by (auto simp: raw_token_def frame_def)
  let ?st3 = "st2\<lparr>lo_at_line_start := False\<rparr>"
  have "placing_inv tok ?st3"
    using st2(2) by (simp add: placing_inv_def base_inv_def line_inv_def woven_def last_token_in_def)
  from place_token_inv [OF this, of index span] assms(2) st1 st2 False show ?thesis
    by (auto simp: token_def raw_token_def frame_def)
qed

lemma run_tokens_total:
  assumes "lay_inv st" "list_all (raw_token (lo_source st)) toks"
  shows "\<exists>st'. run_tokens index toks st = Inr st' \<and> lay_inv st' \<and> frame st st'"
  using assms
proof (induction toks arbitrary: index st)
  case (Cons t toks)
  obtain tok span where t: "t = (tok, span)" by (cases t)
  obtain st1 where "token index tok span st = Inr st1" "lay_inv st1" "frame st st1"
    using token_total [of st tok span index] Cons.prems t by auto
  moreover from this obtain st2 where "run_tokens (Suc index) toks st1 = Inr st2" "lay_inv st2" "frame st1 st2"
    using Cons.IH [of st1 "Suc index"] Cons.prems(2) by (auto simp: frame_def)
  ultimately show ?case by (auto simp: t frame_def)
qed (simp add: frame_def)

lemma initial_layout_inv: "lay_inv (initial_layout file src resync)"
  by (simp add: lay_inv_def initial_layout_def base_inv_def start_inv_def ascending_within_def
      woven_def woven_tokens_def levels_def)

subsection \<open>The end of a run\<close>

lemma not_in_line_closer [simp]: "\<not> in_line (closer l)" "\<not> in_line T_Newline"
  by (cases l) (simp_all add: in_line_def layout_token_def)

lemma close_open_base: "base_inv st \<Longrightarrow> base_inv (close_open at st)"
  by (rule append_base [where new = "missing_tokens at (rev (lo_brackets st))"])
    (use nest_close_brackets [of "lo_brackets st" "[]" "levels (lo_indent_stack st)"] in
      \<open>simp_all add: close_open_form base_inv_def missing_tokens_def comp_def\<close>)

lemma newline_base:
  "base_inv st \<Longrightarrow> lo_brackets st = [] \<Longrightarrow> base_inv (push_out T_Newline at st)"
  by (rule append_base [where new = "[(T_Newline, at)]"])
    (auto simp: push_out_def base_inv_def)

lemma dedent_all_base:
  assumes "base_inv st" "lo_brackets st = []" "lo_indent_stack st = l # ls"
  shows "base_inv (dedent_all at st)"
proof (rule append_base [OF assms(1), where new = "closer_tokens at (rev ls)"])
  show "nest (map fst (closer_tokens at (rev ls)))
      (bracket_openers (lo_brackets st) @ levels (lo_indent_stack st)) =
    Some (bracket_openers (lo_brackets (dedent_all at st)) @ levels (lo_indent_stack (dedent_all at st)))"
    using nest_closers [of "rev ls" "[]"]
    by (simp add: dedent_all_form [OF assms(3)] assms(2,3) closer_tokens_def levels_def comp_def)
qed (simp_all add: dedent_all_form [OF assms(3)])

text \<open>No opener goes into a tail of newlines and layout tokens.\<close>

lemma insert_before_tail:
  assumes "base_inv st" "lo_out st = pre @ tail" "\<forall>t \<in> set tail. \<not> in_line (fst t)"
  shows "insert_openers (lo_file st) 0 (lo_out st) (lo_block_value_indents st) =
    (fst (insert_openers (lo_file st) 0 pre (lo_block_value_indents st)) @ tail, [])"
proof -
  let ?ops = "lo_block_value_indents st"
  have "fst op < length pre" if "op \<in> set ?ops" for op
  proof (rule ccontr)
    assume ge: "\<not> fst op < length pre"
    have "fst op < length (pre @ tail)" "in_line (fst ((pre @ tail) ! fst op))"
      using assms(1) that by (auto simp: base_inv_def ascending_within_def simp flip: assms(2))
    with ge assms(3) show False by (auto simp: nth_append)
  qed
  then have "ascending_within 0 (length pre) ?ops"
    using assms(1) by (auto simp: base_inv_def ascending_within_def)
  from woven_all [OF this, of "lo_file st"] show ?thesis
    by (cases "insert_openers (lo_file st) 0 pre ?ops") (simp add: assms(2) insert_openers_append)
qed

lemma finish_total:
  assumes "lay_inv st"
  shows "\<exists>st' pre at ls. finish dbg st = Inr st' \<and> nest (map fst (lo_out st')) [] = Some [] \<and>
    lo_out st' = pre @ (T_Newline, at) # closer_tokens (Span_new (lo_file st)
      (str_len (lo_source st)) (str_len (lo_source st))) ls"
proof -
  let ?es = "Span_new (lo_file st) (str_len (lo_source st)) (str_len (lo_source st))"
  define st1 where "st1 = close_open ?es st"
  define st2 where "st2 = (if lo_out st1 \<noteq> [] \<and> fst (last (lo_out st1)) = T_Newline then st1
    else push_out T_Newline ?es st1)"
  define st3 where "st3 = dedent_all ?es st2"
  have base: "base_inv st" using assms by (simp add: lay_inv_def)
  have b1: "base_inv st1" "lo_brackets st1 = []" "lo_file st1 = lo_file st"
    using close_open_base [OF base, of ?es] by (simp_all add: st1_def close_open_form)
  then have b2: "base_inv st2" "lo_brackets st2 = []" "lo_file st2 = lo_file st"
    using newline_base [of st1 ?es] by (simp_all add: st2_def push_out_def)
  obtain pre at where pre: "lo_out st2 = pre @ [(T_Newline, at)]"
  proof (cases "lo_out st1 \<noteq> [] \<and> fst (last (lo_out st1)) = T_Newline")
    case True
    then show thesis using that [of "butlast (lo_out st1)" "snd (last (lo_out st1))"]
      by (cases "lo_out st1" rule: rev_cases) (auto simp: st2_def)
  next
    case False
    then show thesis using that [of "lo_out st1" ?es] by (auto simp: st2_def push_out_def)
  qed
  obtain l ls where ls: "lo_indent_stack st2 = l # ls"
    using b2 by (cases "lo_indent_stack st2") (auto simp: base_inv_def)
  note form = dedent_all_form [OF ls, of ?es, folded st3_def]
  let ?tail = "(T_Newline, at) # closer_tokens ?es (rev ls)"
  have b3: "base_inv st3" unfolding st3_def by (rule dedent_all_base [OF b2(1,2) ls])
  let ?ops = "lo_block_value_indents st3"
  let ?out = "fst (insert_openers (lo_file st3) 0 pre ?ops) @ ?tail"
  have "insert_openers (lo_file st3) 0 (lo_out st3) ?ops = (?out, [])"
    by (rule insert_before_tail [OF b3]) (auto simp: form pre closer_tokens_def)
  moreover from this have "finish dbg st = Inr (st3\<lparr>lo_out := ?out\<rparr>)"
    unfolding finish_def Let_def st1_def [symmetric] st2_def [symmetric] st3_def [symmetric]
    by (cases "?ops = []") simp_all
  ultimately show ?thesis
    using b3 form b2(2)
    by (intro exI [of _ "st3\<lparr>lo_out := ?out\<rparr>"] exI [of _ at] exI [of _ "rev ls"] exI
        [of _ "fst (insert_openers (lo_file st3) 0 pre ?ops)"])
      (simp add: base_inv_def woven_def woven_tokens_def levels_def)
qed

end
