(* ===== verification/Layout_Accounting.thy ===== *)
theory Layout_Accounting
  imports Layout_Nesting
begin

section \<open>What the layout pass adds and drops\<close>

text \<open>
  The pass only appends: to the output, to the errors and to the brackets the next run closes
  early. \<open>grows\<close> relates a state to a later one and accounts for what was appended: as many
  zero-width closers as errors that report one, the raw tokens that are kept, and an error
  wherever a second run is asked for.
\<close>

definition zero_width_closer :: "Token \<times> Span \<Rightarrow> bool" where
  "zero_width_closer t \<longleftrightarrow> closed_by (fst t) \<noteq> None \<and> sp_start (snd t) = sp_end (snd t)"

definition reports_closer :: "LexError \<Rightarrow> bool" where
  "reports_closer e =
     (case e of UnclosedBracket _ \<Rightarrow> True | MismatchedClose _ _ _ _ \<Rightarrow> True | _ \<Rightarrow> False)"

definition kept_token :: "Token \<times> Span \<Rightarrow> bool" where
  "kept_token t \<longleftrightarrow> in_line (fst t) \<and> closed_by (fst t) = None"

definition grows :: "Layout \<Rightarrow> Layout \<Rightarrow> (Token \<times> Span) list \<Rightarrow> bool" where
  "grows st st' keep \<longleftrightarrow>
     (\<exists>new errs rs.
        lo_out st' = lo_out st @ new \<and> lo_errors st' = lo_errors st @ errs \<and>
        lo_resync_next st' = lo_resync_next st @ rs \<and>
        length (filter zero_width_closer new) = length (filter reports_closer errs) \<and>
        filter kept_token new = keep \<and> (rs \<noteq> [] \<longrightarrow> errs \<noteq> []))"

lemma growsI:
  assumes "lo_out st' = lo_out st @ new" "lo_errors st' = lo_errors st @ errs"
    "lo_resync_next st' = lo_resync_next st @ rs"
    "length (filter zero_width_closer new) = length (filter reports_closer errs)"
    "filter kept_token new = keep" "rs \<noteq> [] \<Longrightarrow> errs \<noteq> []"
  shows "grows st st' keep"
  using assms unfolding grows_def by blast

lemma grows_refl: "grows st st []"
  by (rule growsI [where new = "[]" and errs = "[]" and rs = "[]"]) simp_all

lemma grows_trans:
  assumes "grows st st' xs" "grows st' st'' ys"
  shows "grows st st'' (xs @ ys)"
proof -
  from assms obtain n1 e1 r1 n2 e2 r2 where
    "lo_out st' = lo_out st @ n1" "lo_errors st' = lo_errors st @ e1"
    "lo_resync_next st' = lo_resync_next st @ r1"
    "length (filter zero_width_closer n1) = length (filter reports_closer e1)"
    "filter kept_token n1 = xs" "r1 \<noteq> [] \<longrightarrow> e1 \<noteq> []"
    "lo_out st'' = lo_out st' @ n2" "lo_errors st'' = lo_errors st' @ e2"
    "lo_resync_next st'' = lo_resync_next st' @ r2"
    "length (filter zero_width_closer n2) = length (filter reports_closer e2)"
    "filter kept_token n2 = ys" "r2 \<noteq> [] \<longrightarrow> e2 \<noteq> []"
    unfolding grows_def by metis
  then show ?thesis
    by (intro growsI [where new = "n1 @ n2" and errs = "e1 @ e2" and rs = "r1 @ r2"]) auto
qed

lemma grows_same:
  "lo_out st' = lo_out st \<Longrightarrow> lo_errors st' = lo_errors st \<Longrightarrow>
     lo_resync_next st' = lo_resync_next st \<Longrightarrow> grows st st' []"
  by (rule growsI [where new = "[]" and errs = "[]" and rs = "[]"]) simp_all

lemma closed_by_closer [simp]: "closed_by (closer l) = None"
  by (cases l) simp_all

lemma no_closer_tokens [simp]:
  "filter zero_width_closer (closer_tokens at ls) = []" "filter kept_token (closer_tokens at ls) = []"
  by (auto simp: closer_tokens_def zero_width_closer_def kept_token_def filter_empty_conv)

lemma missing_tokens_counts [simp]:
  "sp_start at = sp_end at \<Longrightarrow> filter zero_width_closer (missing_tokens at bs) = missing_tokens at bs"
  "filter kept_token (missing_tokens at bs) = []"
  "length (missing_tokens at bs) = length bs"
  by (auto simp: missing_tokens_def zero_width_closer_def kept_token_def filter_empty_conv filter_id_conv)

lemma reports_missing [simp]: "filter reports_closer (map missing_error bs) = map missing_error bs"
  by (auto simp: filter_id_conv reports_closer_def missing_error_def split: option.splits)

lemma no_reports [simp]:
  "\<not> reports_closer (InconsistentIndent s)" "\<not> reports_closer (UnmatchedClose s)"
  by (simp_all add: reports_closer_def)

lemma layout_token_counts [simp]:
  "\<not> zero_width_closer (T_Newline, s)" "\<not> zero_width_closer (T_Indent, s)"
  "\<not> zero_width_closer (T_BlockValueIndent, s)"
  "\<not> kept_token (T_Newline, s)" "\<not> kept_token (T_Indent, s)" "\<not> kept_token (T_BlockValueIndent, s)"
  "\<not> kept_token (close_token k, s)"
  by (simp_all add: zero_width_closer_def kept_token_def in_line_def layout_token_def)

subsection \<open>The methods\<close>

lemma statement_head_grows: "grows st (statement_head tok span st) []"
  by (rule grows_same) (simp_all add: statement_head_def Let_def)

lemma end_line_grows: "grows st (end_line span st) []"
  by (rule growsI [where new = "[(T_Newline, span)]" and errs = "[]" and rs = "[]"])
    (simp_all add: end_line_def push_out_def Let_def)

lemma settle_level_grows: "settle_level indent span st = Inr st' \<Longrightarrow> grows st st' []"
  by (auto simp: settle_level_def push_error_def split: if_splits Level.splits
      intro: grows_same growsI [where new = "[]" and errs = "[InconsistentIndent span]" and rs = "[]"])

lemma close_levels_grows:
  assumes "lo_indent_stack st \<noteq> []"
  shows "grows st (close_levels indent at st) []"
proof -
  obtain rest popped where "close_levels indent at st =
      st\<lparr>lo_indent_stack := rest, lo_out := lo_out st @ closer_tokens at (rev popped)\<rparr>"
    using close_levels_form [OF assms] by blast
  then show ?thesis
    by (intro growsI [where new = "closer_tokens at (rev popped)" and errs = "[]" and rs = "[]"]) simp_all
qed

lemma line_levels_grows:
  assumes "line_levels start indent span st = Inr st'"
  shows "grows st st' []"
proof -
  let ?st = "st\<lparr>lo_short_header := None\<rparr>"
  let ?at = "Span_new (lo_file st) (sp_start span) (sp_start span)"
  let ?in = "(T_Indent, Span_new (lo_file st) start (sp_start span))"
  from assms have ne: "lo_indent_stack st \<noteq> []" by (auto simp: line_levels_def split: if_splits)
  from assms consider "st' = push_out T_Indent (snd ?in)
        (?st\<lparr>lo_indent_stack := lo_indent_stack st @ [Fixed indent]\<rparr>)"
    | "settle_level indent span (close_levels indent ?at ?st) = Inr st'"
    by (auto simp: line_levels_def Let_def split: if_splits)
  then show ?thesis
  proof cases
    case 1
    then show ?thesis
      by (intro growsI [where new = "[?in]" and errs = "[]" and rs = "[]"]) (simp_all add: push_out_def)
  next
    case 2
    have "grows st ?st []" by (rule grows_same) simp_all
    from grows_trans [OF grows_trans [OF this close_levels_grows] settle_level_grows [OF 2]] ne
    show ?thesis by simp
  qed
qed

lemma line_start_grows:
  assumes "line_start tok span st = Inr st'"
  shows "grows st st' []"
proof -
  obtain start indent st1 where st1: "line_levels start indent span
      (st\<lparr>lo_line_indent := indent, lo_line_short := False\<rparr>) = Inr st1"
    "st' = statement_head tok span (st1\<lparr>lo_head_is_line_first := True\<rparr>)"
    using assms by (auto simp: line_start_def split: sum.splits)
  have "grows st (st\<lparr>lo_line_indent := indent, lo_line_short := False\<rparr>) []"
    by (rule grows_same) simp_all
  moreover have "grows st1 (st1\<lparr>lo_head_is_line_first := True\<rparr>) []" by (rule grows_same) simp_all
  ultimately show ?thesis
    using grows_trans grows_trans [OF grows_trans [OF _ line_levels_grows [OF st1(1)]]]
      statement_head_grows st1(2) by (metis append_Nil)
qed

lemma close_early_grows:
  "sp_start at = sp_end at \<Longrightarrow> grows st (close_early at st) []"
  by (rule growsI [where new = "missing_tokens at (takeWhile closes_early (rev (lo_brackets st)))"
        and errs = "map missing_error (takeWhile closes_early (rev (lo_brackets st)))" and rs = "[]"])
    (simp_all add: close_early_form)

lemma physical_line_grows:
  assumes "physical_line tok span newline st = Inr st'"
  shows "grows st st' []"
proof -
  let ?st = "st\<lparr>lo_brackets := rev (mark_ended (rev (lo_brackets st)))\<rparr>"
  let ?ce = "close_early (Span_new (lo_file st) (sp_start newline) (sp_start newline)) ?st"
  have "grows st ?st []" by (rule grows_same) simp_all
  from grows_trans [OF this close_early_grows] have ce: "grows st ?ce []" by simp
  from assms consider "st' = st" | "st' = ?ce" | "st' = end_line newline ?ce"
    by (auto simp: physical_line_def Let_def split: sum.splits if_splits)
  then show ?thesis
    using ce grows_refl grows_trans [OF ce end_line_grows] by cases auto
qed

lemma close_bracket_grows:
  assumes "sp_start span < sp_end span"
  shows "grows st (close_bracket k span st) []"
proof (cases "rposition (\<lambda>b. ob_kind b = k) (lo_brackets st)")
  case None
  then show ?thesis
    by (auto simp: close_bracket_def push_error_def intro: grows_same
        growsI [where new = "[]" and errs = "[UnmatchedClose span]" and rs = "[]"])
next
  case (Some i)
  let ?at = "Span_new (lo_file st) (sp_start span) (sp_start span)"
  let ?inner = "meet_stray k span (rev (drop (i + 1) (lo_brackets st)))"
  let ?m = "lo_brackets st ! i"
  show ?thesis
    by (rule growsI [where new = "missing_tokens ?at ?inner @ [(close_token k, span)]"
          and errs = "map missing_error ?inner @
            (case ob_stray ?m of Some (_, stray) \<Rightarrow> [UnmatchedClose stray] | None \<Rightarrow> [])"
          and rs = "if ?inner \<noteq> [] \<and> ob_statement_ended ?m then [ob_index ?m] else []"])
      (use assms in \<open>auto simp: close_bracket_form [OF Some] zero_width_closer_def
        split: option.splits if_splits\<close>)
qed

lemma place_token_grows:
  assumes "sp_start span < sp_end span" "\<not> layout_token tok"
  shows "grows st (place_token index tok span st) (filter kept_token [(tok, span)])"
proof -
  have push: "grows st st' [(tok, span)]"
    if "lo_out st' = lo_out st @ [(tok, span)]" "lo_errors st' = lo_errors st"
      "lo_resync_next st' = lo_resync_next st" "closed_by tok = None" "kept_token (tok, span)" for st'
    by (rule growsI [where new = "[(tok, span)]" and errs = "[]" and rs = "[]"])
      (use that in \<open>simp_all add: zero_width_closer_def\<close>)
  consider (op) k where "opened_by tok = Some k"
    | (cl) k where "opened_by tok = None" "closed_by tok = Some k"
    | (nl) "tok = T_Newline"
    | (pl) "opened_by tok = None" "closed_by tok = None" "tok \<noteq> T_Newline"
    by (metis option.exhaust)
  then show ?thesis
  proof cases
    case op
    then have "kept_token (tok, span)"
      using opened_by_in_line opened_not_closed by (simp add: kept_token_def)
    then show ?thesis
      using op opened_not_closed [OF op] by (simp add: place_token_def push push_out_def)
  next
    case cl
    then show ?thesis
      using close_bracket_grows [OF assms(1)] by (simp add: place_token_def kept_token_def)
  next
    case nl
    then show ?thesis
      by (auto simp: place_token_def end_line_grows intro: grows_same)
  next
    case pl
    then have "kept_token (tok, span)" using assms(2) by (simp add: kept_token_def in_line_def)
    moreover from this pl have "grows st (place_token index tok span st) [(tok, span)]"
      by (intro push) (simp_all add: place_token_def Let_def push_out_def)
    ultimately show ?thesis by simp
  qed
qed

lemma token_grows:
  assumes "token index tok span st = Inr st'" "sp_start span < sp_end span" "\<not> layout_token tok"
  shows "grows st st' (filter kept_token [(tok, span)])"
proof (cases "lo_at_line_start st \<and> tok = T_Newline")
  case True
  with assms(1) show ?thesis by (simp add: token_def grows_refl)
next
  case False
  then obtain st1 st2 where st: "resume_line tok span st = Inr st1" "begin_statement tok span st1 = Inr st2"
    "st' = place_token index tok span (st2\<lparr>lo_at_line_start := False\<rparr>)"
    using assms(1) by (auto simp: token_def split: sum.splits if_splits)
  have "grows st (st\<lparr>lo_dropped_newline := None\<rparr>) []" by (rule grows_same) simp_all
  from grows_trans [OF this physical_line_grows] have g1: "grows st st1 []"
    using st(1) grows_refl by (auto simp: resume_line_def split: if_splits option.splits)
  have g2: "grows st1 st2 []"
    using st(2) line_start_grows statement_head_grows grows_refl
    by (auto simp: begin_statement_def split: if_splits)
  have "grows st2 (st2\<lparr>lo_at_line_start := False\<rparr>) []" by (rule grows_same) simp_all
  from grows_trans [OF grows_trans [OF grows_trans [OF g1 g2] this] place_token_grows [OF assms(2,3)]]
  show ?thesis by (simp add: st(3))
qed

lemma run_tokens_grows:
  assumes "run_tokens index toks st = Inr st'"
    "list_all (\<lambda>(tok, span). \<not> layout_token tok \<and> sp_start span < sp_end span) toks"
  shows "grows st st' (filter kept_token toks)"
  using assms
proof (induction toks arbitrary: index st)
  case (Cons t toks)
  obtain tok span where t: "t = (tok, span)" by (cases t)
  then obtain st1 where st1: "token index tok span st = Inr st1" "run_tokens (Suc index) toks st1 = Inr st'"
    using Cons.prems(1) by (auto split: sum.splits)
  from grows_trans [OF token_grows [OF st1(1)] Cons.IH [OF st1(2)]] Cons.prems(2) show ?case
    by (simp add: t split: if_splits)
qed (simp add: grows_refl)

lemma insert_openers_filter:
  assumes "\<And>at. \<not> P (T_BlockValueIndent, Span_new f at at)"
  shows "filter P (fst (insert_openers f i toks ops)) = filter P toks"
proof (induction toks arbitrary: i ops)
  case (Cons tok toks)
  have "filter P (map (\<lambda>(_, at). (T_BlockValueIndent, Span_new f at at)) xs) = []" for xs :: "(nat \<times> nat) list"
    using assms by (auto simp: filter_empty_conv)
  with Cons show ?case by (auto split: prod.splits) (metis fst_conv)+
qed simp

lemma finish_grows:
  assumes "finish dbg st = Inr st'" "lo_indent_stack st \<noteq> []"
  shows "\<exists>st0. grows st st0 [] \<and> lo_errors st' = lo_errors st0 \<and>
    lo_resync_next st' = lo_resync_next st0 \<and>
    filter zero_width_closer (lo_out st') = filter zero_width_closer (lo_out st0) \<and>
    filter kept_token (lo_out st') = filter kept_token (lo_out st0)"
proof -
  let ?es = "Span_new (lo_file st) (str_len (lo_source st)) (str_len (lo_source st))"
  define st1 where "st1 = close_open ?es st"
  define st2 where "st2 = (if lo_out st1 \<noteq> [] \<and> fst (last (lo_out st1)) = T_Newline then st1
    else push_out T_Newline ?es st1)"
  define st3 where "st3 = dedent_all ?es st2"
  have "grows st st1 []"
    by (rule growsI [where new = "missing_tokens ?es (rev (lo_brackets st))"
          and errs = "map missing_error (rev (lo_brackets st))" and rs = "map ob_index (rev (lo_brackets st))"])
      (simp_all add: st1_def close_open_form)
  moreover have "grows st1 st2 []"
    by (auto simp: st2_def push_out_def intro: grows_refl
        growsI [where new = "[(T_Newline, ?es)]" and errs = "[]" and rs = "[]"])
  moreover have "lo_indent_stack st2 = lo_indent_stack st"
    by (auto simp: st2_def st1_def close_open_form push_out_def)
  with assms(2) obtain l ls where "lo_indent_stack st2 = l # ls"
    by (metis list.exhaust)
  then have "grows st2 st3 []"
    unfolding st3_def
    by (intro growsI [where new = "closer_tokens ?es (rev ls)" and errs = "[]" and rs = "[]"])
      (simp_all add: dedent_all_form)
  ultimately have "grows st st3 []" using grows_trans by (metis append_Nil)
  moreover from assms(1) have "st' = st3 \<or> st' = st3\<lparr>lo_out := fst (insert_openers (lo_file st3) 0
      (lo_out st3) (lo_block_value_indents st3))\<rparr>"
    unfolding finish_def Let_def st1_def [symmetric] st2_def [symmetric] st3_def [symmetric]
    by (auto split: if_splits prod.splits)
  ultimately show ?thesis
    by (intro exI [of _ st3]) (auto simp: insert_openers_filter)
qed

subsection \<open>A whole run\<close>

text \<open>
  The contract of a run over raw tokens, on which \<open>tokenize\<close> rests: it returns, the output nests
  and ends in a newline and closers, the closers it made are the ones it reported, the other
  raw tokens are kept in order, and a second run is asked for only beside an error.
\<close>

definition run_token :: "utext \<Rightarrow> Token \<times> Span \<Rightarrow> bool" where
  "run_token src t \<longleftrightarrow> raw_token src t \<and> sp_start (snd t) < sp_end (snd t)"

lemma Layout_run_total:
  assumes "list_all (run_token src) raw"
  shows "\<exists>st pre at ls. Layout_run dbg file src raw resync = Inr st \<and>
    nest (map fst (lo_out st)) [] = Some [] \<and>
    lo_out st = pre @ (T_Newline, at) # closer_tokens (Span_new file (str_len src) (str_len src)) ls \<and>
    length (filter zero_width_closer (lo_out st)) = length (filter reports_closer (lo_errors st)) \<and>
    filter kept_token (lo_out st) = filter kept_token raw \<and>
    (lo_resync_next st \<noteq> [] \<longrightarrow> lo_errors st \<noteq> [])"
proof -
  let ?st0 = "initial_layout file src resync"
  have src: "lo_source ?st0 = src" "lo_file ?st0 = file" by (simp_all add: initial_layout_def)
  have "list_all (raw_token (lo_source ?st0)) raw"
    using assms by (auto simp: list_all_iff run_token_def src)
  then obtain st1 where st1: "run_tokens 0 raw ?st0 = Inr st1" "lay_inv st1" "frame ?st0 st1"
    using run_tokens_total [OF initial_layout_inv] by blast
  obtain st pre at ls where fin: "finish dbg st1 = Inr st" "nest (map fst (lo_out st)) [] = Some []"
    "lo_out st = pre @ (T_Newline, at) # closer_tokens (Span_new file (str_len src) (str_len src)) ls"
    using finish_total [OF st1(2), of dbg] st1(3) src by (auto simp: frame_def)
  have "list_all (\<lambda>(tok, span). \<not> layout_token tok \<and> sp_start span < sp_end span) raw"
    using assms by (auto simp: list_all_iff run_token_def raw_token_def)
  from run_tokens_grows [OF st1(1) this] have g1: "grows ?st0 st1 (filter kept_token raw)" .
  obtain st2 where st2: "grows st1 st2 []" "lo_errors st = lo_errors st2"
    "lo_resync_next st = lo_resync_next st2"
    "filter zero_width_closer (lo_out st) = filter zero_width_closer (lo_out st2)"
    "filter kept_token (lo_out st) = filter kept_token (lo_out st2)"
    using finish_grows [OF fin(1)] st1(2) by (auto simp: lay_inv_def base_inv_def)
  from grows_trans [OF g1 st2(1)] have "grows ?st0 st2 (filter kept_token raw)" by simp
  then have "length (filter zero_width_closer (lo_out st2)) = length (filter reports_closer (lo_errors st2))"
    "filter kept_token (lo_out st2) = filter kept_token raw"
    "lo_resync_next st2 \<noteq> [] \<longrightarrow> lo_errors st2 \<noteq> []"
    by (auto simp: grows_def initial_layout_def)
  with fin st1(1) st2 show ?thesis
    by (intro exI [of _ st] exI [of _ pre] exI [of _ at] exI [of _ ls]) (simp add: Layout_run_def)
qed

end
