(* ===== verification/Layout_Spans.thy ===== *)
theory Layout_Spans
  imports Layout_Accounting
begin

section \<open>The spans of the layout pass\<close>

text \<open>
  Every span the pass writes, of a token or of an error, lies in the source and starts and ends on
  character boundaries. The invariant holds the spans the state keeps for later: those of the open
  brackets, of the close brackets they met, of a dropped newline, and the offsets of the heads.
\<close>

definition text_span :: "utext \<Rightarrow> Span \<Rightarrow> bool" where
  "text_span src s \<longleftrightarrow>
     sp_start s \<le> sp_end s \<and> is_char_boundary src (sp_start s) \<and> is_char_boundary src (sp_end s)"

definition error_in_text :: "utext \<Rightarrow> LexError \<Rightarrow> bool" where
  "error_in_text src e \<longleftrightarrow>
     text_span src (error_span e) \<and> (\<forall>p \<in> set_option (related e). text_span src (fst p))"

definition bracket_in_text :: "utext \<Rightarrow> OpenBracket \<Rightarrow> bool" where
  "bracket_in_text src b \<longleftrightarrow>
     text_span src (ob_span b) \<and> (\<forall>p \<in> set_option (ob_stray b). text_span src (snd p))"

definition spans_inv :: "utext \<Rightarrow> Layout \<Rightarrow> bool" where
  "spans_inv src st \<longleftrightarrow>
     lo_source st = src \<and> list_all (\<lambda>t. text_span src (snd t)) (lo_out st) \<and>
     list_all (error_in_text src) (lo_errors st) \<and> list_all (bracket_in_text src) (lo_brackets st) \<and>
     (\<forall>s \<in> set_option (lo_dropped_newline st). text_span src s) \<and>
     is_char_boundary src (snd (lo_line_head st)) \<and>
     list_all (\<lambda>p. is_char_boundary src (snd p)) (lo_block_value_indents st)"

lemma text_span_bounds:
  "text_span src s \<Longrightarrow> sp_start s \<le> str_len src \<and> sp_end s \<le> str_len src"
  by (auto simp: text_span_def is_char_boundary_def)

lemma text_span_point [simp]: "text_span src (Span_new f a a) \<longleftrightarrow> is_char_boundary src a"
  by (simp add: text_span_def)

lemma text_span_startD: "text_span src s \<Longrightarrow> is_char_boundary src (sp_start s)"
  by (simp add: text_span_def)

lemma error_in_text_simps [simp]:
  "error_in_text src (InvalidToken s) = text_span src s"
  "error_in_text src (UnterminatedString s) = text_span src s"
  "error_in_text src (DetachedBacktick s) = text_span src s"
  "error_in_text src (UnmatchedClose s) = text_span src s"
  "error_in_text src (UnclosedBracket s) = text_span src s"
  "error_in_text src (InconsistentIndent s) = text_span src s"
  "error_in_text src (MismatchedClose s k t l) = (text_span src s \<and> text_span src t)"
  by (simp_all add: error_in_text_def related_def)

lemma missing_error_in_text: "bracket_in_text src b \<Longrightarrow> error_in_text src (missing_error b)"
  by (auto simp: missing_error_def bracket_in_text_def split: option.splits)

lemma missing_errors_in_text:
  "list_all (bracket_in_text src) bs \<Longrightarrow> list_all (error_in_text src) (map missing_error bs)"
  by (auto simp: list_all_iff missing_error_in_text)

lemma missing_tokens_in_text [simp]:
  "text_span src at \<Longrightarrow> list_all (\<lambda>t. text_span src (snd t)) (missing_tokens at bs)"
  by (auto simp: missing_tokens_def list_all_iff)

lemma closer_tokens_in_text [simp]:
  "text_span src at \<Longrightarrow> list_all (\<lambda>t. text_span src (snd t)) (closer_tokens at ls)"
  by (auto simp: closer_tokens_def list_all_iff)

subsection \<open>The column of a token\<close>

lemma char_index_split:
  "(i, c) \<in> set (char_indices_from k t) \<Longrightarrow> \<exists>s u. t = s @ c # u \<and> i = k + str_len s"
proof (induction t arbitrary: k)
  case (Cons x t)
  show ?case
  proof (cases "(i, c) = (k, x)")
    case True
    then show ?thesis by (intro exI [of _ "[]"] exI [of _ t]) simp
  next
    case False
    with Cons.prems have "(i, c) \<in> set (char_indices_from (k + len_utf8 x) t)" by auto
    from Cons.IH [OF this] obtain s u where "t = s @ c # u" "i = k + len_utf8 x + str_len s" by blast
    then show ?thesis by (intro exI [of _ "x # s"] exI [of _ u]) simp
  qed
qed simp

lemma rfind_split:
  assumes "rfind c t = Some i"
  shows "\<exists>s u. t = s @ c # u \<and> i = str_len s"
proof -
  let ?hits = "filter (\<lambda>(i, d). d = c) (char_indices t)"
  from assms have "?hits \<noteq> []" "i = fst (last ?hits)" by (auto simp: rfind_def Let_def split: if_splits)
  then have "(i, c) \<in> set (char_indices_from 0 t)"
    using last_in_set [of ?hits] by (auto simp: char_indices_def)
  from char_index_split [OF this] show ?thesis by simp
qed

lemma column_boundary:
  assumes "column st span = Inr (start, indent)" "lo_source st = src"
    "is_char_boundary src (sp_start span)"
  shows "is_char_boundary src start" "start \<le> sp_start span"
proof -
  obtain s u where su: "src = s @ u" "sp_start span = str_len s"
    using assms(3) char_boundary_iff by blast
  have slice: "str_slice src 0 (sp_start span) = Inr s"
    using str_slice_append [of "[]" s u] by (simp add: su)
  have start: "start = (case rfind 10 s of Some i \<Rightarrow> i + 1 | None \<Rightarrow> 0)" "start \<le> sp_start span"
    using assms(1) by (auto simp: column_def assms(2) slice Let_def split: if_splits)
  then show "start \<le> sp_start span" by simp
  show "is_char_boundary src start"
  proof (cases "rfind 10 s")
    case None
    then show ?thesis using start by (simp add: is_char_boundary_def)
  next
    case (Some i)
    obtain a b where ab: "s = a @ 10 # b" "i = str_len a" using rfind_split [OF Some] by blast
    then have "src = (a @ [10]) @ b @ u" "start = str_len (a @ [10])"
      using start(1) Some by (simp_all add: su len_utf8_def)
    then show ?thesis using is_char_boundary_prefix by metis
  qed
qed

subsection \<open>The methods\<close>

lemma push_out_spans:
  "spans_inv src st \<Longrightarrow> text_span src span \<Longrightarrow> spans_inv src (push_out tok span st)"
  by (simp add: spans_inv_def push_out_def)

lemma push_error_spans:
  "spans_inv src st \<Longrightarrow> error_in_text src e \<Longrightarrow> spans_inv src (push_error e st)"
  by (simp add: spans_inv_def push_error_def)

lemma statement_head_spans:
  "spans_inv src st \<Longrightarrow> is_char_boundary src (sp_start span) \<Longrightarrow> spans_inv src (statement_head tok span st)"
  by (simp add: spans_inv_def statement_head_def Let_def)

lemma end_line_spans:
  "spans_inv src st \<Longrightarrow> text_span src span \<Longrightarrow> spans_inv src (end_line span st)"
  by (simp add: spans_inv_def end_line_def push_out_def Let_def)

lemma close_levels_spans:
  "spans_inv src st \<Longrightarrow> text_span src at \<Longrightarrow> spans_inv src (close_levels indent at st)"
proof (induction indent at st rule: close_levels.induct)
  case (1 indent at st)
  let ?st = "push_out (closer (last (lo_indent_stack st))) at
    (st\<lparr>lo_indent_stack := butlast (lo_indent_stack st)\<rparr>)"
  have "spans_inv src ?st" using 1(2,3) by (intro push_out_spans) (simp_all add: spans_inv_def)
  with 1 show ?case by (simp add: close_levels.simps [of indent at st])
qed

lemma settle_level_spans:
  assumes "settle_level indent span st = Inr st'" "spans_inv src st" "text_span src span"
  shows "spans_inv src st'"
  using assms
  by (auto simp: settle_level_def spans_inv_def push_error_def split: if_splits Level.splits)

lemma line_levels_spans:
  assumes "line_levels start indent span st = Inr st'" "spans_inv src st" "text_span src span"
    "is_char_boundary src start" "start \<le> sp_start span"
  shows "spans_inv src st'"
proof -
  let ?st = "st\<lparr>lo_short_header := None\<rparr>"
  let ?at = "Span_new (lo_file st) (sp_start span) (sp_start span)"
  have inv: "spans_inv src ?st" using assms(2) by (simp add: spans_inv_def)
  from assms(1) consider "st' = push_out T_Indent (Span_new (lo_file st) start (sp_start span))
        (?st\<lparr>lo_indent_stack := lo_indent_stack st @ [Fixed indent]\<rparr>)"
    | "settle_level indent span (close_levels indent ?at ?st) = Inr st'"
    by (auto simp: line_levels_def Let_def split: if_splits)
  then show ?thesis
  proof cases
    case 1
    with inv assms(3-5) show ?thesis by (auto simp: spans_inv_def push_out_def text_span_def)
  next
    case 2
    from settle_level_spans [OF this close_levels_spans [OF inv] assms(3)] assms(3) show ?thesis
      by (simp add: text_span_startD)
  qed
qed

lemma line_start_spans:
  assumes "line_start tok span st = Inr st'" "spans_inv src st" "text_span src span"
  shows "spans_inv src st'"
proof -
  obtain start indent st1 where st1: "column st span = Inr (start, indent)" "line_levels start indent span
      (st\<lparr>lo_line_indent := indent, lo_line_short := False\<rparr>) = Inr st1"
    "st' = statement_head tok span (st1\<lparr>lo_head_is_line_first := True\<rparr>)"
    using assms(1) by (auto simp: line_start_def split: sum.splits)
  note start = column_boundary [OF st1(1) _ text_span_startD [OF assms(3)]]
  have "spans_inv src (st\<lparr>lo_line_indent := indent, lo_line_short := False\<rparr>)" "lo_source st = src"
    using assms(2) by (simp_all add: spans_inv_def)
  then have "spans_inv src st1" using line_levels_spans [OF st1(2) _ assms(3)] start by blast
  then have "spans_inv src (st1\<lparr>lo_head_is_line_first := True\<rparr>)" by (simp add: spans_inv_def)
  then show ?thesis using assms(3) by (simp add: st1(3) statement_head_spans text_span_startD)
qed

lemma mark_ended_in_text:
  "list_all (bracket_in_text src) bs \<Longrightarrow> list_all (bracket_in_text src) (mark_ended bs)"
  by (induction bs rule: mark_ended.induct) (auto simp: bracket_in_text_def)

lemma list_all_takeWhile: "list_all P xs \<Longrightarrow> list_all P (takeWhile Q xs)"
  by (auto simp: list_all_iff dest: set_takeWhileD)

lemma list_all_dropWhile: "list_all P xs \<Longrightarrow> list_all P (dropWhile Q xs)"
  by (auto simp: list_all_iff dest: set_dropWhileD)

lemma close_early_spans:
  assumes "spans_inv src st" "text_span src at"
  shows "spans_inv src (close_early at st)"
  using assms missing_errors_in_text [OF list_all_takeWhile, of src "rev (lo_brackets st)" closes_early]
  by (simp add: spans_inv_def close_early_form list_all_dropWhile)

lemma physical_line_spans:
  assumes "physical_line tok span newline st = Inr st'" "spans_inv src st" "text_span src newline"
  shows "spans_inv src st'"
proof -
  let ?st = "st\<lparr>lo_brackets := rev (mark_ended (rev (lo_brackets st)))\<rparr>"
  let ?ce = "close_early (Span_new (lo_file st) (sp_start newline) (sp_start newline)) ?st"
  have "spans_inv src ?st" using assms(2) by (simp add: spans_inv_def mark_ended_in_text)
  then have ce: "spans_inv src ?ce" using assms(3) by (simp add: close_early_spans text_span_startD)
  from assms(1) consider "st' = st" | "st' = ?ce" | "st' = end_line newline ?ce"
    by (auto simp: physical_line_def Let_def split: sum.splits if_splits)
  then show ?thesis using ce assms(2) end_line_spans [OF ce assms(3)] by cases auto
qed

lemma meet_stray_in_text:
  "list_all (bracket_in_text src) bs \<Longrightarrow> text_span src span \<Longrightarrow>
     list_all (bracket_in_text src) (meet_stray k span bs)"
  by (cases bs) (auto simp: meet_stray_def bracket_in_text_def split: option.splits)

lemma close_bracket_spans:
  assumes "spans_inv src st" "text_span src span"
  shows "spans_inv src (close_bracket k span st)"
proof (cases "rposition (\<lambda>b. ob_kind b = k) (lo_brackets st)")
  case None
  have "bracket_in_text src (last (lo_brackets st))" "list_all (bracket_in_text src) (butlast (lo_brackets st))"
    if "lo_brackets st \<noteq> []"
    using assms(1) that by (auto simp: spans_inv_def list_all_iff dest: in_set_butlastD)
  with None assms show ?thesis
    by (auto simp: close_bracket_def push_error_def spans_inv_def bracket_in_text_def)
next
  case (Some i)
  let ?inner = "meet_stray k span (rev (drop (i + 1) (lo_brackets st)))"
  have i: "i < length (lo_brackets st)" using Some rposition_Some by blast
  have all: "list_all (bracket_in_text src) (lo_brackets st)" using assms(1) by (simp add: spans_inv_def)
  have "list_all (bracket_in_text src) (rev (drop (i + 1) (lo_brackets st)))"
    "list_all (bracket_in_text src) (take i (lo_brackets st))" "bracket_in_text src (lo_brackets st ! i)"
    using all i by (auto simp: list_all_iff dest: in_set_dropD in_set_takeD)
  with missing_errors_in_text [OF meet_stray_in_text [OF this(1) assms(2)], of k] assms show ?thesis
    by (auto simp: close_bracket_form [OF Some] spans_inv_def bracket_in_text_def text_span_startD
        split: option.splits)
qed

lemma place_token_spans:
  assumes "spans_inv src st" "text_span src span"
  shows "spans_inv src (place_token index tok span st)"
  using assms close_bracket_spans [OF assms] end_line_spans [OF assms]
  by (auto simp: place_token_def Let_def push_out_def split: option.splits)
    (auto simp: spans_inv_def bracket_in_text_def)

lemma token_spans:
  assumes "token index tok span st = Inr st'" "spans_inv src st" "text_span src span"
  shows "spans_inv src st'"
proof (cases "lo_at_line_start st \<and> tok = T_Newline")
  case True
  with assms show ?thesis by (simp add: token_def)
next
  case False
  then obtain st1 st2 where st: "resume_line tok span st = Inr st1" "begin_statement tok span st1 = Inr st2"
    "st' = place_token index tok span (st2\<lparr>lo_at_line_start := False\<rparr>)"
    using assms(1) by (auto simp: token_def split: sum.splits if_splits)
  have "spans_inv src (st\<lparr>lo_dropped_newline := None\<rparr>)" using assms(2) by (simp add: spans_inv_def)
  then have "spans_inv src st1"
    using st(1) assms(2) physical_line_spans [where st = "st\<lparr>lo_dropped_newline := None\<rparr>"]
    by (auto simp: resume_line_def spans_inv_def split: if_splits option.splits)
  then have "spans_inv src st2"
    using st(2) assms(3) line_start_spans statement_head_spans text_span_startD
    by (auto simp: begin_statement_def split: if_splits)
  then have "spans_inv src (st2\<lparr>lo_at_line_start := False\<rparr>)" by (simp add: spans_inv_def)
  then show ?thesis using assms(3) by (simp add: st(3) place_token_spans)
qed

lemma run_tokens_spans:
  assumes "run_tokens index toks st = Inr st'" "spans_inv src st"
    "list_all (\<lambda>t. text_span src (snd t)) toks"
  shows "spans_inv src st'"
  using assms
proof (induction toks arbitrary: index st)
  case (Cons t toks)
  then obtain st1 where "token index (fst t) (snd t) st = Inr st1"
    "run_tokens (Suc index) toks st1 = Inr st'" by (cases t) (auto split: sum.splits)
  with Cons.IH [of "Suc index" st1] token_spans [of index "fst t" "snd t" st st1 src] Cons.prems
  show ?case by simp
qed simp

lemma insert_openers_spans:
  assumes "list_all (\<lambda>t. text_span src (snd t)) toks" "list_all (\<lambda>p. is_char_boundary src (snd p)) ops"
  shows "list_all (\<lambda>t. text_span src (snd t)) (fst (insert_openers f i toks ops))"
  using assms
proof (induction toks arbitrary: i ops)
  case (Cons t toks)
  have "list_all (\<lambda>p. is_char_boundary src (snd p)) (dropWhile (\<lambda>(b, _). b = i) ops)"
    using Cons.prems(2) by (rule list_all_dropWhile)
  with Cons.IH [of _ "Suc i"] Cons.prems(1)
  have "list_all (\<lambda>t. text_span src (snd t))
      (fst (insert_openers f (Suc i) toks (dropWhile (\<lambda>(b, _). b = i) ops)))" by simp
  moreover have "list_all (\<lambda>t. text_span src (snd t))
      (map (\<lambda>(_, at). (T_BlockValueIndent, Span_new f at at)) (takeWhile (\<lambda>(b, _). b = i) ops))"
    using Cons.prems(2) by (fastforce simp: list_all_iff dest: set_takeWhileD)
  ultimately show ?case using Cons.prems(1) by (auto simp: Let_def split: prod.splits)
qed simp

lemma finish_spans:
  assumes "finish dbg st = Inr st'" "spans_inv src st" "lo_indent_stack st \<noteq> []"
  shows "list_all (\<lambda>t. text_span src (snd t)) (lo_out st') \<and> list_all (error_in_text src) (lo_errors st')"
proof -
  let ?es = "Span_new (lo_file st) (str_len src) (str_len src)"
  have src: "lo_source st = src" using assms(2) by (simp add: spans_inv_def)
  have es: "text_span src ?es" by (simp add: is_char_boundary_def)
  define st1 where "st1 = close_open ?es st"
  define st2 where "st2 = (if lo_out st1 \<noteq> [] \<and> fst (last (lo_out st1)) = T_Newline then st1
    else push_out T_Newline ?es st1)"
  define st3 where "st3 = dedent_all ?es st2"
  have "spans_inv src st1"
    using assms(2) es missing_errors_in_text [of src "rev (lo_brackets st)"]
    by (simp add: st1_def close_open_form spans_inv_def)
  then have inv2: "spans_inv src st2" using es by (simp add: st2_def push_out_spans)
  have "lo_indent_stack st2 = lo_indent_stack st"
    by (auto simp: st2_def st1_def close_open_form push_out_def)
  with assms(3) obtain l ls where "lo_indent_stack st2 = l # ls" by (metis list.exhaust)
  with inv2 es have inv3: "spans_inv src st3" by (simp add: st3_def dedent_all_form spans_inv_def)
  from assms(1) have "st' = st3 \<or> st' = st3\<lparr>lo_out := fst (insert_openers (lo_file st3) 0
      (lo_out st3) (lo_block_value_indents st3))\<rparr>"
    unfolding finish_def Let_def src st1_def [symmetric] st2_def [symmetric] st3_def [symmetric]
    by (auto split: if_splits prod.splits)
  then show ?thesis using inv3 by (auto simp: spans_inv_def insert_openers_spans)
qed

lemma Layout_run_spans:
  assumes "Layout_run dbg file src raw resync = Inr st" "list_all (\<lambda>t. text_span src (snd t)) raw"
    "list_all (raw_token src) raw"
  shows "list_all (\<lambda>t. text_span src (snd t)) (lo_out st) \<and> list_all (error_in_text src) (lo_errors st)"
proof -
  let ?st0 = "initial_layout file src resync"
  obtain st1 where st1: "run_tokens 0 raw ?st0 = Inr st1" "finish dbg st1 = Inr st"
    using assms(1) by (auto simp: Layout_run_def split: sum.splits)
  have "spans_inv src ?st0" by (simp add: spans_inv_def initial_layout_def is_char_boundary_def)
  from run_tokens_spans [OF st1(1) this assms(2)] have "spans_inv src st1" .
  moreover have "list_all (raw_token (lo_source ?st0)) raw"
    using assms(3) by (simp add: initial_layout_def)
  from run_tokens_total [OF initial_layout_inv this, of 0] st1(1) have "lay_inv st1" by auto
  then have "lo_indent_stack st1 \<noteq> []" by (simp add: lay_inv_def base_inv_def)
  ultimately show ?thesis using finish_spans [OF st1(2)] by blast
qed

end
