(* ===== verification/Raw_Tokens.thy ===== *)
theory Raw_Tokens
  imports Layout_Spans Literals
begin

section \<open>Raw tokens\<close>

text \<open>
  \<open>raw_tokens\<close> and \<open>tokenize\<close> of \<open>chl-parser/src/lexer.rs\<close>. The lexer that the \<open>logos\<close> derive
  generates is a parameter: \<open>next_tok src pos\<close> is what \<open>Lexer::next\<close> returns when the token before it
  ended at \<open>pos\<close>, with the span \<open>Lexer::span\<close> then has. The loop that drives it is a
  \<open>partial_function\<close>, so that a lexer that never ends gives \<open>None\<close>; what the code relies on is
  the locale \<open>logos_lexer\<close>.
\<close>

subsection \<open>The operations\<close>

type_synonym lexer = "utext \<Rightarrow> nat \<Rightarrow> (Token option \<times> nat \<times> nat) option"

record Lexed =
  lx_tokens :: "(Token \<times> Span) list"
  lx_errors :: "LexError list"

record RawTokens =
  rt_tokens :: "(Token \<times> Span) list"
  rt_errors :: "LexError list"
  rt_detached :: "nat list"

definition merges_invalid :: "Span \<Rightarrow> (Token \<times> Span) list \<Rightarrow> LexError list \<Rightarrow> bool" where
  "merges_invalid span tokens errors \<longleftrightarrow>
     tokens \<noteq> [] \<and> errors \<noteq> [] \<and> fst (last tokens) = T_Error \<and>
     (case last errors of InvalidToken _ \<Rightarrow> True | _ \<Rightarrow> False) \<and>
     sp_end (snd (last tokens)) = sp_start span"

definition push_invalid ::
  "Span \<Rightarrow> (Token \<times> Span) list \<Rightarrow> LexError list \<Rightarrow> (Token \<times> Span) list \<times> LexError list" where
  "push_invalid span tokens errors =
     (if merges_invalid span tokens errors
      then (butlast tokens @ [(T_Error, (snd (last tokens))\<lparr>sp_end := sp_end span\<rparr>)],
            butlast errors @ [InvalidToken ((error_span (last errors))\<lparr>sp_end := sp_end span\<rparr>)])
      else (tokens @ [(T_Error, span)], errors @ [InvalidToken span]))"

text \<open>
  The rest of the line after an opening quote: the end of its line and the string's text, with the
  checks of the subtraction, of \<open>Lexer::bump\<close> and of the slice.
\<close>

definition unterminated :: "utext \<Rightarrow> nat \<Rightarrow> nat \<Rightarrow> utext \<Rightarrow> (nat \<times> utext) res" where
  "unterminated src start fin rest =
     (let line_end = (case find_char 10 rest of Some i \<Rightarrow> start + i | None \<Rightarrow> str_len src) in
      if line_end < fin then Inl Overflow
      else if \<not> is_char_boundary src line_end then Inl AssertFailed
      else map_ok (\<lambda>body. (line_end, body)) (str_slice src (start + len_utf8 (hd rest)) line_end))"

partial_function (option) raw_loop ::
  "lexer \<Rightarrow> FileId \<Rightarrow> utext \<Rightarrow> nat \<Rightarrow> (Token \<times> Span) list \<Rightarrow> LexError list \<Rightarrow>
     ((Token \<times> Span) list \<times> LexError list) res option" where
  "raw_loop next_tok file src pos tokens errors =
     (case next_tok src pos of
        None \<Rightarrow> Some (Inr (tokens, errors))
      | Some (Some tok, start, fin) \<Rightarrow>
          raw_loop next_tok file src fin (tokens @ [(tok, Span_new file start fin)]) errors
      | Some (None, start, fin) \<Rightarrow>
          (case str_slice src start (str_len src) of
             Inl p \<Rightarrow> Some (Inl p)
           | Inr rest \<Rightarrow>
               if rest \<noteq> [] \<and> (hd rest = 34 \<or> hd rest = 39) then
                 (case unterminated src start fin rest of
                    Inl p \<Rightarrow> Some (Inl p)
                  | Inr (line_end, body) \<Rightarrow>
                      raw_loop next_tok file src line_end
                        (tokens @ [(T_String (unescape body), Span_new file start line_end)])
                        (errors @
                          [UnterminatedString (Span_new file start (start + len_utf8 (hd rest)))]))
               else
                 (case push_invalid (Span_new file start fin) tokens errors of
                    (tokens, errors) \<Rightarrow> raw_loop next_tok file src fin tokens errors)))"

declare raw_loop.simps [code]

definition is_ident :: "Token \<Rightarrow> bool" where
  "is_ident tok = (case tok of T_Ident _ \<Rightarrow> True | _ \<Rightarrow> False)"

fun detached_backticks :: "nat \<Rightarrow> (Token \<times> Span) list \<Rightarrow> (nat \<times> Span) list" where
  "detached_backticks i [] = []"
| "detached_backticks i ((tok, span) # toks) =
     (if tok \<noteq> T_Backtick then detached_backticks (Suc i) toks
      else if toks \<noteq> [] \<and> is_ident (fst (hd toks)) \<and> sp_start (snd (hd toks)) = sp_end span
        then detached_backticks (Suc i) toks
      else (i, span) # detached_backticks (Suc i) toks)"

definition sort_errors :: "LexError list \<Rightarrow> LexError list" where
  "sort_errors es = sort_key (\<lambda>e. sp_start (error_span e)) es"

definition raw_tokens :: "lexer \<Rightarrow> FileId \<Rightarrow> utext \<Rightarrow> RawTokens res option" where
  "raw_tokens next_tok file src =
     map_option
       (map_ok (\<lambda>(tokens, errors).
          let detached = detached_backticks 0 tokens in
          \<lparr>rt_tokens = tokens,
           rt_errors = sort_errors (errors @ map (\<lambda>(_, span). DetachedBacktick span) detached),
           rt_detached = map fst detached\<rparr>))
       (raw_loop next_tok file src 0 [] [])"

definition drop_detached :: "RawTokens \<Rightarrow> (Token \<times> Span) list" where
  "drop_detached raw =
     map snd (filter (\<lambda>(i, _). i \<notin> set (rt_detached raw)) (enumerate 0 (rt_tokens raw)))"

text \<open>The two layout runs: the second only when the first asks for it.\<close>

definition lay_out :: "bool \<Rightarrow> FileId \<Rightarrow> utext \<Rightarrow> (Token \<times> Span) list \<Rightarrow> Layout res" where
  "lay_out dbg file src tokens =
     (case Layout_run dbg file src tokens [] of
        Inl p \<Rightarrow> Inl p
      | Inr first \<Rightarrow>
          if lo_resync_next first = [] then Inr first
          else if dbg \<and> lo_errors first = [] then Inl AssertFailed
          else Layout_run dbg file src tokens (remdups_adj (sort (lo_resync_next first))))"

definition tokenize :: "lexer \<Rightarrow> bool \<Rightarrow> FileId \<Rightarrow> utext \<Rightarrow> Lexed res option" where
  "tokenize next_tok dbg file src =
     map_option
       (\<lambda>r. case r of
          Inl p \<Rightarrow> Inl p
        | Inr raw \<Rightarrow>
            (case lay_out dbg file src (drop_detached raw) of
               Inl p \<Rightarrow> Inl p
             | Inr laid \<Rightarrow>
                 if dbg \<and> length (filter (\<lambda>(tok, span).
                        closed_by tok \<noteq> None \<and> sp_start span = sp_end span) (lo_out laid)) \<noteq>
                      length (filter (\<lambda>e. case e of
                          UnclosedBracket _ \<Rightarrow> True | MismatchedClose _ _ _ _ \<Rightarrow> True | _ \<Rightarrow> False)
                        (lo_errors laid))
                 then Inl AssertFailed
                 else Inr \<lparr>lx_tokens = lo_out laid,
                           lx_errors = sort_errors (rt_errors raw @ lo_errors laid)\<rparr>))
       (raw_tokens next_tok file src)"

subsection \<open>What the lexer promises\<close>

text \<open>
  The contract of \<open>Lexer::next\<close> on the rules of the token enum. It moves forward over whole
  characters. It makes none of the tokens the layout pass makes. What it skips is a gap: blanks and
  then at most a comment. A newline is the text of the newline token and in no other span, since
  every rule but that one excludes it.
\<close>

definition is_blank :: "nat \<Rightarrow> bool" where
  "is_blank c \<longleftrightarrow> c = 32 \<or> c = 9"

definition is_gap :: "utext \<Rightarrow> bool" where
  "is_gap g \<longleftrightarrow>
     (\<exists>ws c. g = ws @ c \<and> list_all is_blank ws \<and> (c = [] \<or> hd c = 35 \<and> 10 \<notin> set c))"

definition gap_between :: "utext \<Rightarrow> nat \<Rightarrow> nat \<Rightarrow> bool" where
  "gap_between src a b \<longleftrightarrow> (\<exists>g. str_slice src a b = Inr g \<and> is_gap g)"

definition token_text :: "utext \<Rightarrow> Token option \<Rightarrow> nat \<Rightarrow> nat \<Rightarrow> bool" where
  "token_text src r a b \<longleftrightarrow>
     (\<exists>x. str_slice src a b = Inr x \<and> (if r = Some T_Newline then x = [10] else 10 \<notin> set x))"

locale logos_lexer =
  fixes next_tok :: lexer
  assumes progress: "is_char_boundary src pos \<Longrightarrow> next_tok src pos = Some (r, a, b) \<Longrightarrow> pos \<le> a \<and> a < b"
    and not_synthesised: "next_tok src pos = Some (Some tok, a, b) \<Longrightarrow>
      \<not> layout_token tok \<and> tok \<noteq> T_Error"
    and skips_gap: "is_char_boundary src pos \<Longrightarrow> next_tok src pos = Some (r, a, b) \<Longrightarrow>
      gap_between src pos a"
    and ends_in_gap: "is_char_boundary src pos \<Longrightarrow> next_tok src pos = None \<Longrightarrow>
      gap_between src pos (str_len src)"
    and matched_text: "is_char_boundary src pos \<Longrightarrow> next_tok src pos = Some (r, a, b) \<Longrightarrow>
      token_text src r a b"

subsection \<open>The invariant of the loop\<close>

text \<open>Spans in source order, each of at least one byte, between \<open>lo\<close> and \<open>hi\<close>.\<close>

fun ordered :: "nat \<Rightarrow> ('a \<times> Span) list \<Rightarrow> nat \<Rightarrow> bool" where
  "ordered lo [] hi = (lo \<le> hi)"
| "ordered lo (t # ts) hi =
     (lo \<le> sp_start (snd t) \<and> sp_start (snd t) < sp_end (snd t) \<and> ordered (sp_end (snd t)) ts hi)"

definition token_span_ok :: "FileId \<Rightarrow> utext \<Rightarrow> Token \<times> Span \<Rightarrow> bool" where
  "token_span_ok file src t \<longleftrightarrow>
     sp_file (snd t) = file \<and> is_char_boundary src (sp_start (snd t)) \<and>
     is_char_boundary src (sp_end (snd t)) \<and> \<not> layout_token (fst t)"

definition is_invalid :: "LexError \<Rightarrow> bool" where
  "is_invalid e = (case e of InvalidToken _ \<Rightarrow> True | _ \<Rightarrow> False)"

text \<open>Gaps and token texts alternate from \<open>lo\<close> to the end of the last token.\<close>

fun gap_chain :: "utext \<Rightarrow> nat \<Rightarrow> (Token \<times> Span) list \<Rightarrow> nat \<Rightarrow> bool" where
  "gap_chain src lo [] pos = (lo = pos)"
| "gap_chain src lo (t # ts) pos =
     (gap_between src lo (sp_start (snd t)) \<and>
      token_text src (Some (fst t)) (sp_start (snd t)) (sp_end (snd t)) \<and>
      gap_chain src (sp_end (snd t)) ts pos)"

text \<open>No two \<open>Error\<close> tokens touch.\<close>

definition apart :: "Token \<times> Span \<Rightarrow> Token \<times> Span \<Rightarrow> bool" where
  "apart s t \<longleftrightarrow> \<not> (fst s = T_Error \<and> fst t = T_Error \<and> sp_end (snd s) = sp_start (snd t))"

definition error_runs :: "(Token \<times> Span) list \<Rightarrow> Span list" where
  "error_runs toks = map snd (filter (\<lambda>t. fst t = T_Error) toks)"

definition raw_inv ::
  "FileId \<Rightarrow> utext \<Rightarrow> nat \<Rightarrow> (Token \<times> Span) list \<Rightarrow> LexError list \<Rightarrow> bool" where
  "raw_inv file src pos tokens errors \<longleftrightarrow>
     is_char_boundary src pos \<and> ordered 0 tokens pos \<and> list_all (token_span_ok file src) tokens \<and>
     error_runs tokens = map error_span (filter is_invalid errors) \<and>
     (tokens \<noteq> [] \<and> fst (last tokens) = T_Error \<longrightarrow> errors \<noteq> [] \<and> is_invalid (last errors)) \<and>
     successively apart tokens \<and> filter reports_closer errors = [] \<and>
     list_all (error_in_text src) errors \<and> gap_chain src 0 tokens pos"

lemma ordered_mono: "ordered lo ts hi \<Longrightarrow> hi \<le> hi' \<Longrightarrow> ordered lo ts hi'"
  by (induction ts arbitrary: lo) auto

lemma ordered_snoc:
  "ordered lo (ts @ [t]) hi \<longleftrightarrow>
     ordered lo ts (sp_start (snd t)) \<and> sp_start (snd t) < sp_end (snd t) \<and> sp_end (snd t) \<le> hi"
  by (induction ts arbitrary: lo) auto

lemma ordered_positive: "ordered lo toks hi \<Longrightarrow> t \<in> set toks \<Longrightarrow> sp_start (snd t) < sp_end (snd t)"
  by (induction toks arbitrary: lo) auto

lemma successively_snoc:
  "successively P (xs @ [x]) \<longleftrightarrow> successively P xs \<and> (xs \<noteq> [] \<longrightarrow> P (last xs) x)"
  by (auto simp: successively_append_iff)

lemma raw_errors_report_no_closer [simp]:
  "\<not> reports_closer (InvalidToken s)" "\<not> reports_closer (UnterminatedString s)"
  "\<not> reports_closer (DetachedBacktick s)"
  by (simp_all add: reports_closer_def)

lemma gap_chain_snoc:
  "gap_chain src lo (ts @ [t]) pos \<longleftrightarrow>
     (\<exists>p. gap_chain src lo ts p \<and> gap_between src p (sp_start (snd t))) \<and>
     token_text src (Some (fst t)) (sp_start (snd t)) (sp_end (snd t)) \<and> sp_end (snd t) = pos"
  by (induction ts arbitrary: lo) auto

lemma text_boundaries:
  "token_text src r a b \<Longrightarrow> is_char_boundary src a \<and> is_char_boundary src b \<and> b \<le> str_len src"
  by (auto simp: token_text_def str_slice_def split: if_splits)

text \<open>A token that is no \<open>Error\<close>, with the errors it brings.\<close>

lemma raw_inv_push:
  assumes "raw_inv file src pos tokens errors" "a < b" "gap_between src pos a"
    "token_text src (Some tok) a b" "\<not> layout_token tok" "tok \<noteq> T_Error"
    "\<forall>e \<in> set errs. \<not> is_invalid e \<and> \<not> reports_closer e \<and> error_in_text src e"
  shows "raw_inv file src b (tokens @ [(tok, Span_new file a b)]) (errors @ errs)"
proof -
  have "pos \<le> a" using assms(3) by (auto simp: gap_between_def str_slice_def split: if_splits)
  then have "ordered 0 (tokens @ [(tok, Span_new file a b)]) b"
    using assms(1,2) ordered_mono by (auto simp: raw_inv_def ordered_snoc)
  moreover have "filter is_invalid errs = []" "filter reports_closer errs = []"
    "list_all (error_in_text src) errs"
    using assms(7) by (simp_all add: filter_empty_conv list_all_iff)
  moreover have "gap_chain src 0 (tokens @ [(tok, Span_new file a b)]) b"
    using assms(1,3,4) by (auto simp: gap_chain_snoc raw_inv_def)
  ultimately show ?thesis
    using assms text_boundaries [OF assms(4)]
    by (auto simp: raw_inv_def error_runs_def token_span_ok_def successively_snoc apart_def)
qed

lemma merged_text:
  "token_text src (Some T_Error) a b \<Longrightarrow> token_text src None b c \<Longrightarrow> token_text src (Some T_Error) a c"
  by (auto simp: token_text_def) (metis Un_iff set_append str_slice_join)

lemma raw_inv_invalid:
  assumes "raw_inv file src pos tokens errors" "a < b" "gap_between src pos a" "token_text src None a b"
    "push_invalid (Span_new file a b) tokens errors = (ts, es)"
  shows "raw_inv file src b ts es"
proof (cases "merges_invalid (Span_new file a b) tokens errors")
  case False
  have "pos \<le> a" using assms(3) by (auto simp: gap_between_def str_slice_def split: if_splits)
  then have "ordered 0 (tokens @ [(T_Error, Span_new file a b)]) b"
    using assms(1,2) ordered_mono by (auto simp: raw_inv_def ordered_snoc)
  moreover have "apart (last tokens) (T_Error, Span_new file a b)" if "tokens \<noteq> []"
  proof (rule ccontr)
    assume "\<not> ?thesis"
    then have "fst (last tokens) = T_Error" "sp_end (snd (last tokens)) = a" by (auto simp: apart_def)
    with False that assms(1) show False
      by (auto simp: merges_invalid_def raw_inv_def is_invalid_def)
  qed
  moreover have "token_text src (Some T_Error) a b" using assms(4) by (simp add: token_text_def)
  then have "gap_chain src 0 (tokens @ [(T_Error, Span_new file a b)]) b"
    using assms(1,3) by (auto simp: gap_chain_snoc raw_inv_def)
  ultimately show ?thesis
    using False assms text_boundaries [OF assms(4)]
    by (auto simp: push_invalid_def raw_inv_def error_runs_def token_span_ok_def successively_snoc
        is_invalid_def layout_token_def text_span_def)
next
  case True
  obtain tp s ep e where te: "tokens = tp @ [(T_Error, s)]" "errors = ep @ [e]" "is_invalid e" "sp_end s = a"
    using True by (cases tokens rule: rev_cases; cases errors rule: rev_cases)
      (auto simp: merges_invalid_def is_invalid_def split: LexError.splits)
  then have new: "ts = tp @ [(T_Error, s\<lparr>sp_end := b\<rparr>)]"
    "es = ep @ [InvalidToken ((error_span e)\<lparr>sp_end := b\<rparr>)]"
    using True assms(5) by (auto simp: push_invalid_def)
  have "error_span e = s" "error_runs tp = map error_span (filter is_invalid ep)"
    using assms(1) te by (auto simp: raw_inv_def error_runs_def)
  moreover have "ordered 0 ts b"
    using assms(1,2) te by (auto simp: raw_inv_def ordered_snoc new)
  moreover have "gap_chain src 0 ts b"
    using assms(1,4) te merged_text by (auto simp: raw_inv_def gap_chain_snoc new)
  ultimately show ?thesis
    using assms(1) te text_boundaries [OF assms(4)]
    by (auto simp: raw_inv_def new error_runs_def token_span_ok_def successively_snoc apart_def
        is_invalid_def ordered_snoc text_span_def)
qed

subsection \<open>The loop returns\<close>

lemma find_char_Some:
  assumes "find_char c t = Some i"
  shows "\<exists>s u. t = s @ c # u \<and> i = str_len s \<and> c \<notin> set s"
proof -
  have "find (\<lambda>(i, d). d = c) (char_indices_from k t) = Some (i, d) \<Longrightarrow>
      \<exists>s u. t = s @ c # u \<and> i = k + str_len s \<and> c \<notin> set s" for d k
  proof (induction t arbitrary: k)
    case (Cons x t)
    show ?case
    proof (cases "x = c")
      case True
      with Cons.prems show ?thesis by (intro exI [of _ "[]"] exI [of _ t]) auto
    next
      case False
      with Cons.prems Cons.IH [of "k + len_utf8 x"] obtain s u
        where "t = s @ c # u" "i = k + len_utf8 x + str_len s" "c \<notin> set s" by auto
      with False show ?thesis by (intro exI [of _ "x # s"] exI [of _ u]) auto
    qed
  qed simp
  from this [of 0] assms show ?thesis by (auto simp: find_char_def char_indices_def)
qed

lemma utf8_byte_of_char:
  "c < 128 \<Longrightarrow> utf8 (s @ c # u) ! str_len s = c"
  by (simp add: nth_append str_len_def utf8_encode_def)

lemma quote_byte: "utf8 (s @ c # u) ! str_len s = b \<Longrightarrow> c < 128 \<Longrightarrow> c = b"
  by (simp add: nth_append str_len_def utf8_encode_def)

text \<open>The failed string: its line ends at or after the failed span, and it holds no newline.\<close>

lemma find_char_None: "find_char c t = None \<longleftrightarrow> c \<notin> set t"
proof -
  have "find (\<lambda>(i, d). d = c) (char_indices_from k t) = None \<longleftrightarrow> c \<notin> set t" for k
    by (induction t arbitrary: k) auto
  then show ?thesis by (simp add: find_char_def char_indices_def)
qed

lemma unterminated_total:
  assumes "src = s @ q # u" "start = str_len s" "q < 128" "q \<noteq> 10" "start < fin"
    "token_text src None start fin"
  shows "\<exists>line_end body. unterminated src start fin (q # u) = Inr (line_end, body) \<and>
    fin \<le> line_end \<and> token_text src (Some (T_String (unescape body))) start line_end"
proof -
  have q1: "len_utf8 q = 1" using assms(3) by (simp add: len_utf8_def)
  have fin: "fin \<le> str_len src" using text_boundaries [OF assms(6)] by simp
  show ?thesis
  proof (cases "find_char 10 (q # u)")
    case None
    have "str_slice src (start + 1) (str_len src) = Inr u"
      using str_slice_append [of "s @ [q]" u "[]"] by (simp add: assms(1,2) q1)
    moreover have "str_slice src start (str_len src) = Inr (q # u)"
      using str_slice_append [of s "q # u" "[]"] by (simp add: assms(1,2))
    moreover have "10 \<notin> set (q # u)" using None by (simp only: find_char_None not_False_eq_True)
    ultimately show ?thesis using None fin q1
      by (simp add: unterminated_def is_char_boundary_def token_text_def)
  next
    case (Some i)
    obtain v w where vw: "q # u = v @ 10 # w" "i = str_len v" "10 \<notin> set v"
      using find_char_Some [OF Some] by blast
    with assms(4) obtain v' where v: "v = q # v'" "u = v' @ 10 # w" by (cases v) auto
    have src: "src = (s @ v) @ 10 # w" using assms(1) v by simp
    have le: "start + i = str_len (s @ v)" using assms(2) vw by simp
    have "utf8 src ! (start + i) = 10" unfolding src le by (rule utf8_byte_of_char) simp
    moreover have "\<not> (start \<le> j \<and> j < fin \<and> utf8 src ! j = 10)" for j
      using assms(6) str_slice_byte(2) newline_byte by (force simp: token_text_def)
    ultimately have "fin \<le> start + i" by (meson le_add1 not_less)
    moreover have "is_char_boundary src (start + i)"
      unfolding src le by (rule is_char_boundary_prefix)
    moreover have "str_slice src (start + 1) (start + i) = Inr v'"
      using str_slice_append [of "s @ [q]" v' "10 # w"] le by (simp add: src v assms(2) q1)
    moreover have "str_slice src start (start + i) = Inr v"
      using str_slice_append [of s v "10 # w"] vw(2) by (simp add: src assms(2))
    ultimately show ?thesis using Some q1 vw(3) by (simp add: unterminated_def token_text_def)
  qed
qed

text \<open>One step of the loop: it ends, or it goes on from a later position with the invariant.\<close>

context logos_lexer
begin

lemma raw_loop_step:
  assumes "raw_inv file src pos tokens errors"
  shows "raw_loop next_tok file src pos tokens errors = Some (Inr (tokens, errors)) \<and>
      gap_between src pos (str_len src) \<or>
    (\<exists>pos' ts es. pos < pos' \<and> pos' \<le> str_len src \<and> raw_inv file src pos' ts es \<and>
      raw_loop next_tok file src pos tokens errors = raw_loop next_tok file src pos' ts es)"
proof -
  have bp: "is_char_boundary src pos" using assms by (simp add: raw_inv_def)
  note unfold = raw_loop.simps [of next_tok "file" src pos tokens errors]
  show ?thesis
  proof (cases "next_tok src pos")
    case None
    with ends_in_gap [OF bp] show ?thesis by (simp add: unfold)
  next
    case (Some res)
    obtain r a b where res: "res = (r, a, b)" by (cases res)
    note nt = Some [unfolded res]
    note ab = progress [OF bp nt] skips_gap [OF bp nt] matched_text [OF bp nt]
    have bnd: "is_char_boundary src a" "is_char_boundary src b" "b \<le> str_len src"
      using text_boundaries [OF ab(3)] by auto
    show ?thesis
    proof (cases r)
      case (Some tok)
      have "raw_inv file src b (tokens @ [(tok, Span_new file a b)]) (errors @ [])"
        by (rule raw_inv_push [OF assms _ ab(2)]) (use ab not_synthesised nt Some in auto)
      moreover have "pos < b" using ab(1) by simp
      ultimately show ?thesis using bnd(3) nt Some by (auto simp: unfold)
    next
      case None
      obtain s rest where sr: "src = s @ rest" "a = str_len s" using bnd(1) char_boundary_iff by blast
      have slice: "str_slice src a (str_len src) = Inr rest"
        using str_slice_append [of s rest "[]"] by (simp add: sr)
      show ?thesis
      proof (cases "rest \<noteq> [] \<and> (hd rest = 34 \<or> hd rest = 39)")
        case True
        then obtain q u where qu: "rest = q # u" "q = 34 \<or> q = 39" by (cases rest) auto
        then obtain le body where le: "unterminated src a b rest = Inr (le, body)" "b \<le> le"
          "token_text src (Some (T_String (unescape body))) a le"
          using unterminated_total [of src s q u a b] sr ab None by auto
        let ?e = "UnterminatedString (Span_new file a (a + len_utf8 (hd rest)))"
        have quote: "is_char_boundary src a" "is_char_boundary src (a + len_utf8 (hd rest))"
          using is_char_boundary_prefix [of s rest] is_char_boundary_prefix [of "s @ [q]" u]
          by (simp_all add: sr qu(1))
        have "raw_inv file src le (tokens @ [(T_String (unescape body), Span_new file a le)]) (errors @ [?e])"
          by (rule raw_inv_push [OF assms _ ab(2) le(3)])
            (use ab le quote in \<open>auto simp: layout_token_def is_invalid_def text_span_def\<close>)
        moreover have "pos < le" "le \<le> str_len src" using ab(1) le(2) text_boundaries [OF le(3)] by auto
        ultimately show ?thesis using le(1) nt None slice True by (auto simp: unfold)
      next
        case False
        obtain ts es where pi: "push_invalid (Span_new file a b) tokens errors = (ts, es)"
          by (cases "push_invalid (Span_new file a b) tokens errors")
        have "raw_inv file src b ts es"
          by (rule raw_inv_invalid [OF assms _ ab(2) _ pi]) (use ab None in auto)
        moreover have "pos < b" using ab(1) by simp
        ultimately show ?thesis using bnd(3) nt None slice False pi by (auto simp: unfold)
      qed
    qed
  qed
qed

lemma raw_loop_total:
  assumes "raw_inv file src pos tokens errors"
  shows "\<exists>ts es fin. raw_loop next_tok file src pos tokens errors = Some (Inr (ts, es)) \<and>
    raw_inv file src fin ts es \<and> gap_between src fin (str_len src)"
  using assms
proof (induction "str_len src - pos" arbitrary: pos tokens errors rule: less_induct)
  case less
  from raw_loop_step [OF less.prems] show ?case
  proof
    assume "\<exists>pos' ts es. pos < pos' \<and> pos' \<le> str_len src \<and> raw_inv file src pos' ts es \<and>
      raw_loop next_tok file src pos tokens errors = raw_loop next_tok file src pos' ts es"
    then obtain pos' ts es where p: "pos < pos'" "pos' \<le> str_len src" "raw_inv file src pos' ts es"
      "raw_loop next_tok file src pos tokens errors = raw_loop next_tok file src pos' ts es" by blast
    with less.hyps [OF _ p(3)] show ?thesis by simp
  qed (use less.prems in auto)
qed

end

subsection \<open>Detached backticks\<close>

fun drop_recursive :: "(Token \<times> Span) list \<Rightarrow> (Token \<times> Span) list" where
  "drop_recursive [] = []"
| "drop_recursive (t # ts) =
     (if fst t = T_Backtick \<and>
         \<not> (ts \<noteq> [] \<and> is_ident (fst (hd ts)) \<and> sp_start (snd (hd ts)) = sp_end (snd t))
      then drop_recursive ts else t # drop_recursive ts)"

lemma detached_ge: "p \<in> set (detached_backticks k toks) \<Longrightarrow> k \<le> fst p"
  by (induction k toks rule: detached_backticks.induct) (auto split: if_splits)

lemma detached_token: "(i, s) \<in> set (detached_backticks k toks) \<Longrightarrow> \<exists>tok. (tok, s) \<in> set toks"
  by (induction k toks rule: detached_backticks.induct) (auto split: if_splits)

lemma detached_sorted: "sorted_wrt (<) (map fst (detached_backticks k toks))"
  by (induction k toks rule: detached_backticks.induct)
    (auto dest!: detached_ge)

lemma drop_detached_recursive:
  "map snd (filter (\<lambda>(i, _). i \<notin> set (map fst (detached_backticks k toks))) (enumerate k toks)) =
     drop_recursive toks"
proof (induction toks arbitrary: k)
  case (Cons t toks)
  obtain tok span where t: "t = (tok, span)" by (cases t)
  have later: "filter (\<lambda>(i, _). i \<notin> insert k (fst ` set (detached_backticks (Suc k) toks)))
        (enumerate (Suc k) toks) =
      filter (\<lambda>(i, _). i \<notin> fst ` set (detached_backticks (Suc k) toks)) (enumerate (Suc k) toks)"
    by (rule filter_cong) (auto simp: in_set_enumerate_eq)
  have "k \<notin> fst ` set (detached_backticks (Suc k) toks)" by (auto dest: detached_ge)
  with Cons.IH [of "Suc k"] later show ?case by (auto simp: t)
qed simp

text \<open>
  Every backtick of a stream is followed, with no gap, by an identifier.
\<close>

definition backticks_attached :: "(Token \<times> Span) list \<Rightarrow> bool" where
  "backticks_attached toks \<longleftrightarrow>
     (\<forall>i < length toks. fst (toks ! i) = T_Backtick \<longrightarrow>
        Suc i < length toks \<and> is_ident (fst (toks ! Suc i)) \<and>
        sp_start (snd (toks ! Suc i)) = sp_end (snd (toks ! i)))"

lemma backticks_attached_Cons:
  "backticks_attached (t # ts) \<longleftrightarrow>
     (fst t = T_Backtick \<longrightarrow>
        ts \<noteq> [] \<and> is_ident (fst (hd ts)) \<and> sp_start (snd (hd ts)) = sp_end (snd t)) \<and>
     backticks_attached ts"
proof -
  have "backticks_attached (t # ts) \<longleftrightarrow>
      (\<forall>i < Suc (length ts). fst ((t # ts) ! i) = T_Backtick \<longrightarrow>
        i < length ts \<and> is_ident (fst (ts ! i)) \<and> sp_start (snd (ts ! i)) = sp_end (snd ((t # ts) ! i)))"
    by (simp add: backticks_attached_def)
  then show ?thesis
    unfolding All_less_Suc2 backticks_attached_def by (cases ts) auto
qed

lemma is_ident_not_backtick: "is_ident tok \<Longrightarrow> tok \<noteq> T_Backtick"
  by (auto simp: is_ident_def)

lemma drop_recursive_hd:
  "ts \<noteq> [] \<Longrightarrow> fst (hd ts) \<noteq> T_Backtick \<Longrightarrow> drop_recursive ts \<noteq> [] \<and> hd (drop_recursive ts) = hd ts"
  by (cases ts) auto

lemma drop_recursive_attached: "backticks_attached (drop_recursive ts)"
proof (induction ts)
  case Nil
  then show ?case by (simp add: backticks_attached_def)
next
  case (Cons t ts)
  then show ?case
    using drop_recursive_hd [of ts] is_ident_not_backtick
    by (auto simp: backticks_attached_Cons)
qed

lemma drop_recursive_subset: "set (drop_recursive ts) \<subseteq> set ts"
  by (induction ts) auto

subsection \<open>The lexer's results\<close>

lemma sorted_error_runs:
  assumes "ordered lo toks hi"
  shows "sorted (map sp_start (error_runs toks)) \<and> (\<forall>s \<in> set (error_runs toks). lo \<le> sp_start s)"
  using assms
proof (induction toks arbitrary: lo)
  case (Cons t ts)
  then have "sorted (map sp_start (error_runs ts))" "\<forall>s \<in> set (error_runs ts). sp_end (snd t) \<le> sp_start s"
    by auto
  with Cons.prems show ?case
    by (cases "fst t = T_Error") (auto simp: error_runs_def)
qed (simp add: error_runs_def)

lemma sort_errors_invalid:
  assumes "sorted (map (\<lambda>e. sp_start (error_span e)) (filter is_invalid es))"
  shows "filter is_invalid (sort_errors es) = filter is_invalid es"
  using assms by (simp add: sort_errors_def filter_sort sort_key_id_if_sorted)

context logos_lexer
begin

lemma raw_tokens_total:
  "\<exists>raw. raw_tokens next_tok file src = Some (Inr raw) \<and>
     ordered 0 (rt_tokens raw) (str_len src) \<and> list_all (token_span_ok file src) (rt_tokens raw) \<and>
     map error_span (filter is_invalid (rt_errors raw)) = error_runs (rt_tokens raw) \<and>
     successively apart (rt_tokens raw) \<and> drop_detached raw = drop_recursive (rt_tokens raw) \<and>
     filter reports_closer (rt_errors raw) = [] \<and> list_all (error_in_text src) (rt_errors raw) \<and>
     (\<exists>fin. gap_chain src 0 (rt_tokens raw) fin \<and> gap_between src fin (str_len src))"
proof -
  have "raw_inv file src 0 [] []" by (simp add: raw_inv_def is_char_boundary_def error_runs_def)
  then obtain ts es fin where loop: "raw_loop next_tok file src 0 [] [] = Some (Inr (ts, es))"
    "raw_inv file src fin ts es" "gap_between src fin (str_len src)" using raw_loop_total by blast
  let ?d = "detached_backticks 0 ts"
  let ?es = "es @ map (\<lambda>(_, span). DetachedBacktick span) ?d"
  let ?raw = "\<lparr>rt_tokens = ts, rt_errors = sort_errors ?es, rt_detached = map fst ?d\<rparr>"
  have ord: "ordered 0 ts (str_len src)"
    using loop(2) ordered_mono by (auto simp: raw_inv_def is_char_boundary_def)
  have inv: "filter is_invalid ?es = filter is_invalid es"
    by (auto simp: filter_empty_conv is_invalid_def)
  have "sorted (map (\<lambda>e. sp_start (error_span e)) (filter is_invalid ?es))"
    using sorted_error_runs [OF ord] loop(2) unfolding inv
    by (auto simp: raw_inv_def comp_def)
  then have "map error_span (filter is_invalid (sort_errors ?es)) = error_runs ts"
    using sort_errors_invalid [of ?es] inv loop(2) by (simp add: raw_inv_def)
  moreover have "drop_detached ?raw = drop_recursive ts"
    using drop_detached_recursive [of 0 ts] by (simp add: drop_detached_def)
  moreover have "filter reports_closer (sort_errors ?es) = []"
    using loop(2) by (auto simp: sort_errors_def filter_empty_conv raw_inv_def)
  moreover have "text_span src s" if "(i, s) \<in> set ?d" for i s
    using detached_token [OF that] loop(2) ordered_positive [OF ord]
    by (fastforce simp: raw_inv_def list_all_iff token_span_ok_def text_span_def)
  then have "list_all (error_in_text src) (sort_errors ?es)"
    using loop(2) by (auto simp: sort_errors_def list_all_iff raw_inv_def)
  ultimately show ?thesis using loop ord
    by (intro exI [of _ ?raw]) (auto simp: raw_tokens_def raw_inv_def Let_def)
qed

lemma lay_out_total:
  assumes "list_all (run_token src) toks"
  shows "\<exists>st pre at ls. lay_out dbg file src toks = Inr st \<and>
    nest (map fst (lo_out st)) [] = Some [] \<and>
    lo_out st = pre @ (T_Newline, at) # closer_tokens (Span_new file (str_len src) (str_len src)) ls \<and>
    length (filter zero_width_closer (lo_out st)) = length (filter reports_closer (lo_errors st)) \<and>
    filter kept_token (lo_out st) = filter kept_token toks"
proof -
  obtain first where first: "Layout_run dbg file src toks [] = Inr first"
    "lo_resync_next first \<noteq> [] \<longrightarrow> lo_errors first \<noteq> []"
    using Layout_run_total [OF assms, of dbg "file" "[]"] by blast
  obtain resync where "lay_out dbg file src toks = Layout_run dbg file src toks resync"
  proof (cases "lo_resync_next first = []")
    case True
    with first(1) that [of "[]"] show thesis by (simp add: lay_out_def)
  next
    case False
    with first that show thesis by (simp add: lay_out_def)
  qed
  with Layout_run_total [OF assms, of dbg "file" resync] show ?thesis by metis
qed

lemma tokenize_result:
  "\<exists>raw lx pre at ls. raw_tokens next_tok file src = Some (Inr raw) \<and>
     tokenize next_tok dbg file src = Some (Inr lx) \<and>
     nest (map fst (lx_tokens lx)) [] = Some [] \<and>
     lx_tokens lx =
       pre @ (T_Newline, at) # closer_tokens (Span_new file (str_len src) (str_len src)) ls \<and>
     length (filter zero_width_closer (lx_tokens lx)) = length (filter reports_closer (lx_errors lx)) \<and>
     filter kept_token (lx_tokens lx) = filter kept_token (drop_detached raw) \<and>
     sorted (map (\<lambda>e. sp_start (error_span e)) (lx_errors lx))"
proof -
  obtain raw where raw: "raw_tokens next_tok file src = Some (Inr raw)"
    "ordered 0 (rt_tokens raw) (str_len src)" "list_all (token_span_ok file src) (rt_tokens raw)"
    "drop_detached raw = drop_recursive (rt_tokens raw)" "filter reports_closer (rt_errors raw) = []"
    using raw_tokens_total by blast
  have "list_all (run_token src) (drop_detached raw)"
    using raw(2-4) drop_recursive_subset ordered_positive
    by (fastforce simp: list_all_iff run_token_def raw_token_def token_span_ok_def)
  then obtain st pre at ls where st: "lay_out dbg file src (drop_detached raw) = Inr st"
    "nest (map fst (lo_out st)) [] = Some []"
    "lo_out st = pre @ (T_Newline, at) # closer_tokens (Span_new file (str_len src) (str_len src)) ls"
    "length (filter zero_width_closer (lo_out st)) = length (filter reports_closer (lo_errors st))"
    "filter kept_token (lo_out st) = filter kept_token (drop_detached raw)"
    using lay_out_total [of src "drop_detached raw" dbg "file"] by blast
  let ?lx = "\<lparr>lx_tokens = lo_out st, lx_errors = sort_errors (rt_errors raw @ lo_errors st)\<rparr>"
  have "(\<lambda>(tok, span). closed_by tok \<noteq> None \<and> sp_start span = sp_end span) = zero_width_closer"
    by (auto simp: zero_width_closer_def)
  then have "tokenize next_tok dbg file src = Some (Inr ?lx)"
    using raw(1) st(1,4) by (simp add: tokenize_def reports_closer_def [abs_def])
  moreover have "length (filter reports_closer (lx_errors ?lx)) = length (filter reports_closer (lo_errors st))"
    using raw(5) by (simp add: sort_errors_def filter_sort)
  moreover have "sorted (map (\<lambda>e. sp_start (error_span e)) (lx_errors ?lx))"
    by (simp add: sort_errors_def)
  ultimately show ?thesis using raw(1) st by (intro exI [of _ raw] exI [of _ ?lx]) auto
qed

end

end
