(* ===== verification/Token_Rules.thy ===== *)
theory Token_Rules
  imports Raw_Tokens
begin

section \<open>The rules of the token enum\<close>

text \<open>
  A lexer that reads the \<open>#[logos]\<close>, \<open>#[token]\<close> and \<open>#[regex]\<close> rules of \<open>Token\<close> as \<open>logos\<close>
  documents them: skip the skipped patterns, take the longest match, and between an identifier and
  a keyword of the same length the rule of higher priority. Where no rule matches it fails on one
  character. It shows that the contract the tokenizer relies on can hold, and for these rules.
\<close>

subsection \<open>Matching\<close>

definition OPERATORS :: "(utext \<times> Token) list" where
  "OPERATORS =
    [(lit ''<<='', T_LShiftEq), (lit ''|=>'', T_DataArrow), (lit ''//='', T_DoubleSlashEq),
     (lit ''<<'', T_LShift), (lit ''=='', T_EqEq), (lit ''!='', T_NotEq), (lit ''<='', T_LtE),
     (lit ''<:'', T_LtColon), (lit ''>='', T_GtE), (lit ''++'', T_PlusPlus),
     (lit ''+='', T_PlusEq), (lit ''^+'', T_CaretPlus), (lit ''^='', T_CaretEq),
     (lit ''-='', T_MinusEq), (lit ''->'', T_Arrow), (lit ''=>'', T_DoubleArrow),
     (lit ''**'', T_StarStar), (lit ''*='', T_StarEq), (lit ''//'', T_DoubleSlash),
     (lit '':='', T_ColonEq), (lit ''::'', T_ColonColon), (lit ''..'', T_DotDot),
     (lit ''+'', T_Plus), (lit ''-'', T_Minus), (lit ''*'', T_Star), (lit ''&'', T_Amp),
     (lit ''|'', T_Pipe), (lit ''^'', T_Caret), (lit ''='', T_Eq), (lit ''<'', T_Lt),
     (lit ''>'', T_Gt), (lit ''('', T_LParen), (lit '')'', T_RParen), (lit ''['', T_LBracket),
     (lit '']'', T_RBracket), (lit ''!'', T_Bang), (lit ''{'', T_LBrace),
     (lit ''}'', T_RBrace), (lit '','', T_Comma), (lit '':'', T_Colon), (lit ''.'', T_Dot),
     ([96], T_Backtick), (lit '';'', T_Semi), ([92], T_Backslash), (lit ''@'', T_At)]"

definition is_ident_start :: "uchar \<Rightarrow> bool" where
  "is_ident_start c \<longleftrightarrow> 65 \<le> c \<and> c \<le> 90 \<or> 97 \<le> c \<and> c \<le> 122 \<or> c = 95"

definition is_ident_char :: "uchar \<Rightarrow> bool" where
  "is_ident_char c \<longleftrightarrow> is_ident_start c \<or> is_digit c"

text \<open>The skipped patterns: blanks, and a comment up to the newline.\<close>

definition skip_gap :: "utext \<Rightarrow> utext" where
  "skip_gap t =
     (let ws = takeWhile is_blank t; rest = dropWhile is_blank t in
      ws @ (if rest \<noteq> [] \<and> hd rest = 35 then takeWhile (\<lambda>c. c \<noteq> 10) rest else []))"

text \<open>The number of characters of a string literal before its closing quote.\<close>

fun string_end :: "uchar \<Rightarrow> utext \<Rightarrow> nat option" where
  "string_end q [] = None"
| "string_end q (c # cs) =
     (if c = q then Some 0
      else if c = 10 then None
      else if c = 92 then
        (case cs of
           [] \<Rightarrow> None
         | d # ds \<Rightarrow> if d = 10 then None else map_option (\<lambda>n. n + 2) (string_end q ds))
      else map_option Suc (string_end q cs))"

definition match_token :: "utext \<Rightarrow> Token option \<times> nat" where
  "match_token t =
     (let c = hd t in
      if c = 10 then (Some T_Newline, 1)
      else if is_ident_start c then
        (let word = takeWhile is_ident_char t in
         (Some (case map_of KEYWORDS word of Some k \<Rightarrow> k | None \<Rightarrow> T_Ident word), length word))
      else if is_digit c then
        (let run = takeWhile (\<lambda>c. is_digit c \<or> c = 95) t in
         (map_option T_Int (parse_int run), length run))
      else if c = 34 \<or> c = 39 then
        (case string_end c (tl t) of
           Some n \<Rightarrow> (map_option T_String (process_string (take (n + 2) t) c), n + 2)
         | None \<Rightarrow> (None, 1))
      else
        (case find (\<lambda>(s, _). starts_with t s) OPERATORS of
           Some (s, tok) \<Rightarrow> (Some tok, length s)
         | None \<Rightarrow> (None, 1)))"

definition rules_lexer :: lexer where
  "rules_lexer src pos =
     (case str_slice src pos (str_len src) of
        Inl _ \<Rightarrow> None
      | Inr rest \<Rightarrow>
          let gap = skip_gap rest; body = drop (length gap) rest in
          if body = [] then None
          else
            let (r, n) = match_token body; a = pos + str_len gap in
            Some (r, a, a + str_len (take n body)))"

subsection \<open>Gaps and matches\<close>


lemma skip_gap_prefix: "\<exists>body. t = skip_gap t @ body"
proof -
  let ?rest = "dropWhile is_blank t"
  have t: "t = takeWhile is_blank t @ ?rest" by simp
  show ?thesis
  proof (cases "?rest \<noteq> [] \<and> hd ?rest = 35")
    case True
    have "?rest = takeWhile (\<lambda>c. c \<noteq> 10) ?rest @ dropWhile (\<lambda>c. c \<noteq> 10) ?rest" by simp
    with t True show ?thesis
      by (intro exI [of _ "dropWhile (\<lambda>c. c \<noteq> 10) ?rest"]) (simp add: skip_gap_def Let_def)
  next
    case False
    with t show ?thesis by (intro exI [of _ ?rest]) (auto simp: skip_gap_def Let_def)
  qed
qed

lemma skip_gap_is_gap: "is_gap (skip_gap t)"
proof -
  let ?rest = "dropWhile is_blank t"
  let ?c = "if ?rest \<noteq> [] \<and> hd ?rest = 35 then takeWhile (\<lambda>c. c \<noteq> 10) ?rest else []"
  have "list_all is_blank (takeWhile is_blank t)" by (auto simp: list_all_iff dest: set_takeWhileD)
  moreover have "?c = [] \<or> hd ?c = 35 \<and> 10 \<notin> set ?c"
    by (cases ?rest) (auto dest: set_takeWhileD)
  moreover have "skip_gap t = takeWhile is_blank t @ ?c" by (simp add: skip_gap_def Let_def)
  ultimately show ?thesis
    unfolding is_gap_def
    by (intro exI [of _ "takeWhile is_blank t"] exI [of _ ?c] conjI)
qed

lemma string_end_quote:
  "string_end q t = Some n \<Longrightarrow> n < length t \<and> t ! n = q \<and> 10 \<notin> set (take n t)"
proof (induction q t arbitrary: n rule: string_end.induct)
  case (2 q c cs)
  then show ?case
    by (auto split: if_splits list.splits simp: nth_Cons' numeral_2_eq_2)
qed simp

lemma process_string_closed:
  assumes "string_end q t = Some n"
  shows "\<exists>s. process_string (take (n + 2) (q # t)) q = Some s \<and> take (n + 2) (q # t) = q # take n t @ [q]"
proof -
  have n: "n < length t" "t ! n = q" using string_end_quote [OF assms] by auto
  then have "take (n + 2) (q # t) = q # take n t @ [q]"
    by (simp add: take_Suc_conv_app_nth)
  then show ?thesis
    by (simp add: process_string_def strip_prefix_def strip_suffix_def starts_with_def ends_with_def)
qed

lemma operators_ok:
  "list_all (\<lambda>(s, tok). s \<noteq> [] \<and> 10 \<notin> set s \<and> \<not> layout_token tok \<and> tok \<noteq> T_Error \<and> tok \<noteq> T_Newline)
     OPERATORS"
  by (simp add: OPERATORS_def layout_token_def)

lemma keywords_ok:
  "list_all (\<lambda>(s, tok). \<not> layout_token tok \<and> tok \<noteq> T_Error \<and> tok \<noteq> T_Newline) KEYWORDS"
  by (simp add: KEYWORDS_def layout_token_def del: lit_simps)

text \<open>What one match is: a nonempty prefix, a newline only as the newline token.\<close>

lemma match_token_ok:
  assumes "t \<noteq> []" "match_token t = (r, n)"
  shows "0 < n \<and> n \<le> length t \<and>
    (case r of
       Some tok \<Rightarrow> \<not> layout_token tok \<and> tok \<noteq> T_Error \<and>
         (if tok = T_Newline then take n t = [10] else 10 \<notin> set (take n t))
     | None \<Rightarrow> 10 \<notin> set (take n t))"
proof -
  obtain c t' where t: "t = c # t'" using assms(1) by (cases t) auto
  have tw: "take (length (takeWhile P t)) t = takeWhile P t" for P :: "uchar \<Rightarrow> bool"
    by (metis append_eq_conv_conj takeWhile_dropWhile_id)
  consider (nl) "c = 10" | (id) "c \<noteq> 10" "is_ident_start c"
    | (int) "c \<noteq> 10" "\<not> is_ident_start c" "is_digit c"
    | (str) "c \<noteq> 10" "\<not> is_ident_start c" "\<not> is_digit c" "c = 34 \<or> c = 39"
    | (op) "c \<noteq> 10" "\<not> is_ident_start c" "\<not> is_digit c" "c \<noteq> 34" "c \<noteq> 39" by blast
  then show ?thesis
  proof cases
    case nl
    with assms(2) t show ?thesis by (auto simp: match_token_def layout_token_def)
  next
    case id
    let ?w = "takeWhile is_ident_char t"
    have "10 \<notin> set ?w" by (auto dest!: set_takeWhileD simp: is_ident_char_def is_ident_start_def is_digit_def)
    moreover have "?w \<noteq> []" using id t by (simp add: is_ident_char_def)
    moreover have "\<not> layout_token k \<and> k \<noteq> T_Error \<and> k \<noteq> T_Newline" if "map_of KEYWORDS ?w = Some k" for k
      using map_of_SomeD [OF that] keywords_ok by (auto simp: list_all_iff)
    ultimately show ?thesis
      using id assms(2) t tw [of is_ident_char] length_takeWhile_le [of is_ident_char t]
      by (auto simp: match_token_def Let_def layout_token_def split: option.splits)
  next
    case int
    let ?P = "\<lambda>c. is_digit c \<or> c = 95"
    have "10 \<notin> set (takeWhile ?P t)" by (auto dest!: set_takeWhileD simp: is_digit_def)
    moreover have "takeWhile ?P t \<noteq> []" using int t by simp
    ultimately show ?thesis
      using int assms(2) t tw [of ?P] length_takeWhile_le [of ?P t]
      by (auto simp: match_token_def Let_def layout_token_def split: option.splits)
  next
    case str
    show ?thesis
    proof (cases "string_end c t'")
      case None
      with str assms(2) t show ?thesis by (auto simp: match_token_def)
    next
      case (Some m)
      from process_string_closed [OF Some] string_end_quote [OF Some] str assms(2) t Some show ?thesis
        by (auto simp: match_token_def layout_token_def)
    qed
  next
    case op
    show ?thesis
    proof (cases "find (\<lambda>(s, _). starts_with t s) OPERATORS")
      case None
      with op assms(2) t show ?thesis by (auto simp: match_token_def)
    next
      case (Some p)
      obtain s tok where p: "p = (s, tok)" by (cases p)
      have "p \<in> set OPERATORS" using Some by (metis find_Some_iff nth_mem)
      moreover have "starts_with t s" using Some p by (auto simp: find_Some_iff)
      moreover from this have "take (length s) t = s" "length s \<le> length t"
        by (auto simp: starts_with_append)
      ultimately show ?thesis
        using op assms(2) t Some p operators_ok
        by (auto simp: match_token_def list_all_iff)
    qed
  qed
qed

subsection \<open>The contract\<close>

lemma rules_lexer_step:
  assumes "is_char_boundary src pos"
  obtains (fin) "rules_lexer src pos = None" "gap_between src pos (str_len src)"
    | (tok) r a b s g t u where "rules_lexer src pos = Some (r, a, b)"
      "src = s @ g @ t @ u" "pos = str_len s" "a = str_len (s @ g)" "b = str_len (s @ g @ t)"
      "t \<noteq> []" "is_gap g" "match_token (t @ u) = (r, length t)"
proof -
  obtain s rest where s: "src = s @ rest" "pos = str_len s" using assms char_boundary_iff by blast
  have slice: "str_slice src pos (str_len src) = Inr rest"
    using str_slice_append [of s rest "[]"] by (simp add: s)
  obtain body where body: "rest = skip_gap rest @ body" using skip_gap_prefix by blast
  then have drop: "drop (length (skip_gap rest)) rest = body" by (metis append_eq_conv_conj)
  show thesis
  proof (cases "body = []")
    case True
    then have "rest = skip_gap rest" using body by simp
    then have "is_gap rest" using skip_gap_is_gap by metis
    with True fin slice drop show thesis by (simp add: rules_lexer_def gap_between_def)
  next
    case False
    obtain r n where m: "match_token body = (r, n)" by (cases "match_token body")
    from match_token_ok [OF False m] have n: "0 < n" "n \<le> length body" by auto
    let ?a = "pos + str_len (skip_gap rest)"
    show thesis
    proof (rule tok [of r ?a "?a + str_len (take n body)" s "skip_gap rest" "take n body" "drop n body"])
      show "rules_lexer src pos = Some (r, ?a, ?a + str_len (take n body))"
        using False slice drop m by (auto simp: rules_lexer_def Let_def)
      show "src = s @ skip_gap rest @ take n body @ drop n body" using s(1) body by simp
      show "take n body \<noteq> []" using n False by simp
      show "match_token (take n body @ drop n body) = (r, length (take n body))" using m n by simp
    qed (simp_all add: s skip_gap_is_gap)
  qed
qed

interpretation rules: logos_lexer rules_lexer
proof
  fix src pos r a b
  assume bp: "is_char_boundary src pos" and nt: "rules_lexer src pos = Some (r, a, b)"
  from bp nt obtain s g t u where *: "src = s @ g @ t @ u" "pos = str_len s" "a = str_len (s @ g)"
    "b = str_len (s @ g @ t)" "t \<noteq> []" "is_gap g" "match_token (t @ u) = (r, length t)"
    by (cases rule: rules_lexer_step [OF bp]) auto
  have "0 < str_len t" using *(5) by (metis gr0I str_len_0)
  with * show "pos \<le> a \<and> a < b" by simp
  show "gap_between src pos a"
    using * str_slice_append [of s g "t @ u"] by (auto simp: gap_between_def)
  have "str_slice src a b = Inr t"
    using * str_slice_append [of "s @ g" t u] by (simp add: add.assoc)
  with * match_token_ok [of "t @ u" r "length t"] show "token_text src r a b"
    by (auto simp: token_text_def split: option.splits if_splits)
next
  fix src pos tok a b
  assume nt: "rules_lexer src pos = Some (Some tok, a, b)"
  then obtain rest where "drop (length (skip_gap rest)) rest \<noteq> []"
    "fst (match_token (drop (length (skip_gap rest)) rest)) = Some tok"
    by (auto simp: rules_lexer_def Let_def split: sum.splits if_splits prod.splits)
  then obtain t where "t \<noteq> []" "fst (match_token t) = Some tok" by blast
  with match_token_ok [of t "Some tok" "snd (match_token t)"]
  show "\<not> layout_token tok \<and> tok \<noteq> T_Error" by (cases "match_token t") auto
next
  fix src pos
  assume bp: "is_char_boundary src pos" and nt: "rules_lexer src pos = None"
  from bp nt show "gap_between src pos (str_len src)"
    by (cases rule: rules_lexer_step [OF bp]) auto
qed

end
