(* ===== verification/Highlight.thy ===== *)
theory Highlight
  imports Token_Rules
begin

section \<open>Highlighting\<close>

text \<open>
  \<open>highlight\<close> of \<open>chl-parser/src/lexer.rs\<close> with \<open>push_comment\<close>, \<open>todo_words\<close> and \<open>push_string\<close>:
  the spans an editor colours, from the raw tokens and the gaps between them. \<open>upper\<close> is the
  Unicode table of \<open>char::is_uppercase\<close> outside ASCII, \<open>dbg\<close> says whether debug assertions are on.
\<close>

subsection \<open>The operations\<close>

record Highlighted =
  hl_spans :: "(HighlightClass \<times> Span) list"
  hl_errors :: "LexError list"

definition TODO_WORDS :: "utext list" where
  "TODO_WORDS = [lit ''TODO'', lit ''FIXME'', lit ''XXX'']"

definition word_char :: "uchar \<Rightarrow> bool" where
  "word_char c \<longleftrightarrow> 48 \<le> c \<and> c \<le> 57 \<or> 65 \<le> c \<and> c \<le> 90 \<or> 97 \<le> c \<and> c \<le> 122 \<or> c = 95"

definition starts_with_word_char :: "utext \<Rightarrow> bool" where
  "starts_with_word_char t = (case t of [] \<Rightarrow> False | c # _ \<Rightarrow> word_char c)"

text \<open>The filter of \<open>todo_words\<close> at one character, given the character before it.\<close>

definition todo_at :: "uchar option \<Rightarrow> utext \<Rightarrow> utext option" where
  "todo_at before t =
     (if (case before of Some c \<Rightarrow> word_char c | None \<Rightarrow> False) then None
      else find (\<lambda>w. starts_with t w \<and> \<not> starts_with_word_char (drop (length w) t)) TODO_WORDS)"

fun todo_from :: "uchar option \<Rightarrow> nat \<Rightarrow> utext \<Rightarrow> (nat \<times> utext) list" where
  "todo_from before i [] = []"
| "todo_from before i (c # cs) =
     (case todo_at before (c # cs) of
        Some w \<Rightarrow> (i, w) # todo_from (Some c) (i + len_utf8 c) cs
      | None \<Rightarrow> todo_from (Some c) (i + len_utf8 c) cs)"

definition todo_words :: "utext \<Rightarrow> (nat \<times> utext) list" where
  "todo_words comment = todo_from None 0 comment"

text \<open>The loop of \<open>push_comment\<close> over the words: the spans and where the current run starts.\<close>

fun comment_runs ::
  "FileId \<Rightarrow> nat \<Rightarrow> nat \<Rightarrow> (nat \<times> utext) list \<Rightarrow> (HighlightClass \<times> Span) list \<Rightarrow>
     (HighlightClass \<times> Span) list \<times> nat" where
  "comment_runs file base run_start [] out = (out, run_start)"
| "comment_runs file base run_start ((i, w) # ws) out =
     (let word_start = base + i;
          out = (if run_start < word_start
                 then out @ [(C_Comment, Span_new file run_start word_start)] else out);
          run_start = word_start + str_len w in
      comment_runs file base run_start ws (out @ [(C_Todo, Span_new file word_start run_start)]))"

definition push_comment ::
  "bool \<Rightarrow> FileId \<Rightarrow> utext \<Rightarrow> nat \<Rightarrow> nat \<Rightarrow> (HighlightClass \<times> Span) list \<Rightarrow>
     (HighlightClass \<times> Span) list res" where
  "push_comment dbg file src start fin out =
     (case str_slice src start fin of
        Inl p \<Rightarrow> Inl p
      | Inr gap \<Rightarrow>
          (case find_char 35 gap of
             None \<Rightarrow> if dbg \<and> \<not> list_all is_blank (utf8 gap) then Inl AssertFailed else Inr out
           | Some hash \<Rightarrow>
               (case if dbg then str_slice gap 0 hash else Inr [] of
                  Inl p \<Rightarrow> Inl p
                | Inr before \<Rightarrow>
                    if \<not> list_all is_blank (utf8 before) then Inl AssertFailed
                    else
                      (case str_slice src (start + hash) fin of
                         Inl p \<Rightarrow> Inl p
                       | Inr comment \<Rightarrow>
                           let (out, run_start) =
                             comment_runs file (start + hash) (start + hash) (todo_words comment) out in
                           Inr (if run_start < fin
                                then out @ [(C_Comment, Span_new file run_start fin)] else out)))))"

text \<open>The closure of \<open>push_string\<close>: extend the last span when it has the class and ends here.\<close>

definition push_run ::
  "FileId \<Rightarrow> HighlightClass \<Rightarrow> nat \<Rightarrow> nat \<Rightarrow> (HighlightClass \<times> Span) list \<Rightarrow>
     (HighlightClass \<times> Span) list" where
  "push_run file cls start fin out =
     (if out \<noteq> [] \<and> fst (last out) = cls \<and> sp_end (snd (last out)) = start
      then butlast out @ [(cls, (snd (last out))\<lparr>sp_end := fin\<rparr>)]
      else out @ [(cls, Span_new file start fin)])"

fun string_runs ::
  "FileId \<Rightarrow> nat \<Rightarrow> (nat \<times> uchar) list \<Rightarrow> (HighlightClass \<times> Span) list \<Rightarrow>
     (HighlightClass \<times> Span) list" where
  "string_runs file base [] out = out"
| "string_runs file base [(i, c)] out = push_run file C_String (base + i) (base + i + len_utf8 c) out"
| "string_runs file base ((i, c) # (j, d) # cs) out =
     (if c = 92 \<and> escaped d \<noteq> None
      then string_runs file base cs (push_run file C_Escape (base + i) (base + j + len_utf8 d) out)
      else string_runs file base ((j, d) # cs)
             (push_run file C_String (base + i) (base + i + len_utf8 c) out))"

definition push_string ::
  "utext \<Rightarrow> Span \<Rightarrow> (HighlightClass \<times> Span) list \<Rightarrow> (HighlightClass \<times> Span) list res" where
  "push_string src span out =
     (case str_slice src (sp_start span) (sp_end span) of
        Inl p \<Rightarrow> Inl p
      | Inr t \<Rightarrow> Inr (string_runs (sp_file span) (sp_start span) (char_indices t) out))"

text \<open>The class of a token after the token before it.\<close>

definition class_after :: "(uchar \<Rightarrow> bool) \<Rightarrow> Token option \<Rightarrow> Token \<Rightarrow> HighlightClass option" where
  "class_after upper previous tok =
     (if is_ident tok \<and> previous = Some T_Def then Some C_FunctionName
      else if is_ident tok \<and> previous = Some T_Backtick then Some C_VariantTag
      else if is_ident tok \<and> previous = Some T_At then Some C_Decorator
      else if tok = T_Ident (lit ''_'') \<and>
        previous \<in> {Some T_Colon, Some T_LtColon, Some T_DoubleArrow, Some T_DataArrow, Some T_LBrace}
        then Some C_Type
      else highlight_class upper tok)"

definition push_class ::
  "utext \<Rightarrow> HighlightClass option \<Rightarrow> Span \<Rightarrow> (HighlightClass \<times> Span) list \<Rightarrow>
     (HighlightClass \<times> Span) list res" where
  "push_class src cls span spans =
     (case cls of
        None \<Rightarrow> Inr spans
      | Some c \<Rightarrow> if c = C_String then push_string src span spans else Inr (spans @ [(c, span)]))"

fun highlight_loop ::
  "(uchar \<Rightarrow> bool) \<Rightarrow> bool \<Rightarrow> FileId \<Rightarrow> utext \<Rightarrow> Token option \<Rightarrow> nat \<Rightarrow> (Token \<times> Span) list \<Rightarrow>
     (HighlightClass \<times> Span) list \<Rightarrow> ((HighlightClass \<times> Span) list \<times> nat) res" where
  "highlight_loop upper dbg file src previous gap_start [] spans = Inr (spans, gap_start)"
| "highlight_loop upper dbg file src previous gap_start ((tok, span) # toks) spans =
     (case push_comment dbg file src gap_start (sp_start span) spans of
        Inl p \<Rightarrow> Inl p
      | Inr spans \<Rightarrow>
          (case push_class src (class_after upper previous tok) span spans of
             Inl p \<Rightarrow> Inl p
           | Inr spans \<Rightarrow>
               highlight_loop upper dbg file src (Some tok) (sp_end span) toks spans))"

definition highlight ::
  "(uchar \<Rightarrow> bool) \<Rightarrow> lexer \<Rightarrow> bool \<Rightarrow> FileId \<Rightarrow> utext \<Rightarrow> Highlighted res option" where
  "highlight upper next_tok dbg file src =
     map_option
       (\<lambda>r. case r of
          Inl p \<Rightarrow> Inl p
        | Inr raw \<Rightarrow>
            (case highlight_loop upper dbg file src None 0 (rt_tokens raw) [] of
               Inl p \<Rightarrow> Inl p
             | Inr (spans, gap_start) \<Rightarrow>
                 map_ok (\<lambda>spans. \<lparr>hl_spans = spans, hl_errors = rt_errors raw\<rparr>)
                   (push_comment dbg file src gap_start (str_len src) spans)))
       (raw_tokens next_tok file src)"

subsection \<open>Coverage\<close>

text \<open>
  \<open>painted\<close> is the contract at a position of the text: the spans up to it are in order and apart,
  none holds a newline, and every byte before it lies in a span or is \<open>dark\<close>, a byte the
  highlighter leaves out.
\<close>

definition covered :: "(HighlightClass \<times> Span) list \<Rightarrow> nat \<Rightarrow> bool" where
  "covered spans i \<longleftrightarrow> (\<exists>s \<in> set spans. sp_start (snd s) \<le> i \<and> i < sp_end (snd s))"

definition painted ::
  "utext \<Rightarrow> (nat \<Rightarrow> bool) \<Rightarrow> (HighlightClass \<times> Span) list \<Rightarrow> nat \<Rightarrow> bool" where
  "painted src dark spans p \<longleftrightarrow>
     ordered 0 spans p \<and> (\<forall>i < p. covered spans i \<or> dark i) \<and>
     (\<forall>i. covered spans i \<longrightarrow> utf8 src ! i \<noteq> 10)"

lemma covered_append [simp]: "covered (xs @ ys) i \<longleftrightarrow> covered xs i \<or> covered ys i"
  by (auto simp: covered_def)

lemma covered_Cons [simp]:
  "covered ((c, s) # xs) i \<longleftrightarrow> sp_start s \<le> i \<and> i < sp_end s \<or> covered xs i"
  "\<not> covered [] i"
  by (auto simp: covered_def)

lemma painted_dark:
  assumes "painted src dark spans p" "p \<le> q" "\<And>i. p \<le> i \<Longrightarrow> i < q \<Longrightarrow> dark i"
  shows "painted src dark spans q"
proof -
  have "ordered 0 spans q" using assms(1,2) ordered_mono unfolding painted_def by blast
  moreover have "covered spans i \<or> dark i" if "i < q" for i
    using assms(1,3) that by (cases "i < p") (auto simp: painted_def)
  ultimately show ?thesis using assms(1) by (simp add: painted_def)
qed

lemma painted_push:
  assumes "painted src dark spans (sp_start s)" "sp_start s < sp_end s"
    "\<And>i. sp_start s \<le> i \<Longrightarrow> i < sp_end s \<Longrightarrow> utf8 src ! i \<noteq> 10"
  shows "painted src dark (spans @ [(c, s)]) (sp_end s)"
  using assms by (auto simp: painted_def ordered_snoc not_less)

lemma painted_run:
  assumes "painted src dark spans a" "a < b" "\<And>i. a \<le> i \<Longrightarrow> i < b \<Longrightarrow> utf8 src ! i \<noteq> 10"
  shows "painted src dark (push_run file c a b spans) b"
proof (cases "spans \<noteq> [] \<and> fst (last spans) = c \<and> sp_end (snd (last spans)) = a")
  case False
  with assms painted_push [of src dark spans "Span_new file a b" c] show ?thesis
    by (auto simp: push_run_def)
next
  case True
  then obtain xs s where xs: "spans = xs @ [(c, s)]" "sp_end s = a"
    by (cases spans rule: rev_cases) auto
  then have run: "push_run file c a b spans = xs @ [(c, s\<lparr>sp_end := b\<rparr>)]"
    by (simp add: push_run_def)
  have "sp_start s < a" using assms(1) xs by (simp add: painted_def ordered_snoc)
  then have cov: "covered (push_run file c a b spans) i \<longleftrightarrow> covered spans i \<or> a \<le> i \<and> i < b" for i
    unfolding run using assms(2) xs by auto
  have "ordered 0 (push_run file c a b spans) b"
    unfolding run using assms(1,2) xs by (simp add: painted_def ordered_snoc)
  with assms cov show ?thesis by (auto simp: painted_def not_less)
qed

text \<open>The spans of a string literal cover it, character by character.\<close>

lemma string_runs_painted:
  assumes "painted src dark spans (base + i)" "str_slice src (base + i) (base + i + str_len t) = Inr t"
    "10 \<notin> set t"
  shows "painted src dark (string_runs file base (char_indices_from i t) spans) (base + i + str_len t)"
  using assms
proof (induction "length t" arbitrary: t i spans rule: less_induct)
  case less
  have step: "painted src dark (string_runs file base (char_indices_from (i + str_len x) y)
      (push_run file c (base + i) (base + i + str_len x) spans)) (base + i + str_len t)"
    if xy: "t = x @ y" "x \<noteq> []" for x y c
  proof -
    obtain s u where su: "src = s @ t @ u" "base + i = str_len s"
      using less.prems(2) by (auto simp: str_slice_Inr)
    have slx: "str_slice src (base + i) (base + i + str_len x) = Inr x"
      using str_slice_append [of s x "y @ u"] su xy by simp
    have at: "base + (i + str_len x) = str_len (s @ x)" using su(2) by simp
    have sly: "str_slice src (base + (i + str_len x)) (base + (i + str_len x) + str_len y) = Inr y"
      unfolding at using str_slice_append [of "s @ x" y u] su(1) xy(1) by simp
    have "0 < str_len x" using xy(2) by (metis gr0I str_len_0)
    moreover have "utf8 src ! j \<noteq> 10" if "base + i \<le> j" "j < base + i + str_len x" for j
      using str_slice_byte(2) [OF slx that] newline_byte [of x] less.prems(3) xy(1) by auto
    ultimately have "painted src dark (push_run file c (base + i) (base + i + str_len x) spans)
        (base + i + str_len x)"
      by (intro painted_run [OF less.prems(1)]) auto
    then have p: "painted src dark (push_run file c (base + i) (base + i + str_len x) spans)
        (base + (i + str_len x))" by (simp add: add.assoc)
    have "length y < length t" "10 \<notin> set y" using xy less.prems(3) by auto
    from less.hyps [OF this(1) p sly this(2)] xy(1) show ?thesis by (simp add: add.assoc)
  qed
  consider "t = []" | c where "t = [c]" | c d u where "t = c # d # u"
    by (cases t rule: remdups_adj.cases) auto
  then show ?case
  proof cases
    case 1
    with less.prems show ?thesis by simp
  next
    case 2
    with step [of "[c]" "[]" C_String] show ?thesis by simp
  next
    case 3
    with step [of "[c]" "d # u" C_String] step [of "[c, d]" u C_Escape] show ?thesis
      by (auto simp: add.assoc)
  qed
qed

lemma push_string_painted:
  assumes "painted src dark spans (sp_start span)"
    "str_slice src (sp_start span) (sp_end span) = Inr t" "10 \<notin> set t"
  shows "\<exists>out. push_string src span spans = Inr out \<and> painted src dark out (sp_end span)"
proof -
  have "sp_end span = sp_start span + str_len t" using assms(2) by (auto simp: str_slice_Inr)
  with string_runs_painted [of src dark spans "sp_start span" 0 t "sp_file span"] assms show ?thesis
    by (simp add: push_string_def char_indices_def)
qed

text \<open>The words of a comment do not overlap.\<close>

fun words_within :: "nat \<Rightarrow> (nat \<times> utext) list \<Rightarrow> nat \<Rightarrow> bool" where
  "words_within lo [] hi = (lo \<le> hi)"
| "words_within lo ((i, w) # ws) hi = (lo \<le> i \<and> w \<noteq> [] \<and> words_within (i + str_len w) ws hi)"

lemma words_within_mono: "words_within lo ws hi \<Longrightarrow> lo' \<le> lo \<Longrightarrow> words_within lo' ws hi"
  by (cases ws) auto

lemma todo_word_chars: "w \<in> set TODO_WORDS \<Longrightarrow> w \<noteq> [] \<and> list_all word_char w"
  by (auto simp: TODO_WORDS_def word_char_def)

lemma todo_at_Some:
  assumes "todo_at before t = Some w"
  shows "\<exists>c w' rest. w = c # w' \<and> t = c # w' @ rest \<and> word_char c \<and> list_all word_char w'"
proof -
  have "find (\<lambda>w. starts_with t w \<and> \<not> starts_with_word_char (drop (length w) t)) TODO_WORDS = Some w"
    using assms by (auto simp: todo_at_def split: if_splits)
  then have "w \<in> set TODO_WORDS" "starts_with t w" by (auto simp: find_Some_iff)
  with todo_word_chars [of w] show ?thesis by (cases w) (auto simp: starts_with_append)
qed

lemma todo_skip:
  "word_char p \<Longrightarrow> list_all word_char w \<Longrightarrow>
     todo_from (Some p) i (w @ rest) = todo_from (Some (last (p # w))) (i + str_len w) rest"
proof (induction w arbitrary: p i)
  case (Cons c w)
  then have "todo_at (Some p) ((c # w) @ rest) = None" by (simp add: todo_at_def)
  with Cons show ?case by (simp add: add.assoc)
qed simp

lemma todo_within: "words_within i (todo_from before i t) (i + str_len t)"
proof (induction "length t" arbitrary: t i before rule: less_induct)
  case less
  show ?case
  proof (cases t)
    case (Cons c cs)
    show ?thesis
    proof (cases "todo_at before t")
      case None
      have "words_within (i + len_utf8 c) (todo_from (Some c) (i + len_utf8 c) cs) (i + len_utf8 c + str_len cs)"
        using less [of cs] Cons by simp
      with None Cons show ?thesis
        by (auto simp: add.assoc intro: words_within_mono)
    next
      case (Some w)
      then obtain w' rest where w: "w = c # w'" "cs = w' @ rest" "word_char c" "list_all word_char w'"
        using todo_at_Some [OF Some] Cons by auto
      have "words_within (i + str_len w) (todo_from (Some (last w)) (i + str_len w) rest)
          (i + str_len w + str_len rest)"
        using less [of rest] Cons w by simp
      with Some Cons w todo_skip [of c w' "i + len_utf8 c" rest] show ?thesis
        by (simp add: add.assoc)
    qed
  qed simp
qed

lemma comment_runs_painted:
  assumes "painted src dark spans run_start" "run_start = base + lo" "words_within lo ws hi"
    "\<And>i. run_start \<le> i \<Longrightarrow> i < base + hi \<Longrightarrow> utf8 src ! i \<noteq> 10"
    "comment_runs file base run_start ws spans = (out, rs)"
  shows "painted src dark out rs \<and> run_start \<le> rs \<and> rs \<le> base + hi"
  using assms
proof (induction ws arbitrary: spans run_start lo)
  case (Cons p ws)
  obtain i w where p: "p = (i, w)" by (cases p)
  have lo: "lo \<le> i" "w \<noteq> []" "words_within (i + str_len w) ws hi" using Cons.prems(3) p by auto
  have le: "words_within a ws b \<Longrightarrow> a \<le> b" for a b
    by (induction ws arbitrary: a) (auto, fastforce)
  have hi: "i + str_len w \<le> hi" using le [OF lo(3)] .
  let ?sp = "if run_start < base + i then spans @ [(C_Comment, Span_new file run_start (base + i))] else spans"
  have p1: "painted src dark ?sp (base + i)"
    using painted_push [of src dark spans "Span_new file run_start (base + i)" C_Comment]
      Cons.prems(1,2,4) lo(1) hi by (auto simp: not_less)
  have "0 < str_len w" using lo(2) by (metis gr0I str_len_0)
  then have p2: "painted src dark (?sp @ [(C_Todo, Span_new file (base + i) (base + i + str_len w))])
      (base + i + str_len w)"
    using painted_push [of src dark ?sp "Span_new file (base + i) (base + i + str_len w)" C_Todo]
      p1 Cons.prems(2,4) lo(1) hi by auto
  have "painted src dark out rs \<and> base + i + str_len w \<le> rs \<and> rs \<le> base + hi"
  proof (rule Cons.IH [OF p2])
    show "base + i + str_len w = base + (i + str_len w)" by simp
    show "comment_runs file base (base + i + str_len w) ws
        (?sp @ [(C_Todo, Span_new file (base + i) (base + i + str_len w))]) = (out, rs)"
      using Cons.prems(5) by (simp add: p Let_def)
  qed (use lo Cons.prems(2,4) in auto)
  then show ?case using lo(1) Cons.prems(2) by auto
qed auto

text \<open>A gap between two tokens: the comment in it is covered and the blanks are dark.\<close>

lemma utf8_blank: "list_all is_blank ws \<Longrightarrow> utf8 ws = ws"
  by (induction ws) (auto simp: is_blank_def utf8_encode_def)

lemma find_char_first:
  assumes "c \<notin> set s"
  shows "find_char c (s @ c # u) = Some (str_len s)"
proof -
  have "find (\<lambda>(i, d). d = c) (char_indices_from k (s @ c # u)) = Some (k + str_len s, c)" for k
    using assms by (induction s arbitrary: k) (auto simp: add.assoc)
  then show ?thesis by (simp add: find_char_def char_indices_def)
qed

lemma push_comment_painted:
  assumes "painted src dark spans start" "gap_between src start fin"
    "\<And>i. utf8 src ! i = 32 \<or> utf8 src ! i = 9 \<Longrightarrow> dark i"
  shows "\<exists>out. push_comment dbg file src start fin spans = Inr out \<and> painted src dark out fin"
proof -
  obtain ws c where wc: "str_slice src start fin = Inr (ws @ c)" "list_all is_blank ws"
    "c = [] \<or> hd c = 35 \<and> 10 \<notin> set c"
    using assms(2) by (auto simp: gap_between_def is_gap_def)
  moreover from wc(1) obtain s u where "src = s @ (ws @ c) @ u" "start = str_len s"
    "fin = str_len s + str_len (ws @ c)" using str_slice_Inr by blast
  ultimately have g: "str_slice src start fin = Inr (ws @ c)" "list_all is_blank ws"
    "c = [] \<or> hd c = 35 \<and> 10 \<notin> set c" "src = s @ (ws @ c) @ u" "start = str_len s"
    "fin = str_len s + str_len (ws @ c)" by auto
  have slw: "str_slice src start (start + str_len ws) = Inr ws"
    using str_slice_append [of s ws "c @ u"] g by simp
  have slc: "str_slice src (start + str_len ws) fin = Inr c"
    using str_slice_append [of "s @ ws" c u] g by (simp add: add.assoc)
  have no: "35 \<notin> set ws" using g(2) by (auto simp: list_all_iff is_blank_def)
  have "dark i" if "start \<le> i" "i < start + str_len ws" for i
    using str_slice_byte(2) [OF slw that] g(2) assms(3) by (auto simp: utf8_blank list_all_iff is_blank_def)
  then have p: "painted src dark spans (start + str_len ws)" using painted_dark [OF assms(1)] by simp
  show ?thesis
  proof (cases c)
    case Nil
    then have "find_char 35 ws = None" using no by (simp add: find_char_None)
    with Nil g p show ?thesis by (simp add: push_comment_def utf8_blank)
  next
    case (Cons h c')
    then have h: "h = 35" "10 \<notin> set c" using g(3) by auto
    have hash: "find_char 35 (ws @ c) = Some (str_len ws)" using find_char_first [OF no] Cons h by simp
    have pre: "str_slice (ws @ c) 0 (str_len ws) = Inr ws" using str_slice_append [of "[]" ws c] by simp
    obtain out rs where runs: "comment_runs file (start + str_len ws) (start + str_len ws)
        (todo_words c) spans = (out, rs)" by (meson surj_pair)
    have nn: "utf8 src ! i \<noteq> 10" if "start + str_len ws \<le> i" "i < fin" for i
      using str_slice_byte(2) [OF slc that] newline_byte [of c] h(2) by auto
    have "painted src dark out rs \<and> start + str_len ws \<le> rs \<and> rs \<le> start + str_len ws + str_len c"
      by (rule comment_runs_painted [OF p _ _ _ runs, where lo = 0])
        (use todo_within [of 0 None c] nn g(5,6) in \<open>auto simp: todo_words_def\<close>)
    then have q: "painted src dark out rs" "start + str_len ws \<le> rs" "rs \<le> fin" using g(5,6) by auto
    have "painted src dark (if rs < fin then out @ [(C_Comment, Span_new file rs fin)] else out) fin"
      using painted_push [of src dark out "Span_new file rs fin" C_Comment] q nn by auto
    with g(1,2) hash pre slc runs show ?thesis
      by (auto simp: push_comment_def utf8_blank)
  qed
qed

subsection \<open>The loop\<close>

lemma highlight_class_None:
  "highlight_class upper tok = None \<longleftrightarrow> layout_token tok \<or> tok = T_Newline \<or> tok = T_Error"
  by (cases tok) (simp_all add: layout_token_def)

lemma class_after_None:
  "class_after upper previous tok = None \<Longrightarrow> layout_token tok \<or> tok = T_Newline \<or> tok = T_Error"
  by (auto simp: class_after_def highlight_class_None split: if_splits)

text \<open>What the highlighter leaves out: blanks, newlines and the runs no rule matches.\<close>

definition left_out :: "utext \<Rightarrow> (Token \<times> Span) list \<Rightarrow> nat \<Rightarrow> bool" where
  "left_out src toks i \<longleftrightarrow>
     utf8 src ! i \<in> {32, 9, 10} \<or>
     (\<exists>s \<in> set (error_runs toks). sp_start s \<le> i \<and> i < sp_end s)"

lemma left_out_blank: "utf8 src ! i = 32 \<or> utf8 src ! i = 9 \<Longrightarrow> left_out src toks i"
  by (auto simp: left_out_def)

lemma push_class_painted:
  assumes "painted src (left_out src toks) spans (sp_start span)" "(tok, span) \<in> set toks"
    "sp_start span < sp_end span" "\<not> layout_token tok"
    "token_text src (Some tok) (sp_start span) (sp_end span)"
  shows "\<exists>out. push_class src (class_after upper previous tok) span spans = Inr out \<and>
    painted src (left_out src toks) out (sp_end span)"
proof -
  obtain x where x: "str_slice src (sp_start span) (sp_end span) = Inr x"
    "if tok = T_Newline then x = [10] else 10 \<notin> set x"
    using assms(5) by (auto simp: token_text_def)
  show ?thesis
  proof (cases "class_after upper previous tok")
    case None
    have "left_out src toks i" if "sp_start span \<le> i" "i < sp_end span" for i
    proof (cases "tok = T_Newline")
      case True
      with str_slice_byte(2) [OF x(1) that] x(2) show ?thesis
        by (simp add: left_out_def utf8_encode_def)
    next
      case False
      with class_after_None [OF None] assms(4) have "tok = T_Error" by simp
      with assms(2) have "span \<in> set (error_runs toks)" by (force simp: error_runs_def)
      with that show ?thesis by (auto simp: left_out_def)
    qed
    with painted_dark [OF assms(1)] assms(3) None show ?thesis by (simp add: push_class_def)
  next
    case (Some c)
    then have "tok \<noteq> T_Newline" by (auto simp: class_after_def is_ident_def split: if_splits)
    with x(2) have no: "10 \<notin> set x" by simp
    have nn: "utf8 src ! i \<noteq> 10" if "sp_start span \<le> i" "i < sp_end span" for i
      using str_slice_byte(2) [OF x(1) that] newline_byte [of x] no by auto
    show ?thesis
    proof (cases "c = C_String")
      case True
      with push_string_painted [OF assms(1) x(1) no] Some show ?thesis by (simp add: push_class_def)
    next
      case False
      with painted_push [OF assms(1,3) nn] Some show ?thesis by (simp add: push_class_def)
    qed
  qed
qed

lemma highlight_loop_painted:
  assumes "painted src (left_out src all_toks) spans lo" "gap_chain src lo toks fin"
    "set toks \<subseteq> set all_toks" "ordered lo toks hi" "list_all (token_span_ok file src) toks"
  shows "\<exists>out. highlight_loop upper dbg file src previous lo toks spans = Inr (out, fin) \<and>
    painted src (left_out src all_toks) out fin"
  using assms
proof (induction toks arbitrary: lo spans previous)
  case (Cons t toks)
  obtain tok span where t: "t = (tok, span)" by (cases t)
  obtain s1 where s1: "push_comment dbg file src lo (sp_start span) spans = Inr s1"
    "painted src (left_out src all_toks) s1 (sp_start span)"
    using push_comment_painted [OF Cons.prems(1) _ left_out_blank, of "sp_start span" dbg "file"]
      Cons.prems(2) by (auto simp: t)
  obtain s2 where s2: "push_class src (class_after upper previous tok) span s1 = Inr s2"
    "painted src (left_out src all_toks) s2 (sp_end span)"
    using push_class_painted [OF s1(2), of tok upper previous] Cons.prems
    by (auto simp: t token_span_ok_def)
  from Cons.IH [OF s2(2)] Cons.prems s1 s2 show ?case by (auto simp: t)
qed auto

context logos_lexer
begin

lemma highlight_total:
  "\<exists>raw h. raw_tokens next_tok file src = Some (Inr raw) \<and>
     highlight upper next_tok dbg file src = Some (Inr h) \<and>
     painted src (left_out src (rt_tokens raw)) (hl_spans h) (str_len src)"
proof -
  obtain raw fin where raw: "raw_tokens next_tok file src = Some (Inr raw)"
    "ordered 0 (rt_tokens raw) (str_len src)" "list_all (token_span_ok file src) (rt_tokens raw)"
    "gap_chain src 0 (rt_tokens raw) fin" "gap_between src fin (str_len src)"
    using raw_tokens_total by blast
  let ?dark = "left_out src (rt_tokens raw)"
  have "painted src ?dark [] 0" by (simp add: painted_def)
  then obtain out where out: "highlight_loop upper dbg file src None 0 (rt_tokens raw) [] = Inr (out, fin)"
    "painted src ?dark out fin"
    using highlight_loop_painted [of src "rt_tokens raw" "[]" 0 "rt_tokens raw" fin] raw by blast
  then obtain spans where "push_comment dbg file src fin (str_len src) out = Inr spans"
    "painted src ?dark spans (str_len src)"
    using push_comment_painted [OF out(2) raw(5) left_out_blank, of dbg "file"] by auto
  with raw(1) out(1) show ?thesis by (auto simp: highlight_def)
qed

end

end
