(* ===== verification/Layout_Order.thy ===== *)
theory Layout_Order
  imports Raw_Tokens
begin

section \<open>The order of the laid-out tokens\<close>

text \<open>
  The pass writes its tokens in the order of their starts, the tokens it makes included. \<open>in_order x st\<close>
  says that the output is in order and that neither a token nor a head lies after \<open>x\<close>, so that a token
  that starts at \<open>x\<close> or later may follow. A head is an index of the output and an offset that splits
  the starts there, which is what the insertion of the openers rests on.
\<close>

definition token_starts :: "('a \<times> Span) list \<Rightarrow> nat list" where
  "token_starts toks = map (\<lambda>t. sp_start (snd t)) toks"

definition layout_heads :: "Layout \<Rightarrow> (nat \<times> nat) list" where
  "layout_heads st = lo_block_value_indents st @ [lo_line_head st]"

definition heads_le :: "nat \<times> nat \<Rightarrow> nat \<times> nat \<Rightarrow> bool" where
  "heads_le p q \<longleftrightarrow> fst p \<le> fst q \<and> snd p \<le> snd q"

definition splits_at :: "nat list \<Rightarrow> nat \<times> nat \<Rightarrow> bool" where
  "splits_at xs p \<longleftrightarrow>
     fst p \<le> length xs \<and> (\<forall>x \<in> set (take (fst p) xs). x \<le> snd p) \<and> (\<forall>x \<in> set (drop (fst p) xs). snd p \<le> x)"

definition in_order :: "nat \<Rightarrow> Layout \<Rightarrow> bool" where
  "in_order x st \<longleftrightarrow>
     sorted (token_starts (lo_out st)) \<and> (\<forall>s \<in> set (token_starts (lo_out st)). s \<le> x) \<and>
     sorted_wrt heads_le (layout_heads st) \<and>
     (\<forall>p \<in> set (layout_heads st). splits_at (token_starts (lo_out st)) p \<and> snd p \<le> x)"

lemma starts_append [simp]: "token_starts (xs @ ys) = token_starts xs @ token_starts ys"
  by (simp add: token_starts_def)

lemma length_starts [simp]: "length (token_starts xs) = length xs"
  by (simp add: token_starts_def)

lemma starts_simps [simp]: "token_starts [] = []" "token_starts (t # ts) = sp_start (snd t) # token_starts ts"
  by (simp_all add: token_starts_def)

lemma ord_mono: "in_order x st \<Longrightarrow> x \<le> y \<Longrightarrow> in_order y st"
  by (auto simp: in_order_def)

lemma ord_same:
  "in_order x st \<Longrightarrow> lo_out st' = lo_out st \<Longrightarrow> lo_line_head st' = lo_line_head st \<Longrightarrow>
     lo_block_value_indents st' = lo_block_value_indents st \<Longrightarrow> in_order x st'"
  by (simp add: in_order_def layout_heads_def)

lemma splits_at_append:
  assumes "splits_at xs p" "\<forall>y \<in> set ys. snd p \<le> y"
  shows "splits_at (xs @ ys) p"
  using assms by (auto simp: splits_at_def)

lemma ord_append:
  assumes "in_order x st" "x \<le> y" "lo_out st' = lo_out st @ new" "\<forall>t \<in> set new. sp_start (snd t) = y"
    "lo_line_head st' = lo_line_head st" "lo_block_value_indents st' = lo_block_value_indents st"
  shows "in_order y st'"
proof -
  have new: "set (token_starts new) \<subseteq> {y}" using assms(4) by (auto simp: token_starts_def)
  then have "sorted (token_starts new)" by (induction new) auto
  moreover have "layout_heads st' = layout_heads st" using assms(5,6) by (simp add: layout_heads_def)
  moreover have "splits_at (token_starts (lo_out st) @ token_starts new) p" if "p \<in> set (layout_heads st)" for p
    using that assms(1,2) new by (intro splits_at_append) (fastforce simp: in_order_def)+
  ultimately show ?thesis using assms(1-3) new by (force simp: in_order_def sorted_append)
qed

lemma push_out_ord:
  "in_order x st \<Longrightarrow> x \<le> sp_start span \<Longrightarrow> in_order (sp_start span) (push_out tok span st)"
  by (rule ord_append [where new = "[(tok, span)]"]) (simp_all add: push_out_def)

lemma statement_head_ord:
  assumes "in_order x st" "x \<le> sp_start span"
  shows "in_order (sp_start span) (statement_head tok span st)"
proof -
  let ?h = "(length (lo_out st), sp_start span)"
  have st: "lo_out (statement_head tok span st) = lo_out st"
    "layout_heads (statement_head tok span st) = lo_block_value_indents st @ [?h]"
    by (simp_all add: statement_head_def layout_heads_def Let_def)
  have "splits_at (token_starts (lo_out st)) ?h" using assms by (auto simp: in_order_def splits_at_def)
  moreover have "\<forall>p \<in> set (lo_block_value_indents st). heads_le p ?h"
    using assms by (auto simp: in_order_def layout_heads_def heads_le_def splits_at_def)
  ultimately show ?thesis using assms unfolding in_order_def st
    by (force simp: layout_heads_def sorted_wrt_append)
qed

lemma end_line_ord:
  assumes "in_order x st" "x \<le> sp_start span"
  shows "in_order (sp_start span) (end_line span st)"
proof -
  let ?st = "st\<lparr>lo_block_value_indents := lo_block_value_indents st @ [lo_line_head st]\<rparr>"
  have "in_order x ?st" using assms(1) by (auto simp: in_order_def layout_heads_def heads_le_def sorted_wrt_append)
  then have "in_order (sp_start span) (push_out T_Newline span ?st)" "in_order (sp_start span) (push_out T_Newline span st)"
    using push_out_ord assms by blast+
  moreover have "lo_out (end_line span st) = lo_out (push_out T_Newline span st)"
    "lo_line_head (end_line span st) = lo_line_head st"
    "lo_block_value_indents (end_line span st) \<in> {lo_block_value_indents st, lo_block_value_indents ?st}"
    by (simp_all add: end_line_def push_out_def Let_def)
  ultimately show ?thesis by (auto simp: push_out_def in_order_def layout_heads_def)
qed

lemma close_levels_ord:
  "in_order x st \<Longrightarrow> x \<le> sp_start at \<Longrightarrow> in_order (sp_start at) (close_levels indent at st)"
proof (induction indent at st arbitrary: x rule: close_levels.induct)
  case (1 indent at st)
  let ?st = "push_out (closer (last (lo_indent_stack st))) at
    (st\<lparr>lo_indent_stack := butlast (lo_indent_stack st)\<rparr>)"
  have "in_order x (st\<lparr>lo_indent_stack := butlast (lo_indent_stack st)\<rparr>)"
    using 1(2) by (rule ord_same) simp_all
  from push_out_ord [OF this 1(3)] have "in_order (sp_start at) ?st" .
  with 1(1) [of "sp_start at"] ord_mono [OF 1(2,3)] show ?case
    by (simp add: close_levels.simps [of indent at st])
qed

lemma settle_level_ord: "settle_level indent span st = Inr st' \<Longrightarrow> in_order x st \<Longrightarrow> in_order x st'"
  by (auto simp: settle_level_def push_error_def elim!: ord_same split: if_splits Level.splits)

lemma line_levels_ord:
  assumes "line_levels start indent span st = Inr st'" "in_order x st" "x \<le> start" "start \<le> sp_start span"
  shows "in_order (sp_start span) st'"
proof -
  let ?st = "st\<lparr>lo_short_header := None\<rparr>"
  let ?at = "Span_new (lo_file st) (sp_start span) (sp_start span)"
  have in_order: "in_order x ?st" using assms(2) by (rule ord_same) simp_all
  from assms(1) consider "st' = push_out T_Indent (Span_new (lo_file st) start (sp_start span))
        (?st\<lparr>lo_indent_stack := lo_indent_stack st @ [Fixed indent]\<rparr>)"
    | "settle_level indent span (close_levels indent ?at ?st) = Inr st'"
    by (auto simp: line_levels_def Let_def split: if_splits)
  then show ?thesis
  proof cases
    case 1
    have "in_order start st'"
      using assms(3) by (intro ord_append [OF assms(2), of start _ "[(T_Indent, Span_new (lo_file st) start (sp_start span))]"])
        (simp_all add: 1 push_out_def)
    then show ?thesis using assms(4) by (rule ord_mono)
  next
    case 2
    have "in_order (sp_start ?at) (close_levels indent ?at ?st)"
      using assms(3,4) by (intro close_levels_ord [OF in_order]) simp
    then show ?thesis using settle_level_ord [OF 2] by simp
  qed
qed

subsection \<open>Lines\<close>

definition newline_at :: "utext \<Rightarrow> nat \<Rightarrow> bool" where
  "newline_at src q \<longleftrightarrow> (\<exists>s u. src = s @ 10 # u \<and> q = str_len s)"

lemma char_indices_from_split:
  "char_indices_from k t = xs @ (i, c) # ys \<Longrightarrow>
     \<exists>s u. t = s @ c # u \<and> i = k + str_len s \<and> ys = char_indices_from (i + len_utf8 c) u"
proof (induction t arbitrary: k xs)
  case (Cons x t)
  show ?case
  proof (cases xs)
    case Nil
    with Cons.prems show ?thesis by (intro exI [of _ "[]"] exI [of _ t]) auto
  next
    case (Cons z zs)
    with Cons.prems have "char_indices_from (k + len_utf8 x) t = zs @ (i, c) # ys" by simp
    from Cons.IH [OF this] obtain s u where "t = s @ c # u" "i = k + len_utf8 x + str_len s"
      "ys = char_indices_from (i + len_utf8 c) u" by blast
    then show ?thesis by (intro exI [of _ "x # s"] exI [of _ u]) simp
  qed
qed simp

lemma rfind_last:
  assumes "rfind c t = Some i"
  shows "\<exists>s u. t = s @ c # u \<and> i = str_len s \<and> c \<notin> set u"
proof -
  let ?P = "\<lambda>p :: nat \<times> nat. snd p = c"
  let ?cs = "char_indices_from 0 t"
  have "(\<lambda>(i, d). d = c) = ?P" by auto
  with assms have hits: "filter ?P ?cs \<noteq> []" "i = fst (last (filter ?P ?cs))"
    by (auto simp: rfind_def char_indices_def Let_def split: if_splits)
  then have "\<exists>p \<in> set ?cs. ?P p" by (auto simp: filter_empty_conv)
  then obtain xs p ys where cs: "?cs = xs @ p # ys" "?P p" "\<forall>y \<in> set ys. \<not> ?P y"
    using split_list_last_prop [of ?cs ?P] by blast
  then have "filter ?P ys = []" by (simp add: filter_empty_conv)
  with cs hits(2) have i: "p = (i, c)" by (cases p) simp
  then obtain s u where su: "t = s @ c # u" "i = str_len s" "ys = char_indices_from (i + len_utf8 c) u"
    using char_indices_from_split [of 0 t xs i c ys] cs(1) by auto
  have "set u = snd ` set ys" using map_snd_char_indices_from [of "i + len_utf8 c" u] su(3) by (metis list.set_map)
  then show ?thesis using cs(3) su(1,2) by (intro exI [of _ s] exI [of _ u]) auto
qed

lemma rfind_None: "rfind c t = None \<Longrightarrow> c \<notin> set t"
proof -
  assume "rfind c t = None"
  then have "\<forall>p \<in> set (char_indices_from 0 t). snd p \<noteq> c"
    by (auto simp: rfind_def char_indices_def Let_def filter_empty_conv split: if_splits)
  then have "c \<notin> snd ` set (char_indices_from 0 t)" by blast
  then show ?thesis using map_snd_char_indices_from [of 0 t] by (metis list.set_map)
qed

lemma column_after_newline:
  assumes "column st span = Inr (start, indent)" "lo_source st = src" "newline_at src q" "q < sp_start span"
  shows "q < start"
proof -
  obtain before where before: "str_slice src 0 (sp_start span) = Inr before"
    "start = (case rfind 10 before of Some i \<Rightarrow> i + 1 | None \<Rightarrow> 0)"
    using assms(1,2) by (auto simp: column_def Let_def split: sum.splits if_splits)
  obtain rest where rest: "src = before @ rest" "sp_start span = str_len before"
    using before(1) by (auto simp: str_slice_Inr)
  obtain s u where su: "src = s @ 10 # u" "q = str_len s" using assms(3) by (auto simp: newline_at_def)
  have "strict_prefix s before"
  proof -
    have "prefix s src" "prefix before src" using su(1) rest(1) prefixI by metis+
    then have "prefix s before \<or> prefix before s" by (rule prefix_same_cases)
    moreover have "\<not> prefix before s" using assms(4) su(2) rest(2) by (auto simp: prefix_def)
    ultimately show ?thesis by auto
  qed
  then obtain b where "before = s @ b" "b \<noteq> []" by (auto simp: strict_prefix_def prefix_def)
  with su(1) rest(1) obtain b' where b: "before = s @ 10 # b'" by (cases b) auto
  then obtain i where i: "rfind 10 before = Some i" using rfind_None [of 10 before] by (cases "rfind 10 before") auto
  then obtain a v where av: "before = a @ 10 # v" "i = str_len a" "10 \<notin> set v" using rfind_last by blast
  have "prefix s a"
    using b av(1,3) by (auto simp: append_eq_append_conv2 append_eq_Cons_conv Cons_eq_append_conv)
  then have "str_len s \<le> str_len a" by (auto simp: prefix_def)
  then show ?thesis using before(2) i av(2) su(2) by simp
qed

subsection \<open>Brackets and tokens\<close>

lemma line_start_ord:
  assumes "line_start tok span st = Inr st'" "lo_source st = src" "in_order q st"
    "q = 0 \<or> newline_at src q \<and> q < sp_start span" "is_char_boundary src (sp_start span)"
  shows "in_order (sp_start span) st'"
proof -
  obtain start indent st1 where st1: "column st span = Inr (start, indent)" "line_levels start indent span
      (st\<lparr>lo_line_indent := indent, lo_line_short := False\<rparr>) = Inr st1"
    "st' = statement_head tok span (st1\<lparr>lo_head_is_line_first := True\<rparr>)"
    using assms(1) by (auto simp: line_start_def split: sum.splits)
  have "q \<le> start" using assms(4) column_after_newline [OF st1(1) assms(2)] by force
  moreover have "start \<le> sp_start span" using column_boundary [OF st1(1) assms(2,5)] by simp
  moreover have "in_order q (st\<lparr>lo_line_indent := indent, lo_line_short := False\<rparr>)"
    using assms(3) by (rule ord_same) simp_all
  ultimately have "in_order (sp_start span) st1" using line_levels_ord [OF st1(2)] by blast
  then have "in_order (sp_start span) (st1\<lparr>lo_head_is_line_first := True\<rparr>)" by (rule ord_same) simp_all
  then show ?thesis using statement_head_ord by (simp add: st1(3))
qed

lemma missing_tokens_start: "t \<in> set (missing_tokens at bs) \<Longrightarrow> sp_start (snd t) = sp_start at"
  by (auto simp: missing_tokens_def)

lemma closer_tokens_start: "t \<in> set (closer_tokens at bs) \<Longrightarrow> sp_start (snd t) = sp_start at"
  by (auto simp: closer_tokens_def)

lemma close_early_ord: "in_order x st \<Longrightarrow> x \<le> sp_start at \<Longrightarrow> in_order (sp_start at) (close_early at st)"
  by (erule ord_append) (auto simp: close_early_form dest: missing_tokens_start)

lemma physical_line_ord:
  assumes "physical_line tok span newline st = Inr st'" "in_order (sp_start newline) st"
  shows "in_order (sp_start newline) st'"
proof -
  let ?st = "st\<lparr>lo_brackets := rev (mark_ended (rev (lo_brackets st)))\<rparr>"
  let ?ce = "close_early (Span_new (lo_file st) (sp_start newline) (sp_start newline)) ?st"
  have "in_order (sp_start newline) ?st" using assms(2) by (rule ord_same) simp_all
  from close_early_ord [OF this] have ce: "in_order (sp_start newline) ?ce" by (metis Span_new_sel(2) order_refl)
  from assms(1) consider "st' = st" | "st' = ?ce" | "st' = end_line newline ?ce"
    by (auto simp: physical_line_def Let_def split: sum.splits if_splits)
  then show ?thesis using ce assms(2) end_line_ord [OF ce] by cases auto
qed

lemma close_bracket_ord:
  assumes "in_order x st" "x \<le> sp_start span"
  shows "in_order (sp_start span) (close_bracket k span st)"
proof (cases "rposition (\<lambda>b. ob_kind b = k) (lo_brackets st)")
  case None
  have "in_order (sp_start span) st" using assms by (rule ord_mono)
  then show ?thesis by (rule ord_same) (simp_all add: close_bracket_def None push_error_def)
next
  case (Some i)
  let ?at = "Span_new (lo_file st) (sp_start span) (sp_start span)"
  let ?inner = "meet_stray k span (rev (drop (i + 1) (lo_brackets st)))"
  show ?thesis
    using assms by (rule ord_append [where new = "missing_tokens ?at ?inner @ [(close_token k, span)]"])
      (auto simp: close_bracket_form [OF Some] dest: missing_tokens_start)
qed

lemma place_token_ord:
  assumes "in_order x st" "x \<le> sp_start span"
  shows "in_order (sp_start span) (place_token index tok span st)"
proof -
  have keep: "in_order (sp_start span) st" using assms by (rule ord_mono)
  have push: "in_order (sp_start span) st'"
    if "lo_out st' = lo_out st @ [(tok, span)]" "lo_line_head st' = lo_line_head st"
      "lo_block_value_indents st' = lo_block_value_indents st" for st'
    using assms by (rule ord_append [where new = "[(tok, span)]"]) (use that in simp_all)
  show ?thesis
  proof (cases "opened_by tok")
    case (Some k)
    then show ?thesis by (simp add: place_token_def push_out_def push)
  next
    case None
    show ?thesis
    proof (cases "closed_by tok")
      case (Some k)
      then show ?thesis using None close_bracket_ord [OF assms] by (simp add: place_token_def)
    next
      case cl: None
      have "in_order (sp_start span) (st\<lparr>lo_dropped_newline := d\<rparr>)" for d using keep by (rule ord_same) simp_all
      then show ?thesis
        using None cl end_line_ord [OF assms] by (auto simp: place_token_def push_out_def Let_def intro!: push)
    qed
  qed
qed

text \<open>
  Between two tokens nothing lies after \<open>pos\<close>. A dropped newline, and the break before a line that has
  not started, is the newline character after which nothing was written.
\<close>

definition order_inv :: "utext \<Rightarrow> nat \<Rightarrow> Layout \<Rightarrow> bool" where
  "order_inv src pos st \<longleftrightarrow>
     lo_source st = src \<and> in_order pos st \<and>
     (\<forall>s \<in> set_option (lo_dropped_newline st).
        newline_at src (sp_start s) \<and> sp_start s < pos \<and> in_order (sp_start s) st) \<and>
     (lo_at_line_start st \<longrightarrow> (\<exists>q. (q = 0 \<or> newline_at src q \<and> q < pos) \<and> in_order q st))"

lemma order_inv_mono: "order_inv src pos st \<Longrightarrow> pos \<le> pos' \<Longrightarrow> order_inv src pos' st"
  by (fastforce simp: order_inv_def elim: ord_mono)

definition same_source :: "Layout \<Rightarrow> Layout \<Rightarrow> bool" where
  "same_source st st' \<longleftrightarrow>
     lo_source st' = lo_source st \<and> lo_dropped_newline st' = lo_dropped_newline st"

lemma close_levels_same: "same_source st (close_levels indent at st)"
proof (induction indent at st rule: close_levels.induct)
  case (1 indent at st)
  then show ?case by (simp add: close_levels.simps [of indent at st] same_source_def push_out_def)
qed

lemma settle_level_same: "settle_level indent span st = Inr st' \<Longrightarrow> same_source st st'"
  by (auto simp: settle_level_def same_source_def push_error_def split: if_splits Level.splits)

lemma line_levels_same:
  assumes "line_levels start indent span st = Inr st'"
  shows "same_source st st'"
proof -
  let ?st = "close_levels indent (Span_new (lo_file st) (sp_start span) (sp_start span)) (st\<lparr>lo_short_header := None\<rparr>)"
  let ?in = "push_out T_Indent (Span_new (lo_file st) start (sp_start span))
    (st\<lparr>lo_short_header := None, lo_indent_stack := lo_indent_stack st @ [Fixed indent]\<rparr>)"
  have st: "same_source st ?st"
    using close_levels_same [where st = "st\<lparr>lo_short_header := None\<rparr>"] by (simp add: same_source_def)
  from assms consider "st' = ?in" | "settle_level indent span ?st = Inr st'"
    by (auto simp: line_levels_def Let_def split: if_splits)
  then show ?thesis
  proof cases
    case 1
    then show ?thesis by (simp add: same_source_def push_out_def)
  next
    case 2
    from settle_level_same [OF this] st show ?thesis by (simp add: same_source_def)
  qed
qed

lemma line_start_same:
  assumes "line_start tok span st = Inr st'"
  shows "same_source st st'"
proof -
  obtain start indent st1 where st1: "line_levels start indent span
      (st\<lparr>lo_line_indent := indent, lo_line_short := False\<rparr>) = Inr st1"
    "st' = statement_head tok span (st1\<lparr>lo_head_is_line_first := True\<rparr>)"
    using assms by (auto simp: line_start_def split: sum.splits)
  from line_levels_same [OF st1(1)] show ?thesis
    by (simp add: st1(2) same_source_def statement_head_def Let_def)
qed

lemma close_early_same: "same_source st (close_early at st)"
  by (simp add: close_early_form same_source_def)

lemma end_line_same: "same_source st (end_line span st)"
  by (simp add: end_line_def push_out_def Let_def same_source_def)

lemma physical_line_same:
  assumes "physical_line tok span newline st = Inr st'"
  shows "same_source st st'"
proof -
  let ?st = "st\<lparr>lo_brackets := rev (mark_ended (rev (lo_brackets st)))\<rparr>"
  let ?ce = "close_early (Span_new (lo_file st) (sp_start newline) (sp_start newline)) ?st"
  have ce: "same_source st ?ce"
    using close_early_same [where st = ?st] by (simp add: same_source_def)
  from assms consider "st' = st" | "st' = ?ce" | "st' = end_line newline ?ce"
    by (auto simp: physical_line_def Let_def split: sum.splits if_splits)
  then show ?thesis using ce end_line_same [of ?ce newline] by cases (simp_all add: same_source_def)
qed

lemma place_token_same:
  "lo_source (place_token index tok span st) = lo_source st"
  "lo_dropped_newline (place_token index tok span st) =
     (if tok = T_Newline \<and> lo_brackets st \<noteq> []
      then Some (case lo_dropped_newline st of Some s \<Rightarrow> s | None \<Rightarrow> span) else lo_dropped_newline st)"
  "lo_at_line_start (place_token index tok span st) \<longleftrightarrow>
     tok = T_Newline \<and> lo_brackets st = [] \<or> lo_at_line_start st"
proof -
  have "lo_source (close_bracket k span st) = lo_source st \<and>
      lo_dropped_newline (close_bracket k span st) = lo_dropped_newline st \<and>
      lo_at_line_start (close_bracket k span st) = lo_at_line_start st" for k
    by (cases "rposition (\<lambda>b. ob_kind b = k) (lo_brackets st)")
      (simp_all add: close_bracket_form, simp_all add: close_bracket_def push_error_def)
  then show "lo_source (place_token index tok span st) = lo_source st"
    "lo_dropped_newline (place_token index tok span st) =
     (if tok = T_Newline \<and> lo_brackets st \<noteq> []
      then Some (case lo_dropped_newline st of Some s \<Rightarrow> s | None \<Rightarrow> span) else lo_dropped_newline st)"
    "lo_at_line_start (place_token index tok span st) \<longleftrightarrow>
     tok = T_Newline \<and> lo_brackets st = [] \<or> lo_at_line_start st"
    by (auto simp: place_token_def push_out_def end_line_def Let_def split: option.splits)
qed

lemma resume_line_order:
  assumes "resume_line tok span st = Inr st1" "order_inv src pos st"
  shows "order_inv src pos st1" "tok \<noteq> T_Newline \<Longrightarrow> lo_dropped_newline st1 = None"
    "tok = T_Newline \<Longrightarrow> st1 = st"
proof -
  show "tok = T_Newline \<Longrightarrow> st1 = st" using assms(1) by (simp add: resume_line_def)
  show "tok \<noteq> T_Newline \<Longrightarrow> lo_dropped_newline st1 = None"
    using assms(1) by (auto simp: resume_line_def same_source_def split: option.splits dest!: physical_line_same)
  show "order_inv src pos st1"
  proof (cases "tok = T_Newline \<or> lo_dropped_newline st = None")
    case True
    then have "st1 = st" using assms(1) by (auto simp: resume_line_def split: if_splits)
    then show ?thesis using assms(2) by simp
  next
    case False
    then obtain s where s: "lo_dropped_newline st = Some s" "tok \<noteq> T_Newline" by auto
    let ?st = "st\<lparr>lo_dropped_newline := None\<rparr>"
    have pl: "physical_line tok span s ?st = Inr st1" using s assms(1) by (simp add: resume_line_def)
    have so: "newline_at src (sp_start s)" "sp_start s < pos" "in_order (sp_start s) st" "lo_source st = src"
      using s(1) assms(2) by (simp_all add: order_inv_def)
    have "in_order (sp_start s) ?st" using so(3) by (rule ord_same) simp_all
    from physical_line_ord [OF pl this] have "in_order (sp_start s) st1" .
    with so ord_mono [OF this, of pos] physical_line_same [OF pl] show ?thesis
      by (auto simp: order_inv_def same_source_def intro!: exI [of _ "sp_start s"])
  qed
qed

lemma token_order:
  assumes "token index tok span st = Inr st'" "order_inv src pos st" "pos \<le> sp_start span"
    "sp_start span < sp_end span" "is_char_boundary src (sp_start span)"
    "tok = T_Newline \<Longrightarrow> newline_at src (sp_start span)" "lay_inv st"
  shows "order_inv src (sp_end span) st'"
proof (cases "lo_at_line_start st \<and> tok = T_Newline")
  case True
  then have "st' = st" using assms(1) by (simp add: token_def)
  then show ?thesis using order_inv_mono [OF assms(2)] assms(3,4) by simp
next
  case False
  then obtain st1 st2 where st: "resume_line tok span st = Inr st1" "begin_statement tok span st1 = Inr st2"
    "st' = place_token index tok span (st2\<lparr>lo_at_line_start := False\<rparr>)"
    using assms(1) by (auto simp: token_def split: sum.splits if_splits)
  note r = resume_line_order [OF st(1) assms(2)]
  have st2: "in_order (sp_start span) st2 \<and> same_source st1 st2 \<and> (tok = T_Newline \<longrightarrow> st2 = st)"
  proof (cases "lo_at_line_start st1 \<and> lo_brackets st1 = []")
    case line: True
    then have "tok \<noteq> T_Newline" using False r(3) by auto
    moreover obtain q where "q = 0 \<or> newline_at src q \<and> q < pos" "in_order q st1" "lo_source st1 = src"
      using r(1) line by (auto simp: order_inv_def)
    ultimately show ?thesis
      using st(2) line line_start_ord [of tok span st1 st2 src q] line_start_same [of tok span st1 st2] assms(3,5)
      by (auto simp: begin_statement_def)
  next
    case inside: False
    have "in_order pos st1" using r(1) by (simp add: order_inv_def)
    then have "in_order (sp_start span) (statement_head tok span st1)" "in_order (sp_start span) st1"
      using statement_head_ord ord_mono assms(3) by blast+
    then show ?thesis using st(2) r(3) inside
      by (auto simp: begin_statement_def same_source_def statement_head_def Let_def split: if_splits)
  qed
  have "in_order (sp_start span) (st2\<lparr>lo_at_line_start := False\<rparr>)" using st2 by (auto elim!: ord_same)
  from place_token_ord [OF this] have o: "in_order (sp_start span) st'" by (simp add: st(3))
  moreover have "newline_at src (sp_start s) \<and> sp_start s < sp_end span \<and> in_order (sp_start s) st'"
    if "lo_dropped_newline st' = Some s" for s
  proof (cases "lo_dropped_newline st2")
    case None
    then have "s = span" "tok = T_Newline" using that by (auto simp: st(3) place_token_same split: if_splits)
    then show ?thesis using o assms(4,6) by simp
  next
    case (Some d)
    then have "tok = T_Newline" "st2 = st" using st2 r(2) by (force simp: same_source_def)+
    with Some that have n: "tok = T_Newline" "st2 = st" "s = d"
      by (simp_all add: st(3) place_token_same split: if_splits)
    then have d: "newline_at src (sp_start d)" "sp_start d < pos" "in_order (sp_start d) st"
      using Some assms(2) by (simp_all add: order_inv_def)
    have "lo_brackets st \<noteq> []" using assms(7) Some n by (auto simp: lay_inv_def)
    then have "lo_out st' = lo_out st" "layout_heads st' = layout_heads st"
      using n by (simp_all add: st(3) place_token_def layout_heads_def)
    then have "in_order (sp_start d) st'" using d(3) by (simp add: in_order_def)
    then show ?thesis using d assms(3,4) n(3) by simp
  qed
  ultimately show ?thesis
    using ord_mono [OF o, of "sp_end span"] assms(4,6) r(1) st2
    by (auto simp: order_inv_def st(3) place_token_same same_source_def intro!: exI [of _ "sp_start span"])
qed

subsection \<open>A whole run\<close>

definition orderly_token :: "utext \<Rightarrow> Token \<times> Span \<Rightarrow> bool" where
  "orderly_token src t \<longleftrightarrow> raw_token src t \<and> (fst t = T_Newline \<longrightarrow> newline_at src (sp_start (snd t)))"

lemma run_tokens_order:
  assumes "run_tokens index toks st = Inr st'" "order_inv src pos st" "lay_inv st"
    "ordered pos toks hi" "list_all (orderly_token src) toks"
  shows "\<exists>fin \<le> hi. order_inv src fin st'"
  using assms
proof (induction toks arbitrary: index pos st)
  case Nil
  then show ?case by auto
next
  case (Cons t toks)
  obtain tok span where t: "t = (tok, span)" by (cases t)
  have src: "lo_source st = src" using Cons.prems(2) by (simp add: order_inv_def)
  obtain st1 where st1: "token index tok span st = Inr st1" "lay_inv st1"
    using token_total [OF Cons.prems(3), of tok span index] Cons.prems(5) t src by (auto simp: orderly_token_def)
  have "order_inv src (sp_end span) st1"
    using Cons.prems t by (intro token_order [OF st1(1) Cons.prems(2)]) (auto simp: orderly_token_def raw_token_def)
  then show ?case
    using Cons.IH [of "Suc index" st1 "sp_end span"] Cons.prems t st1 by simp
qed

lemma splits_at_Cons:
  assumes "splits_at (x # xs) (b, at)" "Suc i \<le> i + b"
  shows "splits_at xs (b - 1, at)" "x \<le> at"
  using assms by (cases b; auto simp: splits_at_def)+

lemma insert_openers_order:
  assumes "sorted (token_starts toks)" "sorted_wrt heads_le ops"
    "\<forall>p \<in> set ops. i \<le> fst p \<and> splits_at (token_starts toks) (fst p - i, snd p) \<and> lo \<le> snd p"
    "\<forall>s \<in> set (token_starts toks). lo \<le> s"
  shows "sorted (token_starts (fst (insert_openers f i toks ops))) \<and>
    (\<forall>s \<in> set (token_starts (fst (insert_openers f i toks ops))). lo \<le> s)"
  using assms
proof (induction toks arbitrary: i ops lo)
  case (Cons t toks)
  let ?at = "\<lambda>(b, _). b = i"
  let ?here = "map (\<lambda>(_, at). (T_BlockValueIndent, Span_new f at at)) (takeWhile ?at ops)"
  let ?rest = "dropWhile ?at ops"
  let ?s = "sp_start (snd t)"
  have srt: "sorted_wrt heads_le (takeWhile ?at ops)" "sorted_wrt heads_le ?rest"
    using Cons.prems(2) by (metis sorted_wrt_append takeWhile_dropWhile_id)+
  have "Suc i \<le> fst p" if p: "p \<in> set ?rest" for p
  proof -
    obtain q qs where q: "?rest = q # qs" using p by (cases ?rest) auto
    then have "fst q \<noteq> i" "q \<in> set ops"
      using hd_dropWhile [of ?at ops] set_dropWhileD [of q ?at ops] by (auto simp: case_prod_beta)
    then have "Suc i \<le> fst q" using Cons.prems(3) by force
    moreover have "fst q \<le> fst p" using p q srt(2) by (auto simp: heads_le_def)
    ultimately show ?thesis by simp
  qed
  moreover have "splits_at (?s # token_starts toks) (fst p - i, snd p)" if "p \<in> set ?rest" for p
    using that Cons.prems(3) by (auto dest: set_dropWhileD)
  ultimately have rest: "\<forall>p \<in> set ?rest. Suc i \<le> fst p \<and> splits_at (token_starts toks) (fst p - Suc i, snd p) \<and> ?s \<le> snd p"
    using splits_at_Cons [of ?s "token_starts toks" "fst p - i" "snd p" i for p] by (force simp: )
  have "sorted (token_starts toks)" "\<forall>s \<in> set (token_starts toks). ?s \<le> s" using Cons.prems(1) by auto
  with Cons.IH [OF _ srt(2) rest] have tail:
    "sorted (token_starts (fst (insert_openers f (Suc i) toks ?rest)))"
    "\<forall>s \<in> set (token_starts (fst (insert_openers f (Suc i) toks ?rest))). ?s \<le> s" by auto
  have here: "token_starts ?here = map snd (takeWhile ?at ops)" by (auto simp: token_starts_def case_prod_beta)
  have "sorted (token_starts ?here)"
    unfolding here using srt(1) by (auto simp: sorted_wrt_map heads_le_def elim!: sorted_wrt_mono_rel [rotated])
  moreover have "lo \<le> a \<and> a \<le> ?s" if a: "a \<in> set (token_starts ?here)" for a
  proof -
    obtain b where b: "(b, a) \<in> set (takeWhile ?at ops)" using a [unfolded here] by auto
    then have "b = i" "(b, a) \<in> set ops" by (auto dest: set_takeWhileD)
    then show ?thesis using Cons.prems(3) by (force simp: splits_at_def)
  qed
  moreover have "lo \<le> ?s" using Cons.prems(4) by simp
  ultimately show ?case using tail
    by (auto simp: Let_def sorted_append case_prod_beta starts_append simp del: token_starts_def intro: order_trans)
qed simp

lemma finish_order:
  assumes "finish dbg st = Inr st'" "in_order x st" "x \<le> str_len (lo_source st)" "lo_indent_stack st \<noteq> []"
  shows "sorted (token_starts (lo_out st'))"
proof -
  let ?n = "str_len (lo_source st)"
  let ?es = "Span_new (lo_file st) ?n ?n"
  define st1 where "st1 = close_open ?es st"
  define st2 where "st2 = (if lo_out st1 \<noteq> [] \<and> fst (last (lo_out st1)) = T_Newline then st1
    else push_out T_Newline ?es st1)"
  define st3 where "st3 = dedent_all ?es st2"
  have "in_order ?n st1"
    using assms(2,3) unfolding st1_def
    by (rule ord_append) (auto simp: close_open_form dest: missing_tokens_start)
  then have o2: "in_order ?n st2" using push_out_ord [of ?n st1 ?es] by (simp add: st2_def)
  have "lo_indent_stack st2 = lo_indent_stack st"
    by (auto simp: st2_def st1_def close_open_form push_out_def)
  with assms(4) obtain l ls where "lo_indent_stack st2 = l # ls" by (metis list.exhaust)
  then have o3: "in_order ?n st3"
    using o2 unfolding st3_def
    by (intro ord_append [OF o2, where new = "closer_tokens ?es (rev ls)"])
      (auto simp: dedent_all_form dest: closer_tokens_start)
  have "sorted (token_starts (fst (insert_openers (lo_file st3) 0 (lo_out st3) (lo_block_value_indents st3))))"
    using insert_openers_order [of "lo_out st3" "lo_block_value_indents st3" 0 0] o3
    by (auto simp: in_order_def layout_heads_def sorted_wrt_append)
  moreover from assms(1) have "st' = st3 \<or> st' = st3\<lparr>lo_out := fst (insert_openers (lo_file st3) 0
      (lo_out st3) (lo_block_value_indents st3))\<rparr>"
    unfolding finish_def Let_def st1_def [symmetric] st2_def [symmetric] st3_def [symmetric]
    by (auto split: if_splits prod.splits)
  moreover have "sorted (token_starts (lo_out st3))" using o3 by (simp add: in_order_def)
  ultimately show ?thesis by auto
qed

lemma Layout_run_order:
  assumes "Layout_run dbg file src raw resync = Inr st" "list_all (orderly_token src) raw"
    "ordered 0 raw (str_len src)"
  shows "sorted (token_starts (lo_out st))"
proof -
  let ?st0 = "initial_layout file src resync"
  obtain st1 where st1: "run_tokens 0 raw ?st0 = Inr st1" "finish dbg st1 = Inr st"
    using assms(1) by (auto simp: Layout_run_def split: sum.splits)
  have "in_order 0 ?st0" by (simp add: in_order_def layout_heads_def splits_at_def initial_layout_def)
  then have "order_inv src 0 ?st0" by (auto simp: order_inv_def) (simp_all add: initial_layout_def)
  from run_tokens_order [OF st1(1) this initial_layout_inv assms(3,2)] obtain fin
    where fin: "fin \<le> str_len src" "order_inv src fin st1" by blast
  have "list_all (raw_token (lo_source ?st0)) raw"
    using assms(2) by (auto simp: initial_layout_def orderly_token_def list_all_iff)
  from run_tokens_total [OF initial_layout_inv this, of 0] st1(1) have "lay_inv st1" by auto
  then have "lo_indent_stack st1 \<noteq> []" by (simp add: lay_inv_def base_inv_def)
  with finish_order [OF st1(2), of fin] fin show ?thesis by (simp add: order_inv_def)
qed

subsection \<open>The lexer's stream\<close>

lemma ordered_below: "ordered lo ts hi \<Longrightarrow> lo' \<le> lo \<Longrightarrow> ordered lo' ts hi"
  by (cases ts) auto

lemma drop_recursive_ordered: "ordered lo ts hi \<Longrightarrow> ordered lo (drop_recursive ts) hi"
proof (induction ts arbitrary: lo)
  case (Cons t ts)
  then show ?case using ordered_below [of "sp_end (snd t)" "drop_recursive ts" hi lo] by auto
qed simp

lemma gap_chain_text:
  "gap_chain src lo ts pos \<Longrightarrow> t \<in> set ts \<Longrightarrow>
     token_text src (Some (fst t)) (sp_start (snd t)) (sp_end (snd t))"
  by (induction ts arbitrary: lo) auto

lemma newline_text: "token_text src (Some T_Newline) a b \<Longrightarrow> newline_at src a"
  by (auto simp: token_text_def newline_at_def str_slice_Inr)

context logos_lexer
begin

lemma tokenize_in_text:
  assumes "tokenize next_tok dbg file src = Some (Inr lx)"
  shows "list_all (\<lambda>t. text_span src (snd t)) (lx_tokens lx)" "sorted (token_starts (lx_tokens lx))"
    "list_all (error_in_text src) (lx_errors lx)"
proof -
  obtain raw fin where raw: "raw_tokens next_tok file src = Some (Inr raw)"
    "ordered 0 (rt_tokens raw) (str_len src)" "list_all (token_span_ok file src) (rt_tokens raw)"
    "drop_detached raw = drop_recursive (rt_tokens raw)" "list_all (error_in_text src) (rt_errors raw)"
    "gap_chain src 0 (rt_tokens raw) fin"
    using raw_tokens_total by blast
  let ?toks = "drop_detached raw"
  have sub: "set ?toks \<subseteq> set (rt_tokens raw)" using raw(4) drop_recursive_subset by simp
  have toks: "list_all (\<lambda>t. text_span src (snd t)) ?toks"
    using raw(2,3) sub ordered_positive by (fastforce simp: list_all_iff token_span_ok_def text_span_def)
  have rt: "list_all (raw_token src) ?toks"
    using raw(3) sub by (auto simp: list_all_iff token_span_ok_def raw_token_def)
  have "list_all (orderly_token src) ?toks"
    using rt sub gap_chain_text [OF raw(6)] newline_text by (force simp: list_all_iff orderly_token_def)
  moreover have "ordered 0 ?toks (str_len src)" using raw(2,4) drop_recursive_ordered by simp
  moreover obtain st where st: "lay_out dbg file src ?toks = Inr st"
    "lx_tokens lx = lo_out st" "lx_errors lx = sort_errors (rt_errors raw @ lo_errors st)"
    using assms raw(1) by (auto simp: tokenize_def split: sum.splits if_splits)
  moreover obtain resync where "Layout_run dbg file src ?toks resync = Inr st"
    using st(1) by (auto simp: lay_out_def split: sum.splits if_splits)
  ultimately show "list_all (\<lambda>t. text_span src (snd t)) (lx_tokens lx)" "sorted (token_starts (lx_tokens lx))"
    "list_all (error_in_text src) (lx_errors lx)"
    using Layout_run_spans [OF _ toks rt] Layout_run_order raw(5)
    by (auto simp: sort_errors_def list_all_iff)
qed

end

end
