(* ===== verification/Lexer_Properties.thy ===== *)
theory Lexer_Properties
  imports Highlight Layout_Order
begin

section \<open>Properties of the lexer\<close>

text \<open>
  The promises of \<open>tokenize\<close>, \<open>raw_tokens\<close> and \<open>highlight\<close> for every lexer that keeps the contract
  \<open>logos_lexer\<close>, with the rules of the token enum as the witness.
\<close>

text \<open>C1. \<open>tokenize\<close> returns for every source, with or without debug assertions, and its stream
  nests: every bracket, \<open>Indent\<close> and \<open>BlockValueIndent\<close> is closed by a closer of its kind, the
  pairs nest, and no \<open>Newline\<close> stands inside a bracket.\<close>
theorem tokenize_nests:
  assumes "logos_lexer next_tok"
  shows "\<exists>lx. tokenize next_tok dbg file src = Some (Inr lx) \<and> nest (map fst (lx_tokens lx)) [] = Some []"
  using logos_lexer.tokenize_result [OF assms] by metis

theorem tokenize_nests_witness:
  "\<exists>lx. tokenize rules_lexer True FileId_ROOT (lit ''x = (1'') = Some (Inr lx) \<and>
     nest (map fst (lx_tokens lx)) [] = Some []"
  by (rule tokenize_nests) (rule rules.logos_lexer_axioms)

text \<open>The stream ends in a \<open>Newline\<close> followed only by \<open>Dedent\<close> and \<open>BlockValueDedent\<close> tokens,
  each with the empty span at the end of the text.\<close>
lemma tokenize_ends:
  assumes "logos_lexer next_tok"
  shows "\<exists>lx pre at ls. tokenize next_tok dbg file src = Some (Inr lx) \<and>
    lx_tokens lx = pre @ (T_Newline, at) #
      map (\<lambda>l. (closer l, Span_new file (str_len src) (str_len src))) ls"
  using logos_lexer.tokenize_result [OF assms] unfolding closer_tokens_def by metis

text \<open>C4. Every span of the stream and of the errors, the related spans included, lies in the text and on
  character boundaries, and the tokens are in the order of their starts: the layout tokens and the
  closers that recovery makes up stand where they were inserted.\<close>
theorem tokenize_in_order:
  assumes "logos_lexer next_tok"
  shows "\<exists>lx. tokenize next_tok dbg file src = Some (Inr lx) \<and>
    list_all (\<lambda>t. text_span src (snd t)) (lx_tokens lx) \<and>
    sorted (map (\<lambda>t. sp_start (snd t)) (lx_tokens lx)) \<and>
    list_all (error_in_text src) (lx_errors lx)"
proof -
  obtain lx where "tokenize next_tok dbg file src = Some (Inr lx)"
    using logos_lexer.tokenize_result [OF assms] by metis
  with logos_lexer.tokenize_in_text [OF assms this] show ?thesis by (simp add: token_starts_def)
qed

theorem tokenize_in_order_witness:
  "\<exists>lx. tokenize rules_lexer True FileId_ROOT (lit ''f([)'') = Some (Inr lx) \<and>
    list_all (\<lambda>t. text_span (lit ''f([)'') (snd t)) (lx_tokens lx) \<and>
    sorted (map (\<lambda>t. sp_start (snd t)) (lx_tokens lx)) \<and>
    list_all (error_in_text (lit ''f([)'')) (lx_errors lx)"
  by (rule tokenize_in_order) (rule rules.logos_lexer_axioms)

text \<open>C2. The zero-width close brackets of the stream are as many as the \<open>UnclosedBracket\<close> and
  \<open>MismatchedClose\<close> errors, so the debug assertion that compares them holds, and the errors are in
  the order of their spans.\<close>
theorem tokenize_closers_reported:
  assumes "logos_lexer next_tok"
  shows "\<exists>lx. tokenize next_tok dbg file src = Some (Inr lx) \<and>
    length (filter zero_width_closer (lx_tokens lx)) = length (filter reports_closer (lx_errors lx)) \<and>
    sorted (map (\<lambda>e. sp_start (error_span e)) (lx_errors lx))"
  using logos_lexer.tokenize_result [OF assms] by metis

theorem tokenize_closers_reported_witness:
  "\<exists>lx. tokenize rules_lexer True FileId_ROOT (lit ''f(['') = Some (Inr lx) \<and>
    length (filter zero_width_closer (lx_tokens lx)) = length (filter reports_closer (lx_errors lx)) \<and>
    sorted (map (\<lambda>e. sp_start (error_span e)) (lx_errors lx))"
  by (rule tokenize_closers_reported) (rule rules.logos_lexer_axioms)



text \<open>C5. \<open>raw_tokens\<close> returns. Its spans are nonempty, in source order and within the text; its
  \<open>Error\<close> tokens and its \<open>InvalidToken\<close> errors have the same spans in the same order; and the runs
  are maximal, no \<open>Error\<close> token touching the next.\<close>
theorem raw_tokens_spans:
  assumes "logos_lexer next_tok"
  shows "\<exists>raw. raw_tokens next_tok file src = Some (Inr raw) \<and>
    ordered 0 (rt_tokens raw) (str_len src) \<and>
    map error_span (filter is_invalid (rt_errors raw)) = error_runs (rt_tokens raw) \<and>
    successively apart (rt_tokens raw)"
  using logos_lexer.raw_tokens_total [OF assms, of "file" src] by blast

theorem raw_tokens_spans_witness:
  "\<exists>raw. raw_tokens rules_lexer FileId_ROOT (lit ''a $$ b'') = Some (Inr raw) \<and>
    ordered 0 (rt_tokens raw) (str_len (lit ''a $$ b'')) \<and>
    map error_span (filter is_invalid (rt_errors raw)) = error_runs (rt_tokens raw) \<and>
    successively apart (rt_tokens raw)"
  by (rule raw_tokens_spans) (rule rules.logos_lexer_axioms)

text \<open>C6. \<open>highlight\<close> returns and paints the whole text: its spans are in order and disjoint, none
  holds a newline, and a byte outside all of them is a blank, a newline or part of an \<open>Error\<close> run.\<close>
theorem highlight_paints:
  assumes "logos_lexer next_tok"
  shows "\<exists>raw h. raw_tokens next_tok file src = Some (Inr raw) \<and>
    highlight upper next_tok dbg file src = Some (Inr h) \<and>
    ordered 0 (hl_spans h) (str_len src) \<and>
    (\<forall>i. covered (hl_spans h) i \<longrightarrow> utf8 src ! i \<noteq> 10) \<and>
    (\<forall>i < str_len src. covered (hl_spans h) i \<or> left_out src (rt_tokens raw) i)"
  using logos_lexer.highlight_total [OF assms, of "file" src upper dbg] unfolding painted_def by blast

theorem highlight_paints_witness:
  "\<exists>raw h. raw_tokens rules_lexer FileId_ROOT (lit ''x # TODO'') = Some (Inr raw) \<and>
    highlight (\<lambda>_. False) rules_lexer True FileId_ROOT (lit ''x # TODO'') = Some (Inr h) \<and>
    ordered 0 (hl_spans h) (str_len (lit ''x # TODO'')) \<and>
    (\<forall>i. covered (hl_spans h) i \<longrightarrow> utf8 (lit ''x # TODO'') ! i \<noteq> 10) \<and>
    (\<forall>i < str_len (lit ''x # TODO'').
       covered (hl_spans h) i \<or> left_out (lit ''x # TODO'') (rt_tokens raw) i)"
  by (rule highlight_paints) (rule rules.logos_lexer_axioms)

text \<open>The tables agree: a keyword or operator token displays as its spelling, the spellings of
  the keywords are identifiers, no two tokens share a spelling, and every highlight class is listed
  once with a name of its own.\<close>
lemma token_tables:
  "list_all (\<lambda>(s, tok). Token_display tok = s) (KEYWORDS @ OPERATORS) \<and>
   list_all (\<lambda>(s, tok). is_ident_start (hd s) \<and> list_all is_ident_char s) KEYWORDS \<and>
   distinct (map fst (KEYWORDS @ OPERATORS)) \<and> distinct (map snd (KEYWORDS @ OPERATORS)) \<and>
   distinct HighlightClass_ALL \<and> c \<in> set HighlightClass_ALL \<and>
   distinct (map HighlightClass_name HighlightClass_ALL)"
proof (intro conjI)
  show "c \<in> set HighlightClass_ALL" by (cases c) (simp_all add: HighlightClass_ALL_def)
qed code_simp+

text \<open>Two string literals with no gap between them are painted as one span, although each is a
  token of its own: the closure of \<open>push_string\<close> extends the last span, whichever token made it.\<close>
lemma adjacent_strings_one_span:
  "map_option (map_ok (\<lambda>h. map (\<lambda>(c, s). (c, sp_start s, sp_end s)) (hl_spans h)))
     (highlight (\<lambda>_. False) rules_lexer True FileId_ROOT [34, 97, 34, 34, 98, 34]) =
   Some (Inr [(C_String, 0, 6)]) \<and>
   map_option (map_ok (\<lambda>r. length (rt_tokens r)))
     (raw_tokens rules_lexer FileId_ROOT [34, 97, 34, 34, 98, 34]) = Some (Inr 2)"
  by code_simp

end
