(* ===== verification/Module_Paths.thy ===== *)
theory Module_Paths
  imports Token_Rules
begin

section \<open>Module paths and the source map\<close>

text \<open>
  \<open>chl-parser/src/module_path.rs\<close> and \<open>chl-parser/src/source_map.rs\<close>: the identity of a module,
  the rule its segments follow, and the files of a compilation by \<open>FileId\<close>. A segment is checked
  by the lexer, which is a parameter as in \<open>Raw_Tokens\<close>. The newline cache of a source file is
  built by the rendering library and holds no state of its own, so it is not part of the record.
\<close>

subsection \<open>Paths\<close>

definition STD_ROOT :: utext where
  "STD_ROOT = lit ''std''"

datatype ModulePath = ModulePath "utext list"

fun segments :: "ModulePath \<Rightarrow> utext list" where
  "segments (ModulePath ss) = ss"

definition one_identifier :: "lexer \<Rightarrow> utext \<Rightarrow> bool" where
  "one_identifier next_tok name =
     (case next_tok name 0 of
        Some (Some tok, a, b) \<Rightarrow>
          is_ident tok \<and> a = 0 \<and> b = str_len name \<and> next_tok name b = None
      | _ \<Rightarrow> False)"

definition segment_error :: "lexer \<Rightarrow> utext \<Rightarrow> utext option" where
  "segment_error next_tok name =
     (if \<not> one_identifier next_tok name
      then Some (lit ''module name '' @ [96] @ name @ [96] @ lit '' is not an identifier'')
      else if starts_with name (lit ''__'')
      then Some (lit ''module name '' @ [96] @ name @ [96] @ lit '' begins with '' @ [96] @
             lit ''__'' @ [96] @ lit '', a namespace user code cannot bind'')
      else if \<not> (name \<noteq> [] \<and> 97 \<le> hd name \<and> hd name \<le> 122)
      then Some (lit ''module name '' @ [96] @ name @ [96] @
             lit '' must begin with a lowercase letter; a capitalized name is a type'')
      else None)"

definition ModulePath_new :: "lexer \<Rightarrow> bool \<Rightarrow> utext list \<Rightarrow> ModulePath res" where
  "ModulePath_new next_tok dbg ss =
     (if ss = [] then Inl AssertFailed
      else if dbg \<and> \<not> list_all (\<lambda>s. segment_error next_tok s = None) ss then Inl AssertFailed
      else Inr (ModulePath ss))"

definition is_std :: "ModulePath \<Rightarrow> bool res" where
  "is_std p = (case segments p of [] \<Rightarrow> Inl OutOfRange | s # _ \<Rightarrow> Inr (s = STD_ROOT))"

definition relative_file :: "ModulePath \<Rightarrow> utext" where
  "relative_file p = join (lit ''/'') (segments p) @ lit ''.cambra''"

definition ModulePath_display :: "ModulePath \<Rightarrow> utext" where
  "ModulePath_display p = join (lit ''::'') (segments p)"

subsection \<open>The source map\<close>

record SourceFile =
  sf_path :: utext
  sf_module :: "ModulePath option"
  sf_text :: utext

record SourceMap =
  sm_files :: "SourceFile list"

definition SourceMap_default :: SourceMap where
  "SourceMap_default = \<lparr>sm_files = []\<rparr>"

definition push_file ::
  "utext \<Rightarrow> ModulePath option \<Rightarrow> utext \<Rightarrow> SourceMap \<Rightarrow> (FileId \<times> SourceMap) res" where
  "push_file path m src sm =
     (if 2 ^ 32 \<le> length (sm_files sm) then Inl ExpectFailed
      else Inr (FileId (length (sm_files sm)),
             sm\<lparr>sm_files := sm_files sm @ [\<lparr>sf_path = path, sf_module = m, sf_text = src\<rparr>]\<rparr>))"

definition add_file :: "utext \<Rightarrow> utext \<Rightarrow> SourceMap \<Rightarrow> (FileId \<times> SourceMap) res" where
  "add_file path src sm = push_file path None src sm"

definition add_module ::
  "ModulePath \<Rightarrow> utext \<Rightarrow> utext \<Rightarrow> SourceMap \<Rightarrow> (FileId \<times> SourceMap) res" where
  "add_module m path src sm = push_file path (Some m) src sm"

definition SourceMap_single :: "utext \<Rightarrow> utext \<Rightarrow> SourceMap res" where
  "SourceMap_single path src = map_ok snd (add_file path src SourceMap_default)"

definition files :: "SourceMap \<Rightarrow> FileId list" where
  "files sm = map (\<lambda>i. FileId (i mod 2 ^ 32)) [0..<length (sm_files sm)]"

definition SourceMap_root :: "SourceMap \<Rightarrow> FileId res" where
  "SourceMap_root sm = (if sm_files sm = [] then Inl AssertFailed else Inr FileId_ROOT)"

definition source_file :: "FileId \<Rightarrow> SourceMap \<Rightarrow> SourceFile res" where
  "source_file f sm =
     (if FileId_index f < length (sm_files sm) then Inr (sm_files sm ! FileId_index f)
      else Inl Explicit)"

definition file_path :: "FileId \<Rightarrow> SourceMap \<Rightarrow> utext res" where
  "file_path f sm = map_ok sf_path (source_file f sm)"

definition file_module :: "FileId \<Rightarrow> SourceMap \<Rightarrow> ModulePath option res" where
  "file_module f sm = map_ok sf_module (source_file f sm)"

definition file_text :: "FileId \<Rightarrow> SourceMap \<Rightarrow> utext res" where
  "file_text f sm = map_ok sf_text (source_file f sm)"

subsection \<open>Segments under the rules of the token enum\<close>

lemma takeWhile_whole: "length (takeWhile P xs) = length xs \<longleftrightarrow> list_all P xs"
  by (metis list_all_iff takeWhile_eq_all_conv take_all_iff append_eq_conv_conj
      takeWhile_dropWhile_id order_refl)

lemma skip_gap_ident: "is_ident_start (hd t) \<Longrightarrow> t \<noteq> [] \<Longrightarrow> skip_gap t = []"
  by (cases t) (auto simp: skip_gap_def is_ident_start_def is_blank_def)

lemma is_ident_start_ascii: "is_ident_char c \<Longrightarrow> len_utf8 c = 1"
  by (auto simp: is_ident_char_def is_ident_start_def is_digit_def len_utf8_def)

lemma str_len_eq_length: "list_all is_ident_char t \<Longrightarrow> str_len t = length t"
  by (induction t) (auto simp: is_ident_start_ascii)

lemma str_len_take_less: "n < length t \<Longrightarrow> str_len (take n t) < str_len t"
proof -
  assume "n < length t"
  then have "0 < str_len (drop n t)" by (metis drop_eq_Nil gr0I not_le str_len_0)
  moreover have "str_len t = str_len (take n t) + str_len (drop n t)"
    by (metis append_take_drop_id str_len_simps(3))
  ultimately show ?thesis by simp
qed

lemma str_slice_whole [simp]: "str_slice t 0 (str_len t) = Inr t"
  using str_slice_append [of "[]" t "[]"] by simp

lemma str_slice_end [simp]: "str_slice t (str_len t) (str_len t) = Inr []"
  using str_slice_append [of t "[]" "[]"] by simp

lemma rules_lexer_end: "rules_lexer t (str_len t) = None"
  by (simp add: rules_lexer_def skip_gap_def)

lemma is_ident_keyword: "map_of KEYWORDS w = Some k \<Longrightarrow> \<not> is_ident k"
proof -
  have "list_all (\<lambda>(s, k). \<not> is_ident k) KEYWORDS"
    by (simp add: KEYWORDS_def is_ident_def del: lit_simps)
  then show "map_of KEYWORDS w = Some k \<Longrightarrow> \<not> is_ident k"
    by (auto simp: list_all_iff dest!: map_of_SomeD)
qed

lemma operator_not_ident: "(s, tok) \<in> set OPERATORS \<Longrightarrow> \<not> is_ident tok"
proof -
  have "list_all (\<lambda>(s, k). \<not> is_ident k) OPERATORS"
    by (simp add: OPERATORS_def is_ident_def del: lit_simps)
  then show "(s, tok) \<in> set OPERATORS \<Longrightarrow> \<not> is_ident tok" by (auto simp: list_all_iff)
qed

lemma match_ident:
  assumes "t \<noteq> []" "match_token t = (Some tok, n)" "is_ident tok"
  shows "is_ident_start (hd t) \<and> n = length (takeWhile is_ident_char t) \<and>
    map_of KEYWORDS (takeWhile is_ident_char t) = None"
proof -
  have not: "\<not> is_ident T_Newline" "\<And>v. \<not> is_ident (T_Int v)" "\<And>v. \<not> is_ident (T_String v)"
    by (simp_all add: is_ident_def)
  have op: "find (\<lambda>(s, _). starts_with t s) OPERATORS = Some (s, k) \<Longrightarrow> \<not> is_ident k" for s k
    using operator_not_ident by (metis find_Some_iff nth_mem)
  show ?thesis
    using assms not op is_ident_keyword
    by (auto simp: match_token_def Let_def split: if_splits option.splits)
qed

lemma one_identifier_rules:
  "one_identifier rules_lexer name \<longleftrightarrow>
     name \<noteq> [] \<and> is_ident_start (hd name) \<and> list_all is_ident_char name \<and> map_of KEYWORDS name = None"
proof
  assume "one_identifier rules_lexer name"
  then obtain tok b where t: "rules_lexer name 0 = Some (Some tok, 0, b)" "is_ident tok" "b = str_len name"
    by (auto simp: one_identifier_def split: option.splits prod.splits)
  have gap: "skip_gap name = []" and ne: "name \<noteq> []"
    using t(1) by (auto simp: rules_lexer_def Let_def split: if_splits prod.splits)
  then obtain n where m: "match_token name = (Some tok, n)" "b = str_len (take n name)"
    using t(1) by (auto simp: rules_lexer_def Let_def split: prod.splits)
  from match_ident [OF ne m(1) t(2)] have w: "is_ident_start (hd name)"
    "n = length (takeWhile is_ident_char name)" "map_of KEYWORDS (takeWhile is_ident_char name) = None"
    by auto
  have "\<not> n < length name" using str_len_take_less [of n name] m(2) t(3) by auto
  then have "takeWhile is_ident_char name = name"
    using w(2) by (metis append_eq_conv_conj not_less take_all takeWhile_dropWhile_id)
  with w ne show "name \<noteq> [] \<and> is_ident_start (hd name) \<and> list_all is_ident_char name \<and> map_of KEYWORDS name = None"
    by (metis list_all_iff set_takeWhileD)
next
  assume n: "name \<noteq> [] \<and> is_ident_start (hd name) \<and> list_all is_ident_char name \<and> map_of KEYWORDS name = None"
  then have tw: "takeWhile is_ident_char name = name" by (auto simp: list_all_iff takeWhile_eq_all_conv)
  have "hd name \<noteq> 10" using n by (auto simp: is_ident_start_def)
  then have "match_token name = (Some (T_Ident name), length name)"
    unfolding match_token_def Let_def tw using n by simp
  then have "rules_lexer name 0 = Some (Some (T_Ident name), 0, str_len name)"
    using n skip_gap_ident [of name] by (auto simp: rules_lexer_def)
  then show "one_identifier rules_lexer name"
    by (simp add: one_identifier_def rules_lexer_end is_ident_def)
qed

lemma segment_error_None:
  "segment_error rules_lexer name = None \<longleftrightarrow>
     name \<noteq> [] \<and> 97 \<le> hd name \<and> hd name \<le> 122 \<and> list_all is_ident_char name \<and> map_of KEYWORDS name = None"
proof -
  have "starts_with name (lit ''__'') \<Longrightarrow> name \<noteq> [] \<Longrightarrow> hd name = 95"
    by (cases name) (auto simp: starts_with_def)
  then show ?thesis
    by (auto simp: segment_error_def one_identifier_rules is_ident_start_def)
qed

text \<open>Under the rules of the token enum a module path segment is accepted exactly when it is an
  identifier that is no keyword and begins with a lowercase ASCII letter.\<close>
lemma segment_error_rules:
  "segment_error rules_lexer name = None \<longleftrightarrow>
     name \<noteq> [] \<and> 97 \<le> hd name \<and> hd name \<le> 122 \<and> list_all is_ident_char name \<and> map_of KEYWORDS name = None"
  by (rule segment_error_None)

subsection \<open>Files\<close>

lemma join_char_inj:
  assumes "xs \<noteq> []" "ys \<noteq> []" "\<forall>x \<in> set xs \<union> set ys. c \<notin> set x" "join [c] xs = join [c] ys"
  shows "xs = ys"
  using assms
proof (induction xs arbitrary: ys)
  case (Cons x xs)
  obtain y ys' where ys: "ys = y # ys'" using Cons.prems(2) by (cases ys) auto
  have tw: "takeWhile (\<lambda>d. d \<noteq> c) (join [c] (z # zs)) = z" if "c \<notin> set z" for z zs
    using that by (cases zs) (auto simp: takeWhile_eq_all_conv takeWhile_append)
  have xy: "x = y" using tw [of x xs] tw [of y ys'] Cons.prems ys by auto
  show ?case
  proof (cases "xs = [] \<or> ys' = []")
    case True
    then show ?thesis
      using Cons.prems(4) xy ys by (cases xs; cases ys') auto
  next
    case False
    then have "join [c] xs = join [c] ys'"
      using Cons.prems(4) xy ys by (cases xs; cases ys') auto
    with Cons.IH [of ys'] Cons.prems(3) False xy ys show ?thesis by auto
  qed
qed simp

text \<open>C32. Two different module paths whose segments the rule accepts name different files.\<close>
theorem relative_file_inj:
  assumes "ModulePath_new rules_lexer True ss = Inr p" "ModulePath_new rules_lexer True ts = Inr q" "p \<noteq> q"
  shows "relative_file p \<noteq> relative_file q"
proof
  assume eq: "relative_file p = relative_file q"
  have ok: "ss \<noteq> []" "ts \<noteq> []" "p = ModulePath ss" "q = ModulePath ts"
    "\<forall>s \<in> set ss \<union> set ts. segment_error rules_lexer s = None"
    using assms(1,2) by (auto simp: ModulePath_new_def list_all_iff split: if_splits)
  have "47 \<notin> set s" if "segment_error rules_lexer s = None" for s
    using that unfolding segment_error_None
    by (auto simp: list_all_iff is_ident_char_def is_ident_start_def is_digit_def)
  with ok have "\<forall>s \<in> set ss \<union> set ts. 47 \<notin> set s" by blast
  moreover have "join [47] ss = join [47] ts" using eq ok by (simp add: relative_file_def)
  ultimately show False using join_char_inj [OF ok(1,2)] ok assms(3) by simp
qed

theorem relative_file_inj_witness:
  "relative_file (ModulePath [lit ''a'', lit ''b'']) \<noteq> relative_file (ModulePath [lit ''ab''])"
  by (rule relative_file_inj [of "[lit ''a'', lit ''b'']" _ "[lit ''ab'']"])
    (code_simp, code_simp, simp)

text \<open>Adding a file to a map of fewer than \<open>2^32\<close> files returns an id that no earlier file has
  and that names the new file; every earlier id names what it named before, and the id is the last
  of \<open>files\<close>.\<close>
lemma push_file_lookup:
  assumes "length (sm_files sm) < 2 ^ 32"
  shows "\<exists>f sm'. push_file path m src sm = Inr (f, sm') \<and> f \<notin> set (files sm) \<and>
    files sm' = files sm @ [f] \<and>
    source_file f sm' = Inr \<lparr>sf_path = path, sf_module = m, sf_text = src\<rparr> \<and>
    (\<forall>g \<in> set (files sm). source_file g sm' = source_file g sm)"
  using assms
  by (auto simp: push_file_def files_def source_file_def nth_append)

end
