(* ===== verification/Labels.thy ===== *)
theory Labels
  imports Module_Paths
begin

section \<open>Record labels and variant tags\<close>

text \<open>
  \<open>src/ccl/label.rs\<close>: a label is a spelling with the module or the run it belongs to. At run time
  records are keyed by a string, \<open>runtime_key\<close>, which \<open>from_runtime_key\<close> reads back. \<open>RunPath\<close> is
  the struct of \<open>src/ccl/names.rs\<close>.
\<close>

subsection \<open>The operations\<close>

datatype RunPath = RunPath "utext list"

definition RunPath_default :: RunPath where
  "RunPath_default = RunPath []"

fun run_names :: "RunPath \<Rightarrow> utext list" where
  "run_names (RunPath ns) = ns"

definition child :: "RunPath \<Rightarrow> utext \<Rightarrow> RunPath" where
  "child p name = RunPath (run_names p @ [name])"

definition RunPath_last :: "RunPath \<Rightarrow> utext option" where
  "RunPath_last p = (if run_names p = [] then None else Some (last (run_names p)))"

definition RunPath_display :: "RunPath \<Rightarrow> utext" where
  "RunPath_display p = join (lit ''::'') (run_names p)"

datatype Space = InModule ModulePath | InRun RunPath

record Label =
  lb_name :: utext
  lb_space :: "Space option"

definition debug_assert_spelling :: "bool \<Rightarrow> utext \<Rightarrow> Label \<Rightarrow> Label res" where
  "debug_assert_spelling dbg name l =
     (if dbg \<and> contains name (lit ''::'') then Inl AssertFailed else Inr l)"

definition Label_new :: "bool \<Rightarrow> utext \<Rightarrow> Label res" where
  "Label_new dbg name = debug_assert_spelling dbg name \<lparr>lb_name = name, lb_space = None\<rparr>"

definition Label_fixed :: "utext \<Rightarrow> Label" where
  "Label_fixed name = \<lparr>lb_name = name, lb_space = None\<rparr>"

definition in_module :: "bool \<Rightarrow> ModulePath \<Rightarrow> utext \<Rightarrow> Label res" where
  "in_module dbg m name =
     debug_assert_spelling dbg name \<lparr>lb_name = name, lb_space = Some (InModule m)\<rparr>"

definition in_run :: "bool \<Rightarrow> RunPath \<Rightarrow> utext \<Rightarrow> Label res" where
  "in_run dbg r name =
     debug_assert_spelling dbg name \<lparr>lb_name = name, lb_space = Some (InRun r)\<rparr>"

text \<open>\<open>str::split\<close> and \<open>str::rsplit_once\<close> for the separator \<open>::\<close>.\<close>

fun split_colons :: "utext \<Rightarrow> utext \<Rightarrow> utext list" where
  "split_colons acc [] = [acc]"
| "split_colons acc [c] = [acc @ [c]]"
| "split_colons acc (c # d # t) =
     (if c = 58 \<and> d = 58 then acc # split_colons [] t else split_colons (acc @ [c]) (d # t))"

fun rsplit_colons :: "utext \<Rightarrow> (utext \<times> utext) option" where
  "rsplit_colons [] = None"
| "rsplit_colons (c # t) =
     (case rsplit_colons t of
        Some (a, b) \<Rightarrow> Some (c # a, b)
      | None \<Rightarrow> if starts_with (c # t) (lit ''::'') then Some ([], drop 1 t) else None)"

definition from_runtime_key :: "lexer \<Rightarrow> bool \<Rightarrow> utext \<Rightarrow> Label res" where
  "from_runtime_key next_tok dbg key =
     (case rsplit_colons key of
        Some (space, name) \<Rightarrow>
          (case strip_prefix (lit ''@'') space of
             Some run \<Rightarrow> in_run dbg (foldl child RunPath_default (split_colons [] run)) name
           | None \<Rightarrow>
               (case ModulePath_new next_tok dbg (split_colons [] space) of
                  Inl p \<Rightarrow> Inl p
                | Inr m \<Rightarrow> in_module dbg m name))
      | None \<Rightarrow> Label_new dbg key)"

definition Label_module :: "Label \<Rightarrow> ModulePath option" where
  "Label_module l = (case lb_space l of Some (InModule m) \<Rightarrow> Some m | _ \<Rightarrow> None)"

definition Label_run :: "Label \<Rightarrow> RunPath option" where
  "Label_run l = (case lb_space l of Some (InRun r) \<Rightarrow> Some r | _ \<Rightarrow> None)"

definition runtime_key :: "Label \<Rightarrow> utext" where
  "runtime_key l =
     (case lb_space l of
        Some (InModule m) \<Rightarrow> ModulePath_display m @ lit ''::'' @ lb_name l
      | Some (InRun r) \<Rightarrow> lit ''@'' @ RunPath_display r @ lit ''::'' @ lb_name l
      | None \<Rightarrow> lb_name l)"

definition Label_display :: "Label \<Rightarrow> utext" where
  "Label_display l =
     (case lb_space l of
        Some (InModule m) \<Rightarrow> ModulePath_display m @ lit ''::'' @ lb_name l
      | Some (InRun r) \<Rightarrow> RunPath_display r @ lit ''::'' @ lb_name l
      | None \<Rightarrow> lb_name l)"

subsection \<open>Splitting\<close>

lemma rsplit_none: "rsplit_colons t = None \<longleftrightarrow> \<not> contains t [58, 58]"
  by (induction t) (auto simp: starts_with_def split: option.splits)

text \<open>The last separator is found when the spelling has none and does not begin with a colon.\<close>

lemma rsplit_spelling:
  assumes "\<not> contains name [58, 58]" "name = [] \<or> hd name \<noteq> 58"
  shows "rsplit_colons (space @ [58, 58] @ name) = Some (space, name)"
proof (induction space)
  case Nil
  have "rsplit_colons name = None" using assms(1) by (simp add: rsplit_none)
  moreover from this have "rsplit_colons (58 # name) = None"
    using assms(2) by (cases name) (auto simp: starts_with_def)
  ultimately show ?case by (simp add: starts_with_def)
qed simp

lemma split_segment:
  "58 \<notin> set s \<Longrightarrow> split_colons acc (s @ 58 # 58 # t) = (acc @ s) # split_colons [] t"
proof (induction s arbitrary: acc)
  case (Cons c s)
  then show ?case by (cases s) auto
qed simp

lemma split_last: "58 \<notin> set s \<Longrightarrow> split_colons acc s = [acc @ s]"
proof (induction s arbitrary: acc)
  case (Cons c s)
  then show ?case by (cases s) auto
qed simp

lemma split_join:
  assumes "ss \<noteq> []" "\<forall>s \<in> set ss. 58 \<notin> set s"
  shows "split_colons [] (join [58, 58] ss) = ss"
  using assms
proof (induction ss)
  case (Cons s ss)
  then show ?case by (cases ss) (auto simp: split_last split_segment)
qed simp

lemma foldl_child: "foldl child p ns = RunPath (run_names p @ ns)"
proof (induction ns arbitrary: p)
  case Nil
  then show ?case by (cases p) simp
qed (simp add: child_def)

subsection \<open>Round trip\<close>

text \<open>
  The labels the compiler builds: a spelling without \<open>::\<close> that does not begin with a colon, in
  the root, in a module whose path the segment rule accepts, or in a run other than the root's
  whose names hold no colon.
\<close>

definition label_ok :: "lexer \<Rightarrow> Label \<Rightarrow> bool" where
  "label_ok next_tok l \<longleftrightarrow>
     \<not> contains (lb_name l) (lit ''::'') \<and> (lb_name l = [] \<or> hd (lb_name l) \<noteq> 58) \<and>
     (case lb_space l of
        None \<Rightarrow> True
      | Some (InModule m) \<Rightarrow>
          segments m \<noteq> [] \<and>
          list_all (\<lambda>s. segment_error next_tok s = None \<and> 58 \<notin> set s \<and> \<not> starts_with s (lit ''@''))
            (segments m)
      | Some (InRun r) \<Rightarrow> run_names r \<noteq> [] \<and> list_all (\<lambda>s. 58 \<notin> set s) (run_names r))"

lemma join_hd:
  "ss \<noteq> [] \<Longrightarrow> hd ss \<noteq> [] \<Longrightarrow> join sep ss \<noteq> [] \<and> hd (join sep ss) = hd (hd ss)"
  by (cases ss rule: remdups_adj.cases) auto

lemma round_trip:
  assumes "label_ok next_tok l"
  shows "from_runtime_key next_tok dbg (runtime_key l) = Inr l"
proof -
  obtain name sp where l: "l = \<lparr>lb_name = name, lb_space = sp\<rparr>" by (cases l) auto
  have name: "\<not> contains name [58, 58]" "name = [] \<or> hd name \<noteq> 58"
    using assms by (auto simp: label_ok_def l)
  note defs = from_runtime_key_def runtime_key_def l in_module_def in_run_def Label_new_def
    debug_assert_spelling_def
  consider (root) "sp = None" | (md) ss where "sp = Some (InModule (ModulePath ss))"
    | (run) ns where "sp = Some (InRun (RunPath ns))"
    by (metis ModulePath.exhaust RunPath.exhaust Space.exhaust option.exhaust)
  then show ?thesis
  proof cases
    case root
    have "rsplit_colons name = None" using name by (simp add: rsplit_none)
    with root name show ?thesis by (simp add: defs)
  next
    case md
    then have ss: "ss \<noteq> []" "\<forall>s \<in> set ss. 58 \<notin> set s" "list_all (\<lambda>s. segment_error next_tok s = None) ss"
      "\<forall>s \<in> set ss. \<not> starts_with s [64]"
      using assms by (auto simp: label_ok_def l list_all_iff)
    have "\<not> starts_with (join [58, 58] ss) [64]"
    proof (cases "hd ss = []")
      case True
      then show ?thesis using ss(1) by (cases ss rule: remdups_adj.cases) (auto simp: starts_with_def)
    next
      case False
      then show ?thesis
        using hd_in_set [OF ss(1)] ss(4) join_hd [OF ss(1) False, of "[58, 58]"]
        by (cases "join [58, 58] ss"; cases "hd ss") (auto simp: starts_with_def dest: hd_in_set bspec)
    qed
    with md ss name rsplit_spelling [OF name, of "join [58, 58] ss"] split_join [OF ss(1,2)]
    show ?thesis by (simp add: defs ModulePath_display_def strip_prefix_def ModulePath_new_def)
  next
    case run
    then have ns: "ns \<noteq> []" "\<forall>s \<in> set ns. 58 \<notin> set s" using assms by (auto simp: label_ok_def l list_all_iff)
    with run name rsplit_spelling [OF name, of "64 # join [58, 58] ns"] split_join [OF ns]
    show ?thesis
      by (simp add: defs RunPath_display_def strip_prefix_def starts_with_def foldl_child RunPath_default_def)
  qed
qed



text \<open>No two such labels share a run-time key.\<close>
lemma runtime_key_inj:
  assumes "label_ok next_tok k" "label_ok next_tok l" "k \<noteq> l"
  shows "runtime_key k \<noteq> runtime_key l"
  using round_trip [OF assms(1), of False] round_trip [OF assms(2), of False] assms(3) by auto


end
