(* ===== verification/Scalar_Ops.thy ===== *)
theory Scalar_Ops
  imports Source_Text "HOL-Library.Signed_Division" "HOL-Library.List_Lexorder"
begin

unbundle bit_operations_syntax

section \<open>Views and scalar kernels\<close>

text \<open>
  \<open>src/view.rs\<close> and \<open>src/scalar_ops.rs\<close>: a borrowed region of a column, and the binary kernels
  that run-time evaluation and constant folding share. The trait bounds of the generic kernels are
  a record of operations, with one value for \<open>i64\<close> and one for \<open>u64\<close>. Both integer types are 64-bit
  words. The flag \<open>dbg\<close> is the profile: overflow checks and debug assertions are on when it is set.
\<close>

subsection \<open>Views\<close>

datatype 'a View = Slice "'a list" | Constant 'a nat

definition repeated :: "'a \<Rightarrow> nat \<Rightarrow> 'a View" where
  "repeated v n = Constant v n"

fun view_len :: "'a View \<Rightarrow> nat" where
  "view_len (Slice vs) = length vs"
| "view_len (Constant _ n) = n"

definition view_is_empty :: "'a View \<Rightarrow> bool" where
  "view_is_empty v \<longleftrightarrow> view_len v = 0"

text \<open>A range \<open>a..b\<close> of a slice panics when \<open>a > b\<close> or \<open>b\<close> is past the end. The length of a range is
  \<open>b - a\<close>, or 0 when \<open>a > b\<close>.\<close>

fun view_range :: "'a View \<Rightarrow> nat \<Rightarrow> nat \<Rightarrow> 'a View res" where
  "view_range (Slice vs) a b =
     (if a \<le> b \<and> b \<le> length vs then Inr (Slice (take (b - a) (drop a vs))) else Inl OutOfRange)"
| "view_range (Constant v n) a b =
     (if b \<le> n then Inr (Constant v (b - a)) else Inl AssertFailed)"

text \<open>The values a view stands for.\<close>

fun view_values :: "'a View \<Rightarrow> 'a list" where
  "view_values (Slice vs) = vs"
| "view_values (Constant v n) = replicate n v"

lemma length_view_values [simp]: "length (view_values v) = view_len v"
  by (cases v) auto

subsection \<open>Operators\<close>

datatype ArithmeticKind = Add | Sub | Mul | FloorDiv | Pow
datatype CompareKind = Equals | NotEquals | Less | LessOrEq | Greater | GreaterOrEq
datatype LogicKind = LAnd | LNand | LOr | LNor | LXor | LXnor
datatype BinOpKind = Arithmetic ArithmeticKind | BoolLogic LogicKind | Concat | Compare CompareKind

text \<open>The primitive integer operations of the language, with their panics.\<close>

definition fits_i64 :: "int \<Rightarrow> bool" where
  "fits_i64 z \<longleftrightarrow> - (2 ^ 63) \<le> z \<and> z < 2 ^ 63"

definition fits_u64 :: "int \<Rightarrow> bool" where
  "fits_u64 z \<longleftrightarrow> 0 \<le> z \<and> z < 2 ^ 64"

definition checked_i64 :: "bool \<Rightarrow> int \<Rightarrow> i64 res" where
  "checked_i64 dbg z = (if dbg \<and> \<not> fits_i64 z then Inl Overflow else Inr (word_of_int z))"

definition checked_u64 :: "bool \<Rightarrow> int \<Rightarrow> u64 res" where
  "checked_u64 dbg z = (if dbg \<and> \<not> fits_u64 z then Inl Overflow else Inr (word_of_int z))"

text \<open>Division and remainder of \<open>i64\<close> truncate, and panic in both profiles.\<close>

definition div_i64 :: "i64 \<Rightarrow> i64 \<Rightarrow> i64 res" where
  "div_i64 a b =
     (if b = 0 then Inl DivideByZero
      else if sint a = - (2 ^ 63) \<and> sint b = - 1 then Inl Overflow
      else Inr (word_of_int (sint a sdiv sint b)))"

definition rem_i64 :: "i64 \<Rightarrow> i64 \<Rightarrow> i64 res" where
  "rem_i64 a b =
     (if b = 0 then Inl DivideByZero
      else if sint a = - (2 ^ 63) \<and> sint b = - 1 then Inl Overflow
      else Inr (word_of_int (sint a smod sint b)))"

definition floor_div_i64 :: "bool \<Rightarrow> i64 \<Rightarrow> i64 \<Rightarrow> i64 res" where
  "floor_div_i64 dbg a b =
     (case div_i64 a b of
        Inl p \<Rightarrow> Inl p
      | Inr q \<Rightarrow>
          (case rem_i64 a b of
             Inl p \<Rightarrow> Inl p
           | Inr r \<Rightarrow>
               if r \<noteq> 0 \<and> (sint a < 0) \<noteq> (sint b < 0)
               then checked_i64 dbg (sint q - 1)
               else Inr q))"

definition floor_div_u64 :: "u64 \<Rightarrow> u64 \<Rightarrow> u64 res" where
  "floor_div_u64 a b = (if b = 0 then Inl DivideByZero else Inr (a div b))"

function raised_loop :: "('t \<Rightarrow> 't \<Rightarrow> 't) \<Rightarrow> 't \<Rightarrow> 't \<Rightarrow> u64 \<Rightarrow> 't" where
  "raised_loop mul acc b e =
     (if 0 < e
      then let acc = (if e AND 1 = 1 then mul acc b else acc); e = drop_bit 1 e
           in raised_loop mul acc (if 0 < e then mul b b else b) e
      else acc)"
  by auto
termination
proof (relation "measure (\<lambda>(mul, acc, b, e). unat e)", goal_cases)
  case (2 mul acc b e x xa)
  then have "0 < unat e" by (simp add: unat_gt_0)
  then show ?case using 2 by (simp add: drop_bit_Suc unat_div)
qed simp

declare raised_loop.simps [simp del]

definition raised :: "'t \<Rightarrow> ('t \<Rightarrow> 't \<Rightarrow> 't) \<Rightarrow> 't \<Rightarrow> u64 \<Rightarrow> 't" where
  "raised ONE mul_wrapping b e = raised_loop mul_wrapping ONE b e"

definition mul_wrapping_i64 :: "i64 \<Rightarrow> i64 \<Rightarrow> i64" where
  "mul_wrapping_i64 a b = word_of_int (sint a * sint b)"

definition mul_wrapping_u64 :: "u64 \<Rightarrow> u64 \<Rightarrow> u64" where
  "mul_wrapping_u64 a b = word_of_int (uint a * uint b)"

definition int_pow_i64 :: "i64 \<Rightarrow> i64 \<Rightarrow> i64 res" where
  "int_pow_i64 a e =
     (if sint e < 0 then Inl AssertFailed
      else Inr (raised 1 mul_wrapping_i64 a (word_of_int \<bar>sint e\<bar>)))"

definition int_pow_u64 :: "u64 \<Rightarrow> u64 \<Rightarrow> u64 res" where
  "int_pow_u64 a e = Inr (raised 1 mul_wrapping_u64 a e)"

text \<open>The bounds of \<open>zip_arithmetic\<close> as a record: \<open>+=\<close>, \<open>-=\<close>, \<open>*=\<close>, \<open>IntFloorDiv\<close> and \<open>IntPow\<close>.\<close>

record 't int_ops =
  add_assign :: "bool \<Rightarrow> 't \<Rightarrow> 't \<Rightarrow> 't res"
  sub_assign :: "bool \<Rightarrow> 't \<Rightarrow> 't \<Rightarrow> 't res"
  mul_assign :: "bool \<Rightarrow> 't \<Rightarrow> 't \<Rightarrow> 't res"
  floor_div :: "bool \<Rightarrow> 't \<Rightarrow> 't \<Rightarrow> 't res"
  int_pow :: "'t \<Rightarrow> 't \<Rightarrow> 't res"

definition i64_ops :: "i64 int_ops" where
  "i64_ops = \<lparr>add_assign = \<lambda>dbg a b. checked_i64 dbg (sint a + sint b),
     sub_assign = \<lambda>dbg a b. checked_i64 dbg (sint a - sint b),
     mul_assign = \<lambda>dbg a b. checked_i64 dbg (sint a * sint b),
     floor_div = floor_div_i64, int_pow = int_pow_i64\<rparr>"

definition u64_ops :: "u64 int_ops" where
  "u64_ops = \<lparr>add_assign = \<lambda>dbg a b. checked_u64 dbg (uint a + uint b),
     sub_assign = \<lambda>dbg a b. checked_u64 dbg (uint a - uint b),
     mul_assign = \<lambda>dbg a b. checked_u64 dbg (uint a * uint b),
     floor_div = \<lambda>_. floor_div_u64, int_pow = int_pow_u64\<rparr>"

subsection \<open>Kernels\<close>

text \<open>The kernel appends to \<open>out\<close>. A panic of the closure leaves no column.\<close>

definition extend_res :: "'r list \<Rightarrow> 'r list res \<Rightarrow> 'r list res" where
  "extend_res out r = map_ok (\<lambda>ys. out @ ys) r"

definition zip_views ::
  "bool \<Rightarrow> 'a View \<Rightarrow> 'a View \<Rightarrow> 'r list \<Rightarrow> ('a \<Rightarrow> 'a \<Rightarrow> 'r res) \<Rightarrow> 'r list res" where
  "zip_views dbg l r out f =
     (if dbg \<and> view_len l \<noteq> view_len r then Inl AssertFailed
      else case (l, r) of
        (Slice l, Slice r) \<Rightarrow> extend_res out (map_res (\<lambda>(a, b). f a b) (zip l r))
      | (Slice l, Constant v _) \<Rightarrow> extend_res out (map_res (\<lambda>a. f a v) l)
      | (Constant v _, Slice r) \<Rightarrow> extend_res out (map_res (\<lambda>b. f v b) r)
      | (Constant a n, Constant b _) \<Rightarrow>
          if 0 < n then extend_res out (map_ok (replicate n) (f a b)) else Inr out)"

definition scalar_arithmetic :: "'t int_ops \<Rightarrow> bool \<Rightarrow> ArithmeticKind \<Rightarrow> 't \<Rightarrow> 't \<Rightarrow> 't res" where
  "scalar_arithmetic ops dbg op =
     (case op of
        Add \<Rightarrow> add_assign ops dbg
      | Sub \<Rightarrow> sub_assign ops dbg
      | Mul \<Rightarrow> mul_assign ops dbg
      | FloorDiv \<Rightarrow> floor_div ops dbg
      | Pow \<Rightarrow> int_pow ops)"

definition zip_arithmetic ::
  "'t int_ops \<Rightarrow> bool \<Rightarrow> ArithmeticKind \<Rightarrow> 't View \<Rightarrow> 't View \<Rightarrow> 't list \<Rightarrow> 't list res" where
  "zip_arithmetic ops dbg op l r out = zip_views dbg l r out (scalar_arithmetic ops dbg op)"

definition zip_concat :: "bool \<Rightarrow> utext View \<Rightarrow> utext View \<Rightarrow> utext list \<Rightarrow> utext list res" where
  "zip_concat dbg l r out = zip_views dbg l r out (\<lambda>a b. Inr (a @ b))"

text \<open>The comparison operators of a type whose \<open>partial_cmp\<close> is never \<open>None\<close>.\<close>

fun compare_by :: "cmp \<Rightarrow> CompareKind \<Rightarrow> bool" where
  "compare_by c Equals = (c = CmpEqual)"
| "compare_by c NotEquals = (c \<noteq> CmpEqual)"
| "compare_by c Less = (c = CmpLess)"
| "compare_by c LessOrEq = (c \<noteq> CmpGreater)"
| "compare_by c Greater = (c = CmpGreater)"
| "compare_by c GreaterOrEq = (c \<noteq> CmpLess)"

definition zip_compare ::
  "('t \<Rightarrow> 't \<Rightarrow> cmp) \<Rightarrow> bool \<Rightarrow> CompareKind \<Rightarrow> 't View \<Rightarrow> 't View \<Rightarrow> bool list \<Rightarrow> bool list res" where
  "zip_compare cmp dbg op l r out = zip_views dbg l r out (\<lambda>a b. Inr (compare_by (cmp a b) op))"

fun bool_compare :: "CompareKind \<Rightarrow> bool \<Rightarrow> bool \<Rightarrow> bool" where
  "bool_compare Equals a b = (a = b)"
| "bool_compare NotEquals a b = (a \<noteq> b)"
| "bool_compare Less a b = (\<not> a \<and> b)"
| "bool_compare LessOrEq a b = (a \<le> b)"
| "bool_compare Greater a b = (a \<and> \<not> b)"
| "bool_compare GreaterOrEq a b = (b \<le> a)"

definition zip_bool_compare ::
  "bool \<Rightarrow> CompareKind \<Rightarrow> bool View \<Rightarrow> bool View \<Rightarrow> bool list \<Rightarrow> bool list res" where
  "zip_bool_compare dbg op l r out = zip_views dbg l r out (\<lambda>a b. Inr (bool_compare op a b))"

fun bool_logic :: "LogicKind \<Rightarrow> bool \<Rightarrow> bool \<Rightarrow> bool" where
  "bool_logic LAnd a b = (a \<and> b)"
| "bool_logic LNand a b = (\<not> (a \<and> b))"
| "bool_logic LOr a b = (a \<or> b)"
| "bool_logic LNor a b = (\<not> (a \<or> b))"
| "bool_logic LXor a b = (a \<noteq> b)"
| "bool_logic LXnor a b = (a = b)"

definition zip_bool_logic ::
  "bool \<Rightarrow> LogicKind \<Rightarrow> bool View \<Rightarrow> bool View \<Rightarrow> bool list \<Rightarrow> bool list res" where
  "zip_bool_logic dbg op l r out = zip_views dbg l r out (\<lambda>a b. Inr (bool_logic op a b))"

subsection \<open>Integers\<close>

lemma sint_range: "- (2 ^ 63) \<le> sint (a :: i64)" "sint (a :: i64) < 2 ^ 63"
  using sint_greater_eq [of a] sint_less [of a] by simp_all

lemma fits_sint: "fits_i64 (sint (a :: i64))"
  using sint_range [of a] by (simp add: fits_i64_def)

lemma sint_word_of_int: "fits_i64 z \<Longrightarrow> sint (word_of_int z :: i64) = z"
  by (simp add: fits_i64_def signed_of_int signed_take_bit_int_eq_self)

lemma uint_word_of_int_fits: "fits_u64 z \<Longrightarrow> uint (word_of_int z :: u64) = z"
  by (simp add: fits_u64_def unsigned_of_int take_bit_int_eq_self)

lemma floor_of_truncation:
  "b \<noteq> 0 \<Longrightarrow> a div b = (if a smod b \<noteq> 0 \<and> (a < 0) \<noteq> (b < 0) then a sdiv b - 1 else a sdiv (b :: int))"
proof -
  assume "b \<noteq> 0"
  have ab: "x mod y = 0 \<longleftrightarrow> x - x div y * y = 0" for x y :: int
    by (simp add: minus_div_mult_eq_mod)
  consider "0 \<le> a \<and> 0 < b" | "a < 0 \<and> b < 0" | "a < 0 \<and> 0 < b" | "0 \<le> a \<and> b < 0"
    using \<open>b \<noteq> 0\<close> by linarith
  then show ?thesis
  proof cases
    case 1
    then show ?thesis by (cases "a = 0") (auto simp: signed_divide_int_def)
  next
    case 2
    then show ?thesis by (auto simp: signed_divide_int_def)
  next
    case 3
    then show ?thesis
      using zdiv_zminus1_eq_if [of b "- a"] ab [of "- a" b]
      by (auto simp: signed_divide_int_def signed_modulo_int_def)
  next
    case 4
    then show ?thesis
      using zdiv_zminus2_eq_if [of "- b" a] ab [of a "- b"]
      by (cases "a = 0") (auto simp: signed_divide_int_def signed_modulo_int_def)
  qed
qed

lemma truncation_fits:
  assumes "fits_i64 a" "fits_i64 b" "b \<noteq> 0" "\<not> (a = - (2 ^ 63) \<and> b = - 1)"
  shows "fits_i64 (a sdiv b)" "fits_i64 (a smod b)"
proof -
  have le: "\<bar>a\<bar> div \<bar>b\<bar> \<le> \<bar>a\<bar>" using zdiv_mono2 [of "\<bar>a\<bar>" 1 "\<bar>b\<bar>"] assms(3) by simp
  have q: "\<bar>a sdiv b\<bar> \<le> \<bar>a\<bar> div \<bar>b\<bar>"
    by (simp add: signed_divide_int_def abs_mult abs_sgn_eq pos_imp_zdiv_nonneg_iff)
  show "fits_i64 (a sdiv b)"
  proof (cases "a = - (2 ^ 63)")
    case False
    then show ?thesis using q le assms(1) unfolding fits_i64_def by linarith
  next
    case True
    then have "b \<noteq> - 1" using assms(4) by simp
    then consider "b = 1" | "2 \<le> \<bar>b\<bar>" using assms(3) by linarith
    then show ?thesis
    proof cases
      case 1
      then show ?thesis using assms(1) by (auto simp: signed_divide_int_def sgn_if)
    next
      case 2
      then have "\<bar>a\<bar> div \<bar>b\<bar> \<le> 2 ^ 63 div 2" using True zdiv_mono2 [of "2 ^ 63" 2 "\<bar>b\<bar>"] by simp
      then have "\<bar>a\<bar> div \<bar>b\<bar> < 2 ^ 63" by simp
      then show ?thesis using q unfolding fits_i64_def by linarith
    qed
  qed
  have "\<bar>a smod b\<bar> < \<bar>b\<bar>" using smod_int_range [of b a] smod_int_compares [of a b] assms(3) by auto
  then show "fits_i64 (a smod b)" using assms(2) unfolding fits_i64_def by linarith
qed

lemma floor_fits:
  assumes "fits_i64 a" "fits_i64 b" "b \<noteq> 0" "\<not> (a = - (2 ^ 63) \<and> b = - 1)"
  shows "fits_i64 (a div b)"
proof (cases "a smod b \<noteq> 0 \<and> (a < 0) \<noteq> (b < 0)")
  case True
  then have "\<bar>b\<bar> \<noteq> 1" by (auto simp: signed_modulo_int_def signed_divide_int_def abs_if sgn_if split: if_splits)
  then have "2 \<le> \<bar>b\<bar>" using assms(3) by linarith
  then have "\<bar>a\<bar> div \<bar>b\<bar> \<le> \<bar>a\<bar> div 2" by (intro zdiv_mono2) auto
  moreover have "\<bar>a\<bar> div 2 \<le> 2 ^ 63 div 2"
    using assms(1) by (intro zdiv_mono1) (auto simp: fits_i64_def)
  moreover have "\<bar>a sdiv b\<bar> \<le> \<bar>a\<bar> div \<bar>b\<bar>"
    by (simp add: signed_divide_int_def abs_mult abs_sgn_eq pos_imp_zdiv_nonneg_iff)
  ultimately have "\<bar>a sdiv b\<bar> \<le> 2 ^ 62" by simp
  then show ?thesis
    using True floor_of_truncation [OF assms(3), of a] unfolding fits_i64_def by auto
next
  case False
  then show ?thesis
    using truncation_fits(1) [OF assms] floor_of_truncation [OF assms(3), of a] by auto
qed

lemma floor_div_i64_eq:
  "floor_div_i64 dbg a b =
     (if sint b = 0 then Inl DivideByZero
      else if sint a = - (2 ^ 63) \<and> sint b = - 1 then Inl Overflow
      else Inr (word_of_int (sint a div sint b)))
   \<and> (sint b = 0 \<or> (sint a = - (2 ^ 63) \<and> sint b = - 1) \<or> fits_i64 (sint a div sint b))"
proof (cases "sint b = 0 \<or> (sint a = - (2 ^ 63) \<and> sint b = - 1)")
  case True
  then show ?thesis by (auto simp: floor_div_i64_def div_i64_def signed_eq_0_iff)
next
  case False
  then have ne: "sint b \<noteq> 0" "\<not> (sint a = - (2 ^ 63) \<and> sint b = - 1)" by auto
  note fits = truncation_fits [OF fits_sint fits_sint ne]
  have b0: "b \<noteq> 0" using ne(1) by auto
  have "fits_i64 (sint a div sint b)"
    using fits floor_fits [OF fits_sint fits_sint ne] by simp
  moreover have "word_of_int (sint a smod sint b) \<noteq> (0 :: i64) \<longleftrightarrow> sint a smod sint b \<noteq> 0"
    using sint_word_of_int [OF fits(2)] by force
  ultimately show ?thesis
    using b0 fits floor_of_truncation [OF ne(1), of "sint a"] ne
    by (cases "sint a smod sint b \<noteq> 0 \<and> (sint a < 0) \<noteq> (sint b < 0)")
      (simp_all add: floor_div_i64_def div_i64_def rem_i64_def checked_i64_def sint_word_of_int)
qed

text \<open>C33. \<open>floor_div\<close> of \<open>i64\<close> panics exactly on a zero divisor and on \<open>i64::MIN // -1\<close>, in both
  profiles, and otherwise returns the quotient rounded toward negative infinity, so the adjustment
  after the truncating division never overflows.\<close>
theorem floor_div_i64_spec:
  "map_ok sint (floor_div_i64 dbg a b) =
     (if sint b = 0 then Inl DivideByZero
      else if sint a = - (2 ^ 63) \<and> sint b = - 1 then Inl Overflow
      else Inr (sint a div sint b))"
  using floor_div_i64_eq [of dbg a b] by (auto simp: sint_word_of_int)

subsection \<open>Powers\<close>

text \<open>What \<open>IntPow\<close> asks of a type: wrapping multiplication is associative with unit \<open>ONE\<close>. Then
  \<open>raised\<close>, which squares, is the power by repeated multiplication.\<close>

locale int_pow_mul =
  fixes ONE :: 't and mul_wrapping :: "'t \<Rightarrow> 't \<Rightarrow> 't"
  assumes mul_assoc: "mul_wrapping (mul_wrapping a b) c = mul_wrapping a (mul_wrapping b c)"
    and mul_one_left: "mul_wrapping ONE a = a"
    and mul_one_right: "mul_wrapping a ONE = a"
begin

lemma pow_double: "(mul_wrapping (mul_wrapping b b) ^^ n) ONE = (mul_wrapping b ^^ (2 * n)) ONE"
  by (induction n) (simp_all add: mul_assoc)

lemma raised_loop_pow:
  "raised_loop mul_wrapping acc b e = mul_wrapping acc ((mul_wrapping b ^^ unat e) ONE)"
proof (induction "unat e" arbitrary: acc b e rule: less_induct)
  case less
  show ?case
  proof (cases "0 < e")
    case False
    then show ?thesis by (subst raised_loop.simps) (simp add: mul_one_right word_gt_0)
  next
    case True
    have half: "unat (drop_bit 1 e) = unat e div 2" by (simp add: drop_bit_Suc unat_div)
    have "0 < unat e" using True by (simp add: unat_gt_0)
    then have smaller: "unat (drop_bit 1 e) < unat e" using half by linarith
    have bit: "e AND 1 = 1 \<longleftrightarrow> odd (unat e)" by (simp add: and_one_eq odd_iff_mod_2_eq_one unat_arith_simps(3) unat_mod)
    have sq: "((mul_wrapping (if 0 < drop_bit 1 e then mul_wrapping b b else b)) ^^ unat (drop_bit 1 e)) ONE =
        (mul_wrapping b ^^ (2 * (unat e div 2))) ONE"
      by (cases "0 < drop_bit 1 e") (simp_all add: half [symmetric] pow_double word_gt_0)
    have "raised_loop mul_wrapping acc b e =
        mul_wrapping (if e AND 1 = 1 then mul_wrapping acc b else acc) ((mul_wrapping b ^^ (2 * (unat e div 2))) ONE)"
      by (subst raised_loop.simps) (simp only: True Let_def if_True less [OF smaller] sq)
    also have "\<dots> = mul_wrapping acc ((mul_wrapping b ^^ unat e) ONE)"
    proof (cases "odd (unat e)")
      case True
      then obtain k where k: "unat e = Suc (2 * k)" by (auto elim: oddE)
      then have "e AND 1 = 1" using bit by simp
      then show ?thesis by (simp add: k mul_assoc)
    qed (simp add: bit)
    finally show ?thesis .
  qed
qed

lemma raised_pow: "raised ONE mul_wrapping b e = (mul_wrapping b ^^ unat e) ONE"
  by (simp add: raised_def raised_loop_pow mul_one_left)

end

lemma mul_wrapping_times: "mul_wrapping_i64 a b = a * b" "mul_wrapping_u64 a b = a * b"
  by (simp_all add: mul_wrapping_i64_def mul_wrapping_u64_def)

interpretation i64_pow: int_pow_mul "1 :: i64" mul_wrapping_i64
  by unfold_locales (simp_all add: mul_wrapping_times mult.assoc)

interpretation u64_pow: int_pow_mul "1 :: u64" mul_wrapping_u64
  by unfold_locales (simp_all add: mul_wrapping_times mult.assoc)

lemma funpow_times: "((*) a ^^ n) 1 = (a :: 'a::monoid_mult) ^ n"
  by (induction n) auto

lemma raised_power:
  "raised 1 mul_wrapping_i64 b e = b ^ unat e" "raised 1 mul_wrapping_u64 c e = c ^ unat e"
proof -
  have "mul_wrapping_i64 b = (*) b" "mul_wrapping_u64 c = (*) c"
    by (simp_all add: fun_eq_iff mul_wrapping_times)
  then show "raised 1 mul_wrapping_i64 b e = b ^ unat e" "raised 1 mul_wrapping_u64 c e = c ^ unat e"
    using i64_pow.raised_pow [of b e] u64_pow.raised_pow [of c e] by (simp_all add: funpow_times)
qed

lemma int_pow_i64_eq:
  "int_pow_i64 a e = (if sint e < 0 then Inl AssertFailed else Inr (a ^ nat (sint e)))"
proof (cases "sint e < 0")
  case False
  then have "fits_u64 \<bar>sint e\<bar>" using sint_range [of e] by (auto simp: fits_u64_def)
  then have "unat (word_of_int \<bar>sint e\<bar> :: u64) = nat (sint e)"
    unfolding unat_eq_nat_uint using False by (simp only: uint_word_of_int_fits)
  with False show ?thesis by (simp add: int_pow_i64_def raised_power)
qed (simp add: int_pow_i64_def)

text \<open>C34. \<open>int_pow\<close> is the power of the mathematical integers reduced modulo \<open>2^64\<close>, for every \<open>u64\<close>
  exponent and every non-negative \<open>i64\<close> exponent, and the assertion fails on a negative one.\<close>
theorem int_pow_spec:
  "int_pow_i64 a e =
     (if sint e < 0 then Inl AssertFailed else Inr (word_of_int (sint a ^ nat (sint e))))
   \<and> int_pow_u64 c f = Inr (word_of_int (uint c ^ unat f))"
  by (simp add: int_pow_i64_eq int_pow_u64_def raised_power)

subsection \<open>Kernels row by row\<close>

lemma extend_res_simps [simp]: "extend_res out (Inl p) = Inl p" "extend_res out (Inr ys) = Inr (out @ ys)"
  by (simp_all add: extend_res_def)

lemma zip_views_map_res:
  assumes "view_len l = view_len r"
  shows "zip_views dbg l r out f =
    extend_res out (map_res (\<lambda>(a, b). f a b) (zip (view_values l) (view_values r)))"
proof -
  have zr: "zip xs (replicate (length xs) v) = map (\<lambda>a. (a, v)) xs"
    "zip (replicate (length xs) v) xs = map (\<lambda>b. (v, b)) xs" for xs :: "'a list" and v
    by (simp_all add: zip_replicate1 zip_replicate2)
  show ?thesis
    using assms
    by (cases l; cases r)
      (auto simp: zip_views_def zr map_res_map map_res_replicate split: sum.splits)
qed

text \<open>For operands of one length, whichever of them is a repeated constant, the kernel returns
  \<open>out\<close> followed by the closure's values row by row, and panics exactly when the closure does on
  some row. Over no rows the closure is never applied.\<close>
lemma zip_views_rows:
  assumes "view_len l = view_len r"
  shows "zip_views dbg l r out f = Inr ys \<longleftrightarrow>
    (\<exists>rows. ys = out @ rows \<and> length rows = view_len l \<and>
       (\<forall>i < view_len l. f (view_values l ! i) (view_values r ! i) = Inr (rows ! i)))"
proof -
  have "zip_views dbg l r out f = Inr ys \<longleftrightarrow>
      (\<exists>rows. ys = out @ rows \<and>
         map_res (\<lambda>(a, b). f a b) (zip (view_values l) (view_values r)) = Inr rows)"
    unfolding zip_views_map_res [OF assms]
    by (cases "map_res (\<lambda>(a, b). f a b) (zip (view_values l) (view_values r))") auto
  then show ?thesis
    using assms by (auto simp: map_res_Inr list_all2_conv_all_nth)
qed

text \<open>What the arithmetic of \<open>i64\<close> is meant to be, on the integers: no value where the code
  stops.\<close>

definition wrap_i64 :: "int \<Rightarrow> int" where
  "wrap_i64 z = (z + 2 ^ 63) mod 2 ^ 64 - 2 ^ 63"

fun i64_spec :: "bool \<Rightarrow> ArithmeticKind \<Rightarrow> int \<Rightarrow> int \<Rightarrow> int option" where
  "i64_spec dbg Add a b = (if dbg \<and> \<not> fits_i64 (a + b) then None else Some (wrap_i64 (a + b)))"
| "i64_spec dbg Sub a b = (if dbg \<and> \<not> fits_i64 (a - b) then None else Some (wrap_i64 (a - b)))"
| "i64_spec dbg Mul a b = (if dbg \<and> \<not> fits_i64 (a * b) then None else Some (wrap_i64 (a * b)))"
| "i64_spec dbg FloorDiv a b =
     (if b = 0 \<or> \<not> fits_i64 (a div b) then None else Some (a div b))"
| "i64_spec dbg Pow a b = (if b < 0 then None else Some (wrap_i64 (a ^ nat b)))"

lemma sint_wrap: "sint (word_of_int z :: i64) = wrap_i64 z"
  by (simp add: wrap_i64_def signed_of_int signed_take_bit_eq_take_bit_shift take_bit_eq_mod)

lemma min_div_fits:
  assumes "fits_i64 a" "fits_i64 b" "b \<noteq> 0"
  shows "fits_i64 (a div b) \<longleftrightarrow> \<not> (a = - (2 ^ 63) \<and> b = - 1)"
  using floor_fits [OF assms] by (auto simp: fits_i64_def)

lemma scalar_arithmetic_spec:
  "i64_spec dbg op (sint a) (sint b) =
     (case scalar_arithmetic i64_ops dbg op a b of Inl _ \<Rightarrow> None | Inr c \<Rightarrow> Some (sint c))"
proof (cases op)
  case FloorDiv
  have "fits_i64 (sint a div sint b) \<longleftrightarrow> \<not> (sint a = - (2 ^ 63) \<and> sint b = - 1)" if "sint b \<noteq> 0"
    by (rule min_div_fits [OF fits_sint fits_sint that])
  then show ?thesis
    using FloorDiv floor_div_i64_eq [of dbg a b]
    by (auto simp: scalar_arithmetic_def i64_ops_def sint_word_of_int)
next
  case Pow
  have "a ^ n = (word_of_int (sint a ^ n) :: i64)" for n by simp
  then have "sint (a ^ n) = wrap_i64 (sint a ^ n)" for n by (metis sint_wrap)
  with Pow show ?thesis by (simp add: scalar_arithmetic_def i64_ops_def int_pow_i64_eq)
qed (simp_all add: scalar_arithmetic_def i64_ops_def checked_i64_def sint_wrap [symmetric])

text \<open>C35. Column arithmetic on \<open>i64\<close> implements integer arithmetic: it returns a column exactly when
  every row has a value in the specification, and then the rows are those values. Addition,
  subtraction and multiplication that overflow stop a debug build and wrap in a release build,
  division stops both on zero and on the one quotient out of range, powers wrap in both.\<close>
theorem zip_arithmetic_refines:
  assumes "view_len l = view_len r"
  shows "map_option (map sint)
      (case zip_arithmetic i64_ops dbg op l r [] of Inl _ \<Rightarrow> None | Inr rows \<Rightarrow> Some rows) =
    those (map2 (i64_spec dbg op) (map sint (view_values l)) (map sint (view_values r)))"
proof -
  have "those (map (\<lambda>(a, b). i64_spec dbg op (sint a) (sint b)) xs) = map_option (map sint)
      (case map_res (\<lambda>(a, b). scalar_arithmetic i64_ops dbg op a b) xs of Inl _ \<Rightarrow> None | Inr rows \<Rightarrow> Some rows)" for xs
    by (induction xs) (auto simp: scalar_arithmetic_spec split: sum.splits option.splits)
  from this [of "zip (view_values l) (view_values r)"] show ?thesis
    unfolding zip_arithmetic_def zip_views_map_res [OF assms]
    by (auto simp: zip_map_map split_def o_def split: sum.splits)
qed

theorem zip_arithmetic_refines_witness:
  "map_option (map sint)
      (case zip_arithmetic i64_ops False FloorDiv (Slice [- 7, 7]) (Constant 2 2) [] of
         Inl _ \<Rightarrow> None | Inr rows \<Rightarrow> Some rows) =
    those (map2 (i64_spec False FloorDiv) (map sint (view_values (Slice [- 7, 7 :: i64])))
      (map sint (view_values (Constant (2 :: i64) 2))))"
  by (rule zip_arithmetic_refines) simp

text \<open>The bitwise comparison of booleans is the comparison by the order with \<open>false < true\<close>.\<close>
lemma zip_bool_compare_order:
  "zip_bool_compare dbg op l r out = zip_compare cmp_of dbg op l r out"
proof -
  have "bool_compare op a b = compare_by (cmp_of a b) op" for a b
    by (cases op; cases a; cases b) (simp_all add: cmp_of_def)
  then show ?thesis by (simp add: zip_bool_compare_def zip_compare_def)
qed

text \<open>Restricting a view restricts what it stands for.\<close>

lemma view_range_values:
  "view_range v a b = Inr w \<Longrightarrow> a \<le> b \<Longrightarrow>
     b \<le> view_len v \<and> view_values w = take (b - a) (drop a (view_values v))"
  by (cases v) (auto split: if_splits)

lemma view_range_ok: "a \<le> b \<Longrightarrow> b \<le> view_len v \<Longrightarrow> \<exists>w. view_range v a b = Inr w"
  by (cases v) auto

end
