(* ===== verification/Tag_Maps.thy ===== *)
theory Tag_Maps
  imports Labels "HOL-Library.List_Lexorder" "HOL-Library.Product_Lexorder" "HOL-Library.Option_ord"
begin

section \<open>Field keys and tag maps\<close>

text \<open>
  \<open>FieldKey\<close> and \<open>TagMap\<close> of \<open>src/ccl/ty.rs\<close>: the arms of a tagged sum, kept in the order of their
  tags. The derived orders of the key types are given by a ranking into tuples, lists and options,
  compared lexicographically as the derived implementations do. Strings compare by bytes, which is
  the order of their code points.
\<close>

subsection \<open>Derived orders\<close>

fun space_rank :: "Space \<Rightarrow> nat \<times> utext list" where
  "space_rank (InModule m) = (0, segments m)"
| "space_rank (InRun r) = (1, run_names r)"

definition label_rank :: "Label \<Rightarrow> utext \<times> (nat \<times> utext list) option" where
  "label_rank l = (lb_name l, map_option space_rank (lb_space l))"

datatype FieldKey = Index nat | Name Label

fun key_rank :: "FieldKey \<Rightarrow> nat \<times> nat \<times> utext \<times> (nat \<times> utext list) option" where
  "key_rank (Index n) = (0, n, [], None)"
| "key_rank (Name l) = (1, 0, label_rank l)"

lemma space_rank_inj: "space_rank a = space_rank b \<longleftrightarrow> a = b"
proof -
  have m: "segments m = segments n \<longleftrightarrow> m = n" for m n by (cases m; cases n) simp
  have r: "run_names p = run_names q \<longleftrightarrow> p = q" for p q by (cases p; cases q) simp
  show ?thesis by (cases a; cases b) (simp_all add: m r)
qed

lemma label_rank_inj: "label_rank k = label_rank l \<longleftrightarrow> k = l"
proof -
  have "map_option space_rank s = map_option space_rank t \<longleftrightarrow> s = t" for s t
    by (cases s; cases t) (simp_all add: space_rank_inj)
  then show ?thesis by (cases k; cases l) (simp add: label_rank_def)
qed

lemma key_rank_inj: "key_rank a = key_rank b \<longleftrightarrow> a = b"
  by (cases a; cases b) (simp_all add: label_rank_inj)

instantiation FieldKey :: linorder
begin

definition less_eq_FieldKey :: "FieldKey \<Rightarrow> FieldKey \<Rightarrow> bool" where
  "less_eq_FieldKey a b \<longleftrightarrow> key_rank a \<le> key_rank b"

definition less_FieldKey :: "FieldKey \<Rightarrow> FieldKey \<Rightarrow> bool" where
  "less_FieldKey a b \<longleftrightarrow> key_rank a < key_rank b"

instance
  by intro_classes (auto simp: less_eq_FieldKey_def less_FieldKey_def key_rank_inj [symmetric])

end

instantiation ModulePath :: linorder
begin

definition less_eq_ModulePath :: "ModulePath \<Rightarrow> ModulePath \<Rightarrow> bool" where
  "less_eq_ModulePath p q \<longleftrightarrow> segments p \<le> segments q"

definition less_ModulePath :: "ModulePath \<Rightarrow> ModulePath \<Rightarrow> bool" where
  "less_ModulePath p q \<longleftrightarrow> segments p < segments q"

instance
proof
  fix p q :: ModulePath
  show "p \<le> q \<Longrightarrow> q \<le> p \<Longrightarrow> p = q"
    by (cases p; cases q) (simp add: less_eq_ModulePath_def)
qed (auto simp: less_eq_ModulePath_def less_ModulePath_def)

end

instantiation FileId :: linorder
begin

definition less_eq_FileId :: "FileId \<Rightarrow> FileId \<Rightarrow> bool" where
  "less_eq_FileId f g \<longleftrightarrow> FileId_index f \<le> FileId_index g"

definition less_FileId :: "FileId \<Rightarrow> FileId \<Rightarrow> bool" where
  "less_FileId f g \<longleftrightarrow> FileId_index f < FileId_index g"

instance
proof
  fix f g :: FileId
  show "f \<le> g \<Longrightarrow> g \<le> f \<Longrightarrow> f = g"
    by (cases f; cases g) (simp add: less_eq_FileId_def)
qed (auto simp: less_eq_FileId_def less_FileId_def)

end

subsection \<open>Tag maps\<close>

type_synonym 't TagMap = "(FieldKey \<times> 't) list"

definition TagMap_new :: "'t TagMap" where
  "TagMap_new = []"

definition from_positional :: "'t list \<Rightarrow> 't TagMap" where
  "from_positional arms = map (\<lambda>(i, v). (Index i, v)) (enumerate 0 arms)"

definition into_values :: "'t TagMap \<Rightarrow> 't list" where
  "into_values m = map snd m"

text \<open>\<open>sort_by\<close> is stable, and \<open>windows(2)\<close> compares neighbours.\<close>

fun adjacent_distinct :: "'a list \<Rightarrow> bool" where
  "adjacent_distinct (a # b # t) \<longleftrightarrow> a \<noteq> b \<and> adjacent_distinct (b # t)"
| "adjacent_distinct _ \<longleftrightarrow> True"

definition from_arms :: "'t TagMap \<Rightarrow> 't TagMap res" where
  "from_arms arms =
     (let arms = sort_key fst arms
      in if adjacent_distinct (map fst arms) then Inr arms else Inl AssertFailed)"

definition position :: "FieldKey \<Rightarrow> 't TagMap \<Rightarrow> nat option" where
  "position key m = binary_search key (map fst m)"

definition tag_get :: "FieldKey \<Rightarrow> 't TagMap \<Rightarrow> 't option" where
  "tag_get key m = map_option (\<lambda>i. snd (m ! i)) (position key m)"

text \<open>\<open>get_mut\<close> and \<open>get_or_insert_with\<close> return a reference to an arm; \<open>f\<close> is what the caller writes
  through it.\<close>

definition tag_update :: "FieldKey \<Rightarrow> ('t \<Rightarrow> 't) \<Rightarrow> 't TagMap \<Rightarrow> 't TagMap option" where
  "tag_update key f m = map_option (\<lambda>i. m[i := (fst (m ! i), f (snd (m ! i)))]) (position key m)"

definition get_or_insert_with :: "FieldKey \<Rightarrow> 't \<Rightarrow> 't TagMap \<Rightarrow> nat \<times> 't TagMap" where
  "get_or_insert_with key v m =
     (case position key m of
        Some i \<Rightarrow> (i, m)
      | None \<Rightarrow>
          let i = partition_point (\<lambda>k. k < key) (map fst m)
          in (i, take i m @ (key, v) # drop i m))"

definition tag_len :: "'t TagMap \<Rightarrow> nat" where
  "tag_len m = length m"

definition tag_is_empty :: "'t TagMap \<Rightarrow> bool" where
  "tag_is_empty m \<longleftrightarrow> m = []"

definition tag_keys :: "'t TagMap \<Rightarrow> FieldKey list" where
  "tag_keys m = map fst m"

definition tag_map :: "(FieldKey \<Rightarrow> 't \<Rightarrow> 'u) \<Rightarrow> 't TagMap \<Rightarrow> 'u TagMap" where
  "tag_map f m = map (\<lambda>(k, v). (k, f k v)) m"

subsection \<open>Canonical order\<close>

text \<open>The invariant of a tag map: its tags ascend strictly.\<close>

definition tags_ok :: "'t TagMap \<Rightarrow> bool" where
  "tags_ok m \<longleftrightarrow> sorted_wrt (<) (map fst m)"

lemma tags_ok_distinct: "tags_ok m \<Longrightarrow> distinct (map fst m)"
  by (simp add: tags_ok_def strict_sorted_iff)

lemma adjacent_sorted: "sorted xs \<Longrightarrow> adjacent_distinct xs \<longleftrightarrow> sorted_wrt (<) (xs :: 'a::linorder list)"
proof (induction xs rule: adjacent_distinct.induct)
  case (1 a b t)
  then have "adjacent_distinct (b # t) \<longleftrightarrow> sorted_wrt (<) (b # t)" by simp
  with 1 show ?case by (auto simp: order.order_iff_strict dest: less_trans)
qed auto

lemma tag_get_map_of:
  assumes "tags_ok m"
  shows "tag_get key m = map_of m key"
proof (cases "position key m")
  case None
  then have "key \<notin> fst ` set m"
    using assms binary_search_None [of "map fst m" key] by (simp add: position_def tags_ok_def)
  then have "map_of m key = None" by (simp add: map_of_eq_None_iff)
  with None show ?thesis by (simp add: tag_get_def)
next
  case (Some i)
  then have "i < length m" "fst (m ! i) = key"
    using binary_search_Some [of key "map fst m" i] by (auto simp: position_def)
  moreover from this have "map_of m (fst (m ! i)) = Some (snd (m ! i))"
    using tags_ok_distinct [OF assms] by (intro map_of_is_SomeI) auto
  ultimately show ?thesis using Some by (simp add: tag_get_def)
qed

lemma tag_map_ok [simp]: "tags_ok (tag_map f m) = tags_ok m"
  by (simp add: tags_ok_def tag_map_def comp_def split_def)

lemma from_positional_ok: "tags_ok (from_positional arms)"
proof -
  have "map fst (from_positional arms) = map Index [0..<length arms]"
    by (auto simp: from_positional_def enumerate_eq_zip comp_def split_def map_fst_zip
        simp flip: map_map [of Index fst, unfolded comp_def])
  then show ?thesis
    by (simp add: tags_ok_def sorted_wrt_map less_FieldKey_def sorted_wrt_upt)
qed

lemma insert_sorted_position:
  assumes "tags_ok m" "position key m = None"
  defines "i \<equiv> partition_point (\<lambda>k. k < key) (map fst m)"
  shows "tags_ok (take i m @ (key, v) # drop i m)"
proof -
  have i: "i \<le> length m" using partition_point_le [of _ "map fst m"] by (simp add: i_def)
  have below: "k < key" if "k \<in> fst ` set (take i m)" for k
  proof -
    from that obtain j where "j < i" "j < length m" "k = fst (m ! j)"
      by (auto simp: in_set_conv_nth image_iff)
    then show ?thesis
      using partition_point_less_nth [of j "\<lambda>k. k < key" "map fst m"] by (simp add: i_def)
  qed
  have notin: "key \<notin> fst ` set m"
    using assms(1,2) binary_search_None [of "map fst m" key] by (simp add: position_def tags_ok_def)
  have above: "key < k" if "k \<in> fst ` set (drop i m)" for k
  proof -
    from that obtain x where "x \<in> set (drop i m)" "k = fst x" by auto
    then obtain j where "j < length (drop i m)" "k = fst (drop i m ! j)"
      by (metis in_set_conv_nth)
    then have j: "i + j < length m" "k = fst (m ! (i + j))" using i by auto
    then have "\<not> fst (m ! i) < key"
      using partition_point_nth [of "\<lambda>k. k < key" "map fst m"] by (simp add: i_def)
    moreover have "fst (m ! i) \<le> k"
      using assms(1) j sorted_wrt_nth_less [of "(<)" "map fst m" i "i + j"]
      by (cases j) (auto simp: tags_ok_def)
    moreover have "fst (m ! i) \<in> fst ` set m" "k \<in> fst ` set m" using j by auto
    ultimately show ?thesis using notin by (metis leD le_less_linear less_le_trans nle_le)
  qed
  have "sorted_wrt (<) (map fst (take i m))" "sorted_wrt (<) (map fst (drop i m))"
    using assms(1) by (simp_all add: tags_ok_def sorted_wrt_take sorted_wrt_drop flip: take_map drop_map)
  with below above show ?thesis
    by (force simp: tags_ok_def sorted_wrt_append dest: less_trans)
qed

text \<open>\<open>from_arms\<close> returns the arms in strictly ascending tag order, with the association of tags
  to arms unchanged, exactly when no tag repeats, and its assertion fails otherwise.\<close>
lemma from_arms_canonical:
  "from_arms arms =
     (if distinct (map fst arms) then Inr (sort_key fst arms) else Inl AssertFailed)
   \<and> (distinct (map fst arms) \<longrightarrow>
       tags_ok (sort_key fst arms) \<and> (\<forall>k. tag_get k (sort_key fst arms) = map_of arms k))"
proof -
  have s: "sorted (map fst (sort_key fst arms))" by simp
  have "distinct (map fst (sort_key fst arms)) \<longleftrightarrow> distinct (map fst arms)"
    by (simp add: distinct_map)
  then have d: "adjacent_distinct (map fst (sort_key fst arms)) \<longleftrightarrow> distinct (map fst arms)"
    unfolding adjacent_sorted [OF s] strict_sorted_iff using s by simp
  have "tags_ok (sort_key fst arms)" "map_of (sort_key fst arms) = map_of arms"
    if "distinct (map fst arms)"
    using that d adjacent_sorted [OF s] by (auto simp: tags_ok_def distinct_map intro!: map_of_inject_set [THEN iffD2])
  then show ?thesis using d by (auto simp: from_arms_def Let_def tag_get_map_of)
qed

lemma get_or_insert_spec:
  assumes "tags_ok m" "get_or_insert_with key v m = (i, m')"
  shows "tags_ok m' \<and> i < length m' \<and> fst (m' ! i) = key \<and>
    (\<forall>k. tag_get k m' = (if k = key \<and> tag_get key m = None then Some v else tag_get k m))"
proof (cases "position key m")
  case (Some j)
  then have "i = j" "m' = m" "j < length m" "fst (m ! j) = key" "tag_get key m \<noteq> None"
    using assms(2) binary_search_Some [of key "map fst m" j]
    by (auto simp: get_or_insert_with_def position_def tag_get_def)
  with assms(1) show ?thesis by auto
next
  case None
  define j where "j = partition_point (\<lambda>k. k < key) (map fst m)"
  have m': "i = j" "m' = take j m @ (key, v) # drop j m"
    using None assms(2) by (auto simp: get_or_insert_with_def Let_def j_def)
  have ok: "tags_ok m'" using insert_sorted_position [OF assms(1) None] m' by (simp add: j_def)
  have le: "j \<le> length m" using partition_point_le [of _ "map fst m"] by (simp add: j_def)
  have key: "tag_get key m = None" using None by (simp add: tag_get_def)
  then have "key \<notin> fst ` set m" using assms(1) by (simp add: tag_get_map_of map_of_eq_None_iff)
  then have "key \<notin> fst ` set (take j m)" by (auto dest: in_set_takeD)
  then have tk: "map_of (take j m) key = None" by (simp add: map_of_eq_None_iff)
  have "map_of m' k = (if k = key then Some v else map_of m k)" for k
  proof -
    have "map_of m k = (map_of (drop j m) ++ map_of (take j m)) k"
      by (metis append_take_drop_id map_of_append)
    with tk m' show ?thesis by (auto simp: map_add_def split: option.splits)
  qed
  with ok assms(1) key m' le show ?thesis by (simp add: tag_get_map_of nth_append)
qed

text \<open>Asking for a tag inserts the default exactly when the tag is missing, keeps the tag order
  and every other arm, and the returned position is the tag's.\<close>
lemma get_or_insert_lookup:
  assumes "tags_ok m" "get_or_insert_with key v m = (i, m')"
  shows "tags_ok m' \<and> i < length m' \<and> fst (m' ! i) = key \<and>
    (\<forall>k. tag_get k m' = (if k = key \<and> tag_get key m = None then Some v else tag_get k m))"
  by (rule get_or_insert_spec [OF assms])

end
