(* ===== verification/Columns.thy ===== *)
theory Columns
  imports Tag_Maps Scalar_Ops "HOL-Library.AList"
begin

section \<open>Values and columns\<close>

text \<open>
  \<open>src/interpreter/types/value.rs\<close> and \<open>src/interpreter/types/column_value.rs\<close>: the values of the
  run time, and batches of them held column by column. A \<open>HashMap\<close> is the list of its entries in
  the order of their keys, so equal maps are equal lists; where the code iterates a \<open>HashMap\<close>, whose
  order is unspecified, the model goes through it in key order. \<open>'f\<close> stands for \<open>FunctionDef\<close>, the
  built-in functions a value may hold, which no column operation inspects. Row counts are naturals.
\<close>

subsection \<open>Data\<close>

datatype 'f Value =
    VInt i64
  | VUInt u64
  | VString utext
  | VBool bool
  | VUnit
  | VFunction "'f FuncBinding list"
  | VRecord "(utext \<times> 'f Value) list"
  | VComputableFunction 'f
  | VUnion FieldKey "'f Value"
and 'f FuncBinding = FuncBinding "'f Value" "'f Value"

datatype 'f ColumnValue =
    CUnits nat
  | CInts "i64 list"
  | CUInts "u64 list"
  | CStrings "utext list"
  | CBools "bool list"
  | CVariants "'f Value list"
  | CFunctionBindings "'f ColumnValue" "'f ColumnValue"
  | CRecords "(utext \<times> 'f ColumnValue) list"
  | CUnion "(FieldKey \<times> 'f UnionArm) list"
and 'f UnionArm = UnionArm "nat list" "'f ColumnValue"

fun fb_input :: "'f FuncBinding \<Rightarrow> 'f Value" where
  "fb_input (FuncBinding i b) = i"

fun arm_rows :: "'f UnionArm \<Rightarrow> nat list" where
  "arm_rows (UnionArm rows vs) = rows"

fun arm_values :: "'f UnionArm \<Rightarrow> 'f ColumnValue" where
  "arm_values (UnionArm rows vs) = vs"

definition uint_of_row :: "nat \<Rightarrow> u64" where
  "uint_of_row row = word_of_nat row"

text \<open>\<open>usize\<close> has 64 bits on the supported hosts, so every \<open>u64\<close> is a row index.\<close>

definition row_index :: "u64 \<Rightarrow> nat res" where
  "row_index u = Inr (unat u)"

definition bindings_are_list :: "'f FuncBinding list \<Rightarrow> bool" where
  "bindings_are_list bs \<longleftrightarrow>
     list_all (\<lambda>(i, b). fb_input b = VUInt (uint_of_row i)) (enumerate 0 bs)"

subsection \<open>Length and indexing\<close>

definition arm_len :: "'f UnionArm \<Rightarrow> nat" where
  "arm_len arm = length (arm_rows arm)"

definition arm_is_empty :: "'f UnionArm \<Rightarrow> bool" where
  "arm_is_empty arm \<longleftrightarrow> arm_rows arm = []"

definition slot_of :: "'f UnionArm \<Rightarrow> nat \<Rightarrow> nat option" where
  "slot_of arm row = binary_search row (arm_rows arm)"

definition row_slots :: "'f UnionArm \<Rightarrow> (nat \<times> nat) list" where
  "row_slots arm = map (\<lambda>(slot, row). (row, slot)) (enumerate 0 (arm_rows arm))"

fun col_len :: "bool \<Rightarrow> 'f ColumnValue \<Rightarrow> nat res"
  and same_len :: "bool \<Rightarrow> nat \<Rightarrow> (utext \<times> 'f ColumnValue) list \<Rightarrow> nat res" where
  "col_len dbg (CUnits n) = Inr n"
| "col_len dbg (CBools v) = Inr (length v)"
| "col_len dbg (CInts v) = Inr (length v)"
| "col_len dbg (CUInts v) = Inr (length v)"
| "col_len dbg (CStrings v) = Inr (length v)"
| "col_len dbg (CVariants v) = Inr (length v)"
| "col_len dbg (CRecords []) = Inl ExpectFailed"
| "col_len dbg (CRecords ((k, c) # fs)) =
     bind_res (col_len dbg c) (\<lambda>n. if dbg then same_len dbg n fs else Inr n)"
| "col_len dbg (CFunctionBindings i o') = col_len dbg i"
| "col_len dbg (CUnion arms) = Inr (sum_list (map (\<lambda>(k, arm). arm_len arm) arms))"
| "same_len dbg n [] = Inr n"
| "same_len dbg n ((k, c) # fs) =
     bind_res (col_len dbg c) (\<lambda>m. if m = n then same_len dbg n fs else Inl AssertFailed)"

definition col_is_empty :: "bool \<Rightarrow> 'f ColumnValue \<Rightarrow> bool res" where
  "col_is_empty dbg c = map_ok (\<lambda>n. n = 0) (col_len dbg c)"

definition is_scalar :: "bool \<Rightarrow> 'f ColumnValue \<Rightarrow> bool res" where
  "is_scalar dbg c = map_ok (\<lambda>n. n = 1) (col_len dbg c)"

text \<open>A union's row is in the first arm that carries it.\<close>

fun index_at :: "'f ColumnValue \<Rightarrow> nat \<Rightarrow> 'f Value res"
  and index_arms :: "(FieldKey \<times> 'f UnionArm) list \<Rightarrow> nat \<Rightarrow> 'f Value res" where
  "index_at (CUnits _) i = Inr VUnit"
| "index_at (CBools v) i = map_ok VBool (nth_res v i)"
| "index_at (CInts v) i = map_ok VInt (nth_res v i)"
| "index_at (CUInts v) i = map_ok VUInt (nth_res v i)"
| "index_at (CStrings v) i = map_ok VString (nth_res v i)"
| "index_at (CVariants v) i = nth_res v i"
| "index_at (CFunctionBindings ins outs) i =
     bind_res (index_at ins i) (\<lambda>a. bind_res (index_at outs i) (\<lambda>b. Inr (VFunction [FuncBinding a b])))"
| "index_at (CRecords fs) i =
     map_ok VRecord (map_res (\<lambda>(k, c). map_ok (Pair k) (index_at c i)) fs)"
| "index_at (CUnion arms) i = index_arms arms i"
| "index_arms [] i = Inl Explicit"
| "index_arms ((k, UnionArm rows vs) # arms) i =
     (case slot_of (UnionArm rows vs) i of
        Some s \<Rightarrow> map_ok (VUnion k) (index_at vs s)
      | None \<Rightarrow> index_arms arms i)"

subsection \<open>Building columns\<close>

definition UnionArm_new :: "bool \<Rightarrow> nat list \<Rightarrow> 'f ColumnValue \<Rightarrow> 'f UnionArm res" where
  "UnionArm_new dbg rows vs =
     (if dbg
      then bind_res (col_len dbg vs) (\<lambda>n.
        if length rows = n \<and> sorted_wrt (<) rows then Inr (UnionArm rows vs) else Inl AssertFailed)
      else Inr (UnionArm rows vs))"

definition partitions :: "(FieldKey \<times> 'f UnionArm) list \<Rightarrow> bool" where
  "partitions arms \<longleftrightarrow>
     (let rows = sort (concat (map (\<lambda>(k, arm). arm_rows arm) arms)) in rows = [0..<length rows])"

definition debug_assert_union_invariants ::
  "bool \<Rightarrow> (FieldKey \<times> 'f UnionArm) list \<Rightarrow> 'f ColumnValue res" where
  "debug_assert_union_invariants dbg arms =
     (if dbg
      then if partitions arms
        then bind_res
          (map_res (\<lambda>(k, arm). bind_res (col_len dbg (arm_values arm))
             (\<lambda>n. if length (arm_rows arm) = n then Inr () else Inl AssertFailed)) arms)
          (\<lambda>_. Inr (CUnion arms))
        else Inl AssertFailed
      else Inr (CUnion arms))"

fun empty_like :: "'f ColumnValue \<Rightarrow> 'f ColumnValue"
  and arm_empty_like :: "'f UnionArm \<Rightarrow> 'f UnionArm" where
  "empty_like (CUnits _) = CUnits 0"
| "empty_like (CInts _) = CInts []"
| "empty_like (CUInts _) = CUInts []"
| "empty_like (CStrings _) = CStrings []"
| "empty_like (CBools _) = CBools []"
| "empty_like (CVariants _) = CVariants []"
| "empty_like (CFunctionBindings i o') = CFunctionBindings (empty_like i) (empty_like o')"
| "empty_like (CRecords fs) = CRecords (map (\<lambda>(k, c). (k, empty_like c)) fs)"
| "empty_like (CUnion arms) = CUnion (map (\<lambda>(k, arm). (k, arm_empty_like arm)) arms)"
| "arm_empty_like (UnionArm rows vs) = UnionArm [] (empty_like vs)"

fun clear_col :: "'f ColumnValue \<Rightarrow> 'f ColumnValue" where
  "clear_col (CUnits _) = CUnits 0"
| "clear_col (CInts _) = CInts []"
| "clear_col (CUInts _) = CUInts []"
| "clear_col (CStrings _) = CStrings []"
| "clear_col (CBools _) = CBools []"
| "clear_col (CVariants _) = CVariants []"
| "clear_col (CRecords fs) = CRecords (map (\<lambda>(k, c). (k, clear_col c)) fs)"
| "clear_col (CFunctionBindings i o') = empty_like (CFunctionBindings i o')"
| "clear_col (CUnion arms) = empty_like (CUnion arms)"

subsection \<open>Selecting rows\<close>

text \<open>For an arm: the new positions of the selected rows it carries, and their payload slots.\<close>

definition picks :: "'f UnionArm \<Rightarrow> nat list \<Rightarrow> (nat \<times> nat) list" where
  "picks arm sel =
     List.map_filter (\<lambda>(new_row, orig). map_option (Pair new_row) (slot_of arm orig)) (enumerate 0 sel)"

fun select_indices :: "bool \<Rightarrow> 'f ColumnValue \<Rightarrow> nat list \<Rightarrow> nat \<Rightarrow> 'f ColumnValue res"
  and gather :: "bool \<Rightarrow> 'f UnionArm \<Rightarrow> nat list \<Rightarrow> nat list \<Rightarrow> 'f UnionArm res" where
  "select_indices dbg (CUnits _) is n = Inr (CUnits n)"
| "select_indices dbg (CBools v) is n = map_ok CBools (map_res (nth_res v) is)"
| "select_indices dbg (CInts v) is n = map_ok CInts (map_res (nth_res v) is)"
| "select_indices dbg (CUInts v) is n = map_ok CUInts (map_res (nth_res v) is)"
| "select_indices dbg (CStrings v) is n = map_ok CStrings (map_res (nth_res v) is)"
| "select_indices dbg (CVariants v) is n = map_ok CVariants (map_res (nth_res v) is)"
| "select_indices dbg (CFunctionBindings ins outs) is n =
     bind_res (select_indices dbg ins is (length is)) (\<lambda>a.
     bind_res (select_indices dbg outs is (length is)) (\<lambda>b. Inr (CFunctionBindings a b)))"
| "select_indices dbg (CRecords fs) is n =
     map_ok CRecords (map_res (\<lambda>(k, c). map_ok (Pair k) (select_indices dbg c is n)) fs)"
| "select_indices dbg (CUnion arms) is n =
     bind_res
       (map_res (\<lambda>(k, arm). let ps = picks arm is in
          map_ok (Pair k) (gather dbg arm (map fst ps) (map snd ps))) arms)
       (debug_assert_union_invariants dbg)"
| "gather dbg (UnionArm rows vs) new_rows slots =
     bind_res (select_indices dbg vs slots (length slots)) (UnionArm_new dbg new_rows)"

fun slice_col :: "bool \<Rightarrow> 'f ColumnValue \<Rightarrow> nat \<Rightarrow> nat \<Rightarrow> 'f ColumnValue res" where
  "slice_col dbg (CInts v) a b = map_ok CInts (slice_res v a b)"
| "slice_col dbg (CUInts v) a b = map_ok CUInts (slice_res v a b)"
| "slice_col dbg (CStrings v) a b = map_ok CStrings (slice_res v a b)"
| "slice_col dbg (CBools v) a b = map_ok CBools (slice_res v a b)"
| "slice_col dbg (CRecords fs) a b =
     map_ok CRecords (map_res (\<lambda>(k, c). map_ok (Pair k) (slice_col dbg c a b)) fs)"
| "slice_col dbg c a b = select_indices dbg c [a..<b] (b - a)"

subsection \<open>Appending\<close>

definition extend_ascends :: "'f UnionArm \<Rightarrow> 'f UnionArm \<Rightarrow> nat \<Rightarrow> bool" where
  "extend_ascends arm other offset \<longleftrightarrow>
     arm_rows other = [] \<or> arm_rows arm = [] \<or> last (arm_rows arm) < hd (arm_rows other) + offset"

function append_col :: "bool \<Rightarrow> 'f ColumnValue \<Rightarrow> 'f ColumnValue \<Rightarrow> 'f ColumnValue res"
  and append_fields :: "bool \<Rightarrow> (utext \<times> 'f ColumnValue) list \<Rightarrow> (utext \<times> 'f ColumnValue) list \<Rightarrow>
    (utext \<times> 'f ColumnValue) list res"
  and append_arms :: "bool \<Rightarrow> nat \<Rightarrow> (FieldKey \<times> 'f UnionArm) list \<Rightarrow> (FieldKey \<times> 'f UnionArm) list \<Rightarrow>
    (FieldKey \<times> 'f UnionArm) list res"
  and extend_shifted :: "bool \<Rightarrow> 'f UnionArm \<Rightarrow> 'f UnionArm \<Rightarrow> nat \<Rightarrow> 'f UnionArm res" where
  "append_col dbg a b =
     (case (a, b) of
        (CUnits s, CUnits t) \<Rightarrow> Inr (CUnits (s + t))
      | (CInts s, CInts t) \<Rightarrow> Inr (CInts (s @ t))
      | (CUInts s, CUInts t) \<Rightarrow> Inr (CUInts (s @ t))
      | (CBools s, CBools t) \<Rightarrow> Inr (CBools (s @ t))
      | (CStrings s, CStrings t) \<Rightarrow> Inr (CStrings (s @ t))
      | (CVariants s, CVariants t) \<Rightarrow> Inr (CVariants (s @ t))
      | (CFunctionBindings si so, CFunctionBindings ti to) \<Rightarrow>
          bind_res (append_col dbg si ti) (\<lambda>a.
          bind_res (append_col dbg so to) (\<lambda>b. Inr (CFunctionBindings a b)))
      | (CRecords s, CRecords t) \<Rightarrow> map_ok CRecords (append_fields dbg s t)
      | (CUnion sa, CUnion ta) \<Rightarrow>
          bind_res (append_arms dbg (sum_list (map (\<lambda>(k, arm). arm_len arm) sa)) sa ta) (\<lambda>arms.
            if dbg \<and> \<not> partitions arms then Inl AssertFailed else Inr (CUnion arms))
      | _ \<Rightarrow> Inl Explicit)"
| "append_fields dbg s [] = Inr s"
| "append_fields dbg s ((k, v) # t) =
     (case map_of s k of
        None \<Rightarrow> Inl Explicit
      | Some c \<Rightarrow> bind_res (append_col dbg c v) (\<lambda>c. append_fields dbg (AList.update k c s) t))"
| "append_arms dbg offset sa [] = Inr sa"
| "append_arms dbg offset sa ((tag, other) # ta) =
     (let (i, sb) = get_or_insert_with tag (arm_empty_like other) sa in
      bind_res (extend_shifted dbg (snd (sb ! i)) other offset) (\<lambda>arm.
        append_arms dbg offset (sb[i := (fst (sb ! i), arm)]) ta))"
| "extend_shifted dbg (UnionArm rows vs) (UnionArm trows tvs) offset =
     (if dbg \<and> \<not> extend_ascends (UnionArm rows vs) (UnionArm trows tvs) offset then Inl AssertFailed
      else map_ok (UnionArm (rows @ map (\<lambda>r. r + offset) trows)) (append_col dbg vs tvs))"
  by pat_completeness auto
termination
  by (relation "measure (\<lambda>x. case x of
      Inl (Inl (_, _, c)) \<Rightarrow> size c
    | Inl (Inr (_, _, fs)) \<Rightarrow> size_list (size_prod (\<lambda>_. 0) size) fs
    | Inr (Inl (_, _, _, arms)) \<Rightarrow> size_list (size_prod (\<lambda>_. 0) size) arms
    | Inr (Inr (_, _, arm, _)) \<Rightarrow> size arm)") auto

declare append_col.simps [simp del]

end
