(* ===== verification/Column_Rows.thy ===== *)
theory Column_Rows
  imports Columns
begin

section \<open>Columns as sequences of rows\<close>

text \<open>
  The invariant of a column and what its operations do to its rows, read through \<open>index_at\<close>.
\<close>

subsection \<open>Well-formed columns\<close>

fun nrows :: "'f ColumnValue \<Rightarrow> nat" where
  "nrows (CUnits n) = n"
| "nrows (CInts v) = length v"
| "nrows (CUInts v) = length v"
| "nrows (CStrings v) = length v"
| "nrows (CBools v) = length v"
| "nrows (CVariants v) = length v"
| "nrows (CFunctionBindings i b) = nrows i"
| "nrows (CRecords []) = 0"
| "nrows (CRecords ((k, c) # fs)) = nrows c"
| "nrows (CUnion arms) = sum_list (map (\<lambda>(k, arm). arm_len arm) arms)"

text \<open>The fields of a record have one length, and the arms of a union partition its rows.\<close>

fun wf_col :: "'f ColumnValue \<Rightarrow> bool" and wf_arm :: "'f UnionArm \<Rightarrow> bool" where
  "wf_col (CFunctionBindings i b) \<longleftrightarrow> wf_col i \<and> wf_col b \<and> nrows i = nrows b"
| "wf_col (CRecords fs) \<longleftrightarrow>
     fs \<noteq> [] \<and> sorted_wrt (<) (map fst fs) \<and>
     list_all (\<lambda>(k, c). wf_col c \<and> nrows c = nrows (CRecords fs)) fs"
| "wf_col (CUnion arms) \<longleftrightarrow> tags_ok arms \<and> list_all (\<lambda>(k, arm). wf_arm arm) arms \<and> partitions arms"
| "wf_col _ \<longleftrightarrow> True"
| "wf_arm (UnionArm rows vs) \<longleftrightarrow> sorted_wrt (<) rows \<and> length rows = nrows vs \<and> wf_col vs"

lemma same_len_ok:
  "list_all (\<lambda>(k, c). col_len dbg c = Inr n) fs \<Longrightarrow> same_len dbg n fs = Inr n"
  by (induction fs) auto

fun leaf_col :: "'f ColumnValue \<Rightarrow> bool" where
  "leaf_col (CFunctionBindings _ _) = False"
| "leaf_col (CRecords _) = False"
| "leaf_col (CUnion _) = False"
| "leaf_col _ = True"

lemma size_field: "(k, c) \<in> set fs \<Longrightarrow> size c < size (CRecords fs)"
  by (induction fs) auto

lemma size_payload: "(k, UnionArm rows vs) \<in> set arms \<Longrightarrow> size vs < size (CUnion arms)"
  by (induction arms) auto

lemma column_induct [case_names leaf bindings records union]:
  assumes leaf: "\<And>c. leaf_col c \<Longrightarrow> P c"
    and bindings: "\<And>i b. P i \<Longrightarrow> P b \<Longrightarrow> P (CFunctionBindings i b)"
    and records: "\<And>fs. (\<And>k c. (k, c) \<in> set fs \<Longrightarrow> P c) \<Longrightarrow> P (CRecords fs)"
    and union: "\<And>arms. (\<And>k rows vs. (k, UnionArm rows vs) \<in> set arms \<Longrightarrow> P vs) \<Longrightarrow> P (CUnion arms)"
  shows "P (c :: 'f ColumnValue)"
proof (induction c rule: measure_induct_rule [of size])
  case (less c)
  show ?case
  proof (cases c)
    case (CFunctionBindings i b)
    then show ?thesis using less by (auto intro!: bindings)
  next
    case (CRecords fs)
    have "P d" if "(k, d) \<in> set fs" for k d using less size_field [OF that] CRecords by blast
    then show ?thesis unfolding CRecords by (rule records)
  next
    case (CUnion arms)
    have "P vs" if "(k, UnionArm rows vs) \<in> set arms" for k rows vs
      using less size_payload [OF that] CUnion by blast
    then show ?thesis unfolding CUnion by (rule union)
  qed (auto intro!: leaf)
qed

lemma wf_field:
  assumes "wf_col (CRecords fs)" "(k, c) \<in> set fs"
  shows "wf_col c" "nrows c = nrows (CRecords fs)"
  using assms by (auto simp: list_all_iff)

lemma wf_payload:
  assumes "wf_col (CUnion arms)" "(k, UnionArm rows vs) \<in> set arms"
  shows "wf_col vs" "sorted_wrt (<) rows" "nrows vs = length rows"
  using assms by (auto simp: list_all_iff)

lemma col_len_wf: "wf_col c \<Longrightarrow> col_len dbg c = Inr (nrows c)"
proof (induction c rule: column_induct)
  case (leaf c)
  then show ?case by (cases c) auto
next
  case (records fs)
  then obtain k c fs' where fs: "fs = (k, c) # fs'" by (cases fs) auto
  have "\<forall>(l, d) \<in> set fs. col_len dbg d = Inr (nrows c)"
    using records wf_field [OF records.prems] fs by fastforce
  with fs have "col_len dbg c = Inr (nrows c)" "same_len dbg (nrows c) fs' = Inr (nrows c)"
    by (auto intro!: same_len_ok simp: list_all_iff)
  with fs show ?case by (cases dbg) simp_all
qed auto

subsection \<open>Partitions\<close>

lemma sum_arm_len: "sum_list (map (\<lambda>(k, arm). arm_len arm) arms) = length (concat (map (\<lambda>(k, arm). arm_rows arm) arms))"
  by (simp add: length_concat comp_def split_def arm_len_def)

lemma sort_upt_iff: "sort xs = [0..<length xs] \<longleftrightarrow> distinct xs \<and> set xs = {0..<length xs}"
proof
  assume "sort xs = [0..<length xs]"
  then show "distinct xs \<and> set xs = {0..<length xs}"
    by (metis distinct_sort distinct_upt set_sort set_upt)
next
  assume "distinct xs \<and> set xs = {0..<length xs}"
  then show "sort xs = [0..<length xs]"
    by (metis sorted_list_of_set_sort_remdups distinct_remdups_id sorted_list_of_set_range)
qed

lemma partitions_iff:
  "partitions arms \<longleftrightarrow>
     distinct (concat (map (\<lambda>(k, arm). arm_rows arm) arms)) \<and>
     (\<Union>(k, arm) \<in> set arms. set (arm_rows arm)) = {0..<nrows (CUnion arms)}"
  unfolding partitions_def Let_def nrows.simps sum_arm_len length_sort sort_upt_iff
  by (simp add: split_def)

lemma pairwise_insert_step:
  assumes "E x x" "\<And>q. q \<in> A \<Longrightarrow> \<not> E x q \<and> \<not> E q x" "\<And>p q. S p q = S q p"
  shows "(\<forall>p \<in> insert x A. D p \<and> (\<forall>q \<in> insert x A. E p q \<or> S p q)) \<longleftrightarrow>
    D x \<and> (\<forall>p \<in> A. D p \<and> (\<forall>q \<in> A. E p q \<or> S p q)) \<and> (\<forall>q \<in> A. S x q)"
proof -
  have "(\<forall>p \<in> insert x A. D p \<and> (\<forall>q \<in> insert x A. E p q \<or> S p q)) \<longleftrightarrow>
      D x \<and> (E x x \<or> S x x) \<and> (\<forall>q \<in> A. E x q \<or> S x q) \<and>
      (\<forall>p \<in> A. D p \<and> (E p x \<or> S p x) \<and> (\<forall>q \<in> A. E p q \<or> S p q))"
    by simp
  then show ?thesis using assms by blast
qed

lemma distinct_arms:
  "distinct (map fst arms) \<Longrightarrow>
     distinct (concat (map (\<lambda>(k, arm). arm_rows arm) arms)) \<longleftrightarrow>
     (\<forall>p \<in> set arms. distinct (arm_rows (snd p)) \<and>
        (\<forall>q \<in> set arms. fst p = fst q \<or> set (arm_rows (snd p)) \<inter> set (arm_rows (snd q)) = {}))"
proof (induction arms)
  case (Cons x arms)
  have ne: "\<forall>q \<in> set arms. fst x \<noteq> fst q" using Cons.prems by (auto simp: image_iff)
  have "distinct (concat (map (\<lambda>(k, arm). arm_rows arm) (x # arms))) \<longleftrightarrow>
      distinct (arm_rows (snd x)) \<and> distinct (concat (map (\<lambda>(k, arm). arm_rows arm) arms)) \<and>
      (\<forall>q \<in> set arms. set (arm_rows (snd x)) \<inter> set (arm_rows (snd q)) = {})"
    by (auto simp: split_def)
  moreover have "distinct (map fst arms)" using Cons.prems by simp
  moreover have "(\<forall>p \<in> insert x (set arms). distinct (arm_rows (snd p)) \<and>
        (\<forall>q \<in> insert x (set arms). fst p = fst q \<or> set (arm_rows (snd p)) \<inter> set (arm_rows (snd q)) = {})) \<longleftrightarrow>
      distinct (arm_rows (snd x)) \<and>
      (\<forall>p \<in> set arms. distinct (arm_rows (snd p)) \<and>
        (\<forall>q \<in> set arms. fst p = fst q \<or> set (arm_rows (snd p)) \<inter> set (arm_rows (snd q)) = {})) \<and>
      (\<forall>q \<in> set arms. set (arm_rows (snd x)) \<inter> set (arm_rows (snd q)) = {})"
    by (rule pairwise_insert_step [of "\<lambda>p q. fst p = fst q" x "set arms"
          "\<lambda>p q. set (arm_rows (snd p)) \<inter> set (arm_rows (snd q)) = {}" "\<lambda>p. distinct (arm_rows (snd p))"])
      (use ne in \<open>simp_all add: Int_commute eq_commute\<close>)
  ultimately show ?case unfolding list.set(2) by (simp only: Cons.IH)
qed simp

text \<open>An index is carried by one arm.\<close>

lemma partition_unique:
  assumes "partitions arms" "tags_ok arms" "(k, a) \<in> set arms" "(l, b) \<in> set arms"
    "i \<in> set (arm_rows a)" "i \<in> set (arm_rows b)"
  shows "k = l \<and> a = b"
proof -
  have "k = l"
  proof -
    have "\<forall>p \<in> set arms. \<forall>q \<in> set arms. fst p = fst q \<or> set (arm_rows (snd p)) \<inter> set (arm_rows (snd q)) = {}"
      using assms(1) distinct_arms [OF tags_ok_distinct [OF assms(2)]] unfolding partitions_iff by simp
    from bspec [OF bspec [OF this assms(3)] assms(4)] show ?thesis using assms(5,6) by auto
  qed
  then show ?thesis using assms(3,4) tags_ok_distinct [OF assms(2)] by (metis eq_key_imp_eq_value)
qed

lemma rows_below:
  "partitions arms \<Longrightarrow> (k, arm) \<in> set arms \<Longrightarrow> i \<in> set (arm_rows arm) \<Longrightarrow> i < nrows (CUnion arms)"
  unfolding partitions_iff by fastforce

lemma partition_covers:
  assumes "partitions arms" "i < nrows (CUnion arms)"
  obtains k rows vs s where "(k, UnionArm rows vs) \<in> set arms" "s < length rows" "rows ! s = i"
proof -
  have "i \<in> (\<Union>(k, arm) \<in> set arms. set (arm_rows arm))" using assms by (simp add: partitions_iff)
  then obtain k arm where arm: "(k, arm) \<in> set arms" "i \<in> set (arm_rows arm)" by auto
  obtain s where "s < length (arm_rows arm)" "arm_rows arm ! s = i" using arm(2) by (metis in_set_conv_nth)
  then show thesis using that [of k "arm_rows arm" "arm_values arm" s] arm(1) by (cases arm) simp
qed

lemma index_arms_at:
  assumes "(k, UnionArm rows vs) \<in> set arms" "s < length rows"
    and "\<And>l r w. (l, UnionArm r w) \<in> set arms \<Longrightarrow> sorted_wrt (<) r"
    and "\<And>l r w. (l, UnionArm r w) \<in> set arms \<Longrightarrow> rows ! s \<in> set r \<Longrightarrow> l = k \<and> r = rows \<and> w = vs"
  shows "index_arms arms (rows ! s) = map_ok (VUnion k) (index_at vs s)"
  using assms
proof (induction arms)
  case (Cons x arms)
  obtain l r w where x: "x = (l, UnionArm r w)" by (metis UnionArm.exhaust surj_pair)
  show ?case
  proof (cases "rows ! s \<in> set r")
    case True
    then have "l = k" "r = rows" "w = vs" using Cons.prems(4) [of l r w] x by auto
    moreover have "sorted_wrt (<) rows" using Cons.prems(1,3) by blast
    ultimately show ?thesis
      using x Cons.prems(2) binary_search_nth [of rows s] by (simp add: slot_of_def)
  next
    case False
    have "x \<noteq> (k, UnionArm rows vs)" using False Cons.prems(2) x by auto
    moreover have "slot_of (UnionArm r w) (rows ! s) = None"
      using False Cons.prems(3) [of l r w] x by (simp add: slot_of_def binary_search_None)
    moreover have "index_arms arms (rows ! s) = map_ok (VUnion k) (index_at vs s)"
    proof (rule Cons.IH)
      show "(k, UnionArm rows vs) \<in> set arms" using Cons.prems(1) calculation(1) by simp
      show "sorted_wrt (<) r" if "(l, UnionArm r w) \<in> set arms" for l r w
        using Cons.prems(3) [of l r w] that by simp
      show "l = k \<and> r = rows \<and> w = vs" if "(l, UnionArm r w) \<in> set arms" "rows ! s \<in> set r" for l r w
        using Cons.prems(4) [of l r w] that by simp
    qed (rule Cons.prems(2))
    ultimately show ?thesis using x by simp
  qed
qed simp

lemma index_union:
  assumes "wf_col (CUnion arms)" "(k, UnionArm rows vs) \<in> set arms" "s < length rows"
  shows "index_at (CUnion arms) (rows ! s) = map_ok (VUnion k) (index_at vs s)"
proof -
  have "index_arms arms (rows ! s) = map_ok (VUnion k) (index_at vs s)"
  proof (rule index_arms_at [OF assms(2,3)])
    show "sorted_wrt (<) r" if "(l, UnionArm r w) \<in> set arms" for l r w
      using wf_payload [OF assms(1) that] by simp
    show "l = k \<and> r = rows \<and> w = vs" if "(l, UnionArm r w) \<in> set arms" "rows ! s \<in> set r" for l r w
      using partition_unique [of arms l "UnionArm r w" k "UnionArm rows vs" "rows ! s"] assms that
      by auto
  qed
  then show ?thesis by simp
qed

lemma index_at_total:
  "wf_col c \<Longrightarrow> i < nrows c \<Longrightarrow> \<exists>v. index_at c i = Inr v"
proof (induction c arbitrary: i rule: column_induct)
  case (leaf c)
  then show ?case by (cases c) auto
next
  case (bindings ins outs)
  then show ?case by fastforce
next
  case (records fs)
  have "\<exists>v. index_at c i = Inr v" if "(k, c) \<in> set fs" for k c
    using records that wf_field [OF records.prems(1) that] by simp
  then have "\<exists>vs. map_res (\<lambda>(k, c). map_ok (Pair k) (index_at c i)) fs = Inr vs"
    by (induction fs) (fastforce split: sum.splits)+
  then show ?case by auto
next
  case (union arms)
  have "partitions arms" using union.prems(1) by simp
  from partition_covers [OF this union.prems(2)] obtain k rows vs s
    where a: "(k, UnionArm rows vs) \<in> set arms" "s < length rows" "rows ! s = i" by blast
  with union obtain v where "index_at vs s = Inr v" using wf_payload [OF union.prems(1) a(1)] by metis
  then show ?case using index_union [OF union.prems(1) a(1,2)] a(3) by simp
qed

subsection \<open>Selecting rows\<close>

definition selects :: "'f ColumnValue \<Rightarrow> nat list \<Rightarrow> 'f ColumnValue \<Rightarrow> bool" where
  "selects c is d \<longleftrightarrow>
     wf_col d \<and> nrows d = length is \<and> (\<forall>j < length is. index_at d j = index_at c (is ! j))"

lemma UnionArm_new_wf: "wf_arm (UnionArm rows vs) \<Longrightarrow> UnionArm_new dbg rows vs = Inr (UnionArm rows vs)"
  by (simp add: UnionArm_new_def col_len_wf)

lemma union_invariants_wf:
  assumes "wf_col (CUnion arms)"
  shows "debug_assert_union_invariants dbg arms = Inr (CUnion arms)"
proof -
  have "map_res (\<lambda>(k, arm). bind_res (col_len dbg (arm_values arm))
      (\<lambda>n. if length (arm_rows arm) = n then Inr () else Inl AssertFailed)) arms = Inr (map (\<lambda>_. ()) arms)"
  proof -
    have "(case x of (k, arm) \<Rightarrow> bind_res (col_len dbg (arm_values arm))
        (\<lambda>n. if length (arm_rows arm) = n then Inr () else Inl AssertFailed)) = Inr ()" if "x \<in> set arms" for x
    proof -
      obtain k rows vs where x: "x = (k, UnionArm rows vs)" by (metis UnionArm.exhaust surj_pair)
      with that wf_payload [OF assms, of k rows vs] show ?thesis by (simp add: col_len_wf)
    qed
    then show ?thesis by (rule map_res_ok)
  qed
  with assms show ?thesis by (cases dbg) (simp_all add: debug_assert_union_invariants_def)
qed

lemma records_index_cong:
  "list_all2 (\<lambda>(k, c) (l, d). l = k \<and> index_at d j = index_at c i) fs gs \<Longrightarrow>
     map_res (\<lambda>(k, c). map_ok (Pair k) (index_at c j)) gs = map_res (\<lambda>(k, c). map_ok (Pair k) (index_at c i)) fs"
  by (induction rule: list_all2_induct) (auto split: prod.splits sum.splits)

lemma list_all2_fst: "list_all2 (\<lambda>(k, c) (l, d). l = k \<and> R c d) xs ys \<Longrightarrow> map fst ys = map fst xs"
  by (induction rule: list_all2_induct) auto

lemma list_all2_member:
  assumes "list_all2 (\<lambda>(k, c) (l, d). l = k \<and> R c d) xs ys"
  shows "(k, c) \<in> set xs \<Longrightarrow> \<exists>d. (k, d) \<in> set ys \<and> R c d"
    and "(k, d) \<in> set ys \<Longrightarrow> \<exists>c. (k, c) \<in> set xs \<and> R c d"
  using assms by (induction rule: list_all2_induct) auto

lemma selects_records:
  assumes "wf_col (CRecords fs)" "list_all2 (\<lambda>(k, c) (l, d). l = k \<and> selects c is d) fs gs"
  shows "selects (CRecords fs) is (CRecords gs)"
proof -
  have "\<exists>c. selects c is d" if "(l, d) \<in> set gs" for l d
    using list_all2_member(2) [OF assms(2) that] by auto
  then have each: "wf_col d" "nrows d = length is" if "(l, d) \<in> set gs" for l d
    using that by (auto simp: selects_def)
  have ne: "gs \<noteq> []" using assms by auto
  then have n: "nrows (CRecords gs) = length is"
    using each by (cases gs) (auto, metis list.set_intros(1) surj_pair)
  have "index_at (CRecords gs) j = index_at (CRecords fs) (is ! j)" if "j < length is" for j
  proof -
    have "list_all2 (\<lambda>(k, c) (l, d). l = k \<and> index_at d j = index_at c (is ! j)) fs gs"
      using assms(2) by (rule list_all2_mono) (auto simp: selects_def that)
    then show ?thesis by (simp add: records_index_cong)
  qed
  moreover have "wf_col (CRecords gs)"
    using ne n each assms(1) list_all2_fst [OF assms(2)] by (auto simp: list_all_iff)
  ultimately show ?thesis using n by (simp add: selects_def)
qed

lemma picks_eq:
  "picks arm sel = map (\<lambda>j. (j, the (slot_of arm (sel ! j))))
     (filter (\<lambda>j. slot_of arm (sel ! j) \<noteq> None) [0..<length sel])"
proof -
  have "enumerate 0 sel = map (\<lambda>j. (j, sel ! j)) [0..<length sel]"
    by (rule nth_equalityI) (simp_all add: nth_enumerate_eq)
  then have "picks arm sel = map (the \<circ> (\<lambda>j. map_option (Pair j) (slot_of arm (sel ! j))))
      (filter (\<lambda>j. map_option (Pair j) (slot_of arm (sel ! j)) \<noteq> None) [0..<length sel])"
    by (simp add: picks_def List.map_filter_def filter_map comp_def)
  also have "\<dots> = map (\<lambda>j. (j, the (slot_of arm (sel ! j))))
      (filter (\<lambda>j. slot_of arm (sel ! j) \<noteq> None) [0..<length sel])"
    by (rule map_cong) auto
  finally show ?thesis .
qed

lemma slot_of_member:
  "sorted_wrt (<) rows \<Longrightarrow> slot_of (UnionArm rows vs) i \<noteq> None \<longleftrightarrow> i \<in> set rows"
  by (simp add: slot_of_def binary_search_None)

lemma slot_of_nth:
  "sorted_wrt (<) rows \<Longrightarrow> s < length rows \<Longrightarrow> slot_of (UnionArm rows vs) (rows ! s) = Some s"
  by (simp add: slot_of_def binary_search_nth)

lemma row_slots_eq: "row_slots arm = map (\<lambda>s. (arm_rows arm ! s, s)) [0..<arm_len arm]"
  unfolding row_slots_def arm_len_def by (rule nth_equalityI) (simp_all add: nth_enumerate_eq)

text \<open>What selection makes of one arm.\<close>

definition arm_selects :: "nat list \<Rightarrow> 'f UnionArm \<Rightarrow> 'f UnionArm \<Rightarrow> bool" where
  "arm_selects is arm arm' \<longleftrightarrow>
     arm_rows arm' = filter (\<lambda>j. is ! j \<in> set (arm_rows arm)) [0..<length is] \<and>
     selects (arm_values arm) (map (\<lambda>j. the (slot_of arm (is ! j))) (arm_rows arm')) (arm_values arm')"

lemma arm_selects_wf: "arm_selects is arm arm' \<Longrightarrow> wf_arm arm'"
  by (cases arm') (auto simp: arm_selects_def selects_def sorted_wrt_filter)

text \<open>How to show that arms partition their rows.\<close>

lemma partitionsI:
  assumes "distinct (map fst arms)"
    and "\<And>k a. (k, a) \<in> set arms \<Longrightarrow> distinct (arm_rows a)"
    and "\<And>k a l b i. (k, a) \<in> set arms \<Longrightarrow> (l, b) \<in> set arms \<Longrightarrow> i \<in> set (arm_rows a) \<Longrightarrow>
           i \<in> set (arm_rows b) \<Longrightarrow> k = l"
    and "(\<Union>(k, arm) \<in> set arms. set (arm_rows arm)) = {0..<n}"
  shows "partitions arms" "nrows (CUnion arms) = n"
proof -
  let ?rows = "concat (map (\<lambda>(k, arm). arm_rows arm) arms)"
  have "fst p = fst q \<or> set (arm_rows (snd p)) \<inter> set (arm_rows (snd q)) = {}"
    if "p \<in> set arms" "q \<in> set arms" for p q
    using assms(3) [of "fst p" "snd p" "fst q" "snd q"] that by auto
  then have d: "distinct ?rows"
    unfolding distinct_arms [OF assms(1)] using assms(2) by (metis prod.collapse)
  have st: "set ?rows = {0..<n}" using assms(4) by (simp add: split_def)
  have "nrows (CUnion arms) = length ?rows" by (simp only: nrows.simps sum_arm_len)
  also have "\<dots> = card (set ?rows)" using d by (simp only: distinct_card)
  finally show n: "nrows (CUnion arms) = n" unfolding st by simp
  show "partitions arms" unfolding partitions_iff n using d assms(4) by simp
qed

lemma selects_union:
  assumes wf: "wf_col (CUnion arms)" and lt: "\<And>i. i \<in> set is \<Longrightarrow> i < nrows (CUnion arms)"
    and rel: "list_all2 (\<lambda>(k, a) (l, b). l = k \<and> arm_selects is a b) arms arms'"
  shows "selects (CUnion arms) is (CUnion arms')"
proof -
  have keys: "map fst arms' = map fst arms" by (rule list_all2_fst [OF rel])
  have ok: "tags_ok arms" "partitions arms" using wf by simp_all
  have orig: "\<exists>a. (k, a) \<in> set arms \<and> arm_selects is a b" if "(k, b) \<in> set arms'" for k b
    by (rule list_all2_member(2) [OF rel that])
  have rows: "j \<in> set (arm_rows b) \<longleftrightarrow> j < length is \<and> is ! j \<in> set (arm_rows a)"
    if "arm_selects is a b" for a b j
    using that by (simp add: arm_selects_def)
  have d1: "distinct (map fst arms')" using tags_ok_distinct [OF ok(1)] keys by simp
  have d2: "distinct (arm_rows b)" if "(k, b) \<in> set arms'" for k b
    using orig [OF that] by (auto simp: arm_selects_def)
  have d3: "k = l" if b: "(k, b) \<in> set arms'" and c: "(l, c) \<in> set arms'"
    and "j \<in> set (arm_rows b)" "j \<in> set (arm_rows c)" for k b l c j
    using orig [OF b] orig [OF c] that(3,4) rows partition_unique [OF ok(2,1)] by metis
  have "\<exists>k b. (k, b) \<in> set arms' \<and> j \<in> set (arm_rows b)" if j: "j < length is" for j
  proof -
    have "is ! j < nrows (CUnion arms)" using lt j by simp
    from partition_covers [OF ok(2) this] obtain k r v s
      where a: "(k, UnionArm r v) \<in> set arms" "s < length r" "r ! s = is ! j" by blast
    then show ?thesis using list_all2_member(1) [OF rel a(1)] rows j nth_mem by fastforce
  qed
  moreover have "j < length is" if "(k, b) \<in> set arms'" "j \<in> set (arm_rows b)" for k b j
    using orig [OF that(1)] rows that(2) by blast
  ultimately have d4: "(\<Union>(k, arm) \<in> set arms'. set (arm_rows arm)) = {0..<length is}" by fastforce
  note part = partitionsI [OF d1 d2 d3 d4]
  have wf': "wf_col (CUnion arms')"
    using part(1) keys ok(1) orig arm_selects_wf by (fastforce simp: list_all_iff tags_ok_def)
  have "index_at (CUnion arms') j = index_at (CUnion arms) (is ! j)" if j: "j < length is" for j
  proof -
    have "is ! j < nrows (CUnion arms)" using lt j by simp
    from partition_covers [OF ok(2) this] obtain k r v s
      where a: "(k, UnionArm r v) \<in> set arms" "s < length r" "r ! s = is ! j" by blast
    from list_all2_member(1) [OF rel a(1)] obtain b where b: "(k, b) \<in> set arms'" "arm_selects is (UnionArm r v) b"
      by blast
    obtain r' v' where b': "b = UnionArm r' v'" by (cases b)
    have "j \<in> set r'" using rows [OF b(2)] j a b' by (metis arm_rows.simps nth_mem)
    then obtain t where t: "t < length r'" "r' ! t = j" by (metis in_set_conv_nth)
    have "index_at v' t = index_at v s"
      using b(2) t slot_of_nth [OF wf_payload(2) [OF wf a(1)] a(2), of v] a(3)
      by (simp add: b' arm_selects_def selects_def)
    with index_union [OF wf' b(1) [unfolded b'] t(1)] index_union [OF wf a(1,2)] t(2) a(3)
    show ?thesis by simp
  qed
  with wf' part(2) show ?thesis by (simp only: selects_def) simp
qed

lemma select_rows:
  "wf_col c \<Longrightarrow> (\<And>i. i \<in> set is \<Longrightarrow> i < nrows c) \<Longrightarrow>
     \<exists>d. select_indices dbg c is (length is) = Inr d \<and> selects c is d"
proof (induction c arbitrary: "is" rule: column_induct)
  case (leaf c)
  then show ?case by (cases c) (auto simp: map_res_nth selects_def)
next
  case (bindings ins outs)
  from bindings.prems have "wf_col ins" "wf_col outs" "\<And>i. i \<in> set is \<Longrightarrow> i < nrows ins"
    "\<And>i. i \<in> set is \<Longrightarrow> i < nrows outs" by auto
  with bindings.IH obtain a b where "select_indices dbg ins is (length is) = Inr a" "selects ins is a"
    "select_indices dbg outs is (length is) = Inr b" "selects outs is b" by metis
  then show ?case by (simp add: selects_def)
next
  case (records fs)
  let ?g = "\<lambda>(k, c). map_ok (Pair k) (select_indices dbg c is (length is))"
  let ?R = "\<lambda>(k, c) (l, d). l = k \<and> selects c is d"
  have "\<exists>y. ?g x = Inr y \<and> ?R x y" if x: "x \<in> set fs" for x
  proof -
    obtain k c where kc: "x = (k, c)" by force
    with x obtain d where "select_indices dbg c is (length is) = Inr d" "selects c is d"
      using records wf_field [OF records.prems(1), of k c] by metis
    then show ?thesis by (simp add: kc)
  qed
  from map_res_exists [of fs ?g ?R, OF this] obtain gs
    where "map_res ?g fs = Inr gs" "list_all2 ?R fs gs" by blast
  then show ?case using selects_records [OF records.prems(1)] by simp
next
  case (union arms)
  let ?g = "\<lambda>(k, arm). let ps = picks arm is in map_ok (Pair k) (gather dbg arm (map fst ps) (map snd ps))"
  let ?R = "\<lambda>(k, a) (l, b). l = k \<and> arm_selects is a b"
  have "\<exists>y. ?g x = Inr y \<and> ?R x y" if x: "x \<in> set arms" for x
  proof -
    obtain k r v where krv: "x = (k, UnionArm r v)" by (metis UnionArm.exhaust surj_pair)
    note wfp = wf_payload [OF union.prems(1) x [unfolded krv]]
    let ?rows = "filter (\<lambda>j. is ! j \<in> set r) [0..<length is]"
    let ?slots = "map (\<lambda>j. the (slot_of (UnionArm r v) (is ! j))) ?rows"
    have ps: "picks (UnionArm r v) is = map (\<lambda>j. (j, the (slot_of (UnionArm r v) (is ! j)))) ?rows"
      unfolding picks_eq slot_of_member [OF wfp(2)] ..
    have "i < nrows v" if "i \<in> set ?slots" for i
    proof -
      from that obtain j where "is ! j \<in> set r" "i = the (slot_of (UnionArm r v) (is ! j))" by auto
      then obtain s where "s < length r" "i = the (slot_of (UnionArm r v) (r ! s))" by (metis in_set_conv_nth)
      with wfp(3) slot_of_nth [OF wfp(2), of s v] show ?thesis by simp
    qed
    then obtain d where d: "select_indices dbg v ?slots (length ?slots) = Inr d" "selects v ?slots d"
      using union.IH x krv wfp(1) by metis
    have sel: "arm_selects is (UnionArm r v) (UnionArm ?rows d)" using d(2) by (simp add: arm_selects_def)
    have "gather dbg (UnionArm r v) ?rows ?slots = Inr (UnionArm ?rows d)"
      using d(1) UnionArm_new_wf [OF arm_selects_wf [OF sel]] by simp
    then have "?g x = Inr (k, UnionArm ?rows d)" by (simp add: krv ps Let_def comp_def)
    with sel show ?thesis by (simp add: krv)
  qed
  from map_res_exists [of arms ?g ?R, OF this] obtain arms'
    where a: "map_res ?g arms = Inr arms'" "list_all2 ?R arms arms'" by blast
  have "selects (CUnion arms) is (CUnion arms')"
    using selects_union [OF union.prems(1) _ a(2)] union.prems(2) by blast
  moreover from this have "debug_assert_union_invariants dbg arms' = Inr (CUnion arms')"
    by (intro union_invariants_wf) (simp add: selects_def)
  ultimately show ?case using a(1) by simp
qed

subsection \<open>The interface of a row store\<close>

text \<open>What the operators rely on of a container of rows: a row below the length can be read, and a
  selection of such rows is again a container, holding the selected rows in order.\<close>

locale row_store =
  fixes ok :: "'c \<Rightarrow> bool" and len :: "'c \<Rightarrow> nat" and at :: "'c \<Rightarrow> nat \<Rightarrow> 'v res"
    and sel :: "'c \<Rightarrow> nat list \<Rightarrow> 'c res"
  assumes at_ok: "ok c \<Longrightarrow> i < len c \<Longrightarrow> \<exists>v. at c i = Inr v"
    and sel_ok: "ok c \<Longrightarrow> (\<And>i. i \<in> set is \<Longrightarrow> i < len c) \<Longrightarrow>
      \<exists>d. sel c is = Inr d \<and> ok d \<and> len d = length is \<and> (\<forall>j < length is. at d j = at c (is ! j))"
begin

definition rows_of :: "'c \<Rightarrow> 'v list" where
  "rows_of c = map (\<lambda>i. projr (at c i)) [0..<len c]"

lemma length_rows_of [simp]: "length (rows_of c) = len c"
  by (simp add: rows_of_def)

lemma at_rows_of: "ok c \<Longrightarrow> i < len c \<Longrightarrow> at c i = Inr (rows_of c ! i)"
  using at_ok [of c i] by (auto simp: rows_of_def)

lemma rows_of_sel:
  assumes "ok c" "\<And>i. i \<in> set is \<Longrightarrow> i < len c"
  shows "\<exists>d. sel c is = Inr d \<and> ok d \<and> rows_of d = map ((!) (rows_of c)) is"
proof -
  from sel_ok [OF assms] obtain d where d: "sel c is = Inr d" "ok d" "len d = length is"
    "\<forall>j < length is. at d j = at c (is ! j)" by blast
  have "rows_of d = map ((!) (rows_of c)) is"
    by (rule nth_equalityI) (use d assms in \<open>simp_all add: rows_of_def\<close>)
  with d show ?thesis by blast
qed

text \<open>Selecting twice is selecting once.\<close>

lemma sel_sel:
  assumes "ok c" "\<And>i. i \<in> set is \<Longrightarrow> i < len c" "\<And>j. j \<in> set js \<Longrightarrow> j < length is"
  shows "\<exists>d e. sel c is = Inr d \<and> sel d js = Inr e \<and> rows_of e = map ((!) (rows_of c)) (map ((!) is) js)"
proof -
  from rows_of_sel [OF assms(1,2)] obtain d where d: "sel c is = Inr d" "ok d"
    "rows_of d = map ((!) (rows_of c)) is" by blast
  then have "len d = length is" by (metis length_map length_rows_of)
  with assms(3) d(2) rows_of_sel [of d js] obtain e where "sel d js = Inr e"
    "rows_of e = map ((!) (rows_of d)) js" by auto
  with d assms(3) show ?thesis by auto
qed

end

interpretation columns: row_store wf_col nrows index_at "\<lambda>c is. select_indices dbg c is (length is)"
  for dbg
proof
  show "wf_col c \<Longrightarrow> i < nrows c \<Longrightarrow> \<exists>v. index_at c i = Inr v" for c :: "'f ColumnValue" and i
    by (rule index_at_total)
next
  fix c :: "'f ColumnValue" and "is" :: "nat list"
  assume "wf_col c" "\<And>i. i \<in> set is \<Longrightarrow> i < nrows c"
  from select_rows [OF this] show "\<exists>d. select_indices dbg c is (length is) = Inr d \<and> wf_col d \<and>
      nrows d = length is \<and> (\<forall>j < length is. index_at d j = index_at c (is ! j))"
    by (simp add: selects_def)
qed

subsection \<open>Properties\<close>

text \<open>C36. Every row of a well-formed column can be read: the length is defined, debug assertions hold,
  and \<open>index_at\<close> returns a value at every position below it, through records, function bindings and
  the arms of unions at any depth.\<close>
theorem column_rows_readable:
  assumes "wf_col c"
  shows "\<exists>n. col_len dbg c = Inr n \<and> n = nrows c \<and> (\<forall>i < n. \<exists>v. index_at c i = Inr v)"
  using col_len_wf [OF assms] index_at_total [OF assms] by blast

text \<open>A column of three rows with two arms, used as the example below.\<close>

definition sample_union :: "unit ColumnValue" where
  "sample_union = CUnion
     [(Index 0, UnionArm [0, 2] (CInts [5, 7])),
      (Index 1, UnionArm [1] (CRecords [(lit ''x'', CBools [True])]))]"

lemma sample_union_wf: "wf_col sample_union" "nrows sample_union = 3"
  by code_simp+

theorem column_rows_readable_witness:
  "\<exists>n. col_len True sample_union = Inr n \<and> n = nrows sample_union \<and>
     (\<forall>i < n. \<exists>v. index_at sample_union i = Inr v)"
  by (rule column_rows_readable [OF sample_union_wf(1)])

text \<open>C37. Selecting rows of a well-formed column, in any order and with repetitions, returns a
  well-formed column whose row \<open>j\<close> is the row \<open>is ! j\<close> of the original. The rebuilt arms of a union
  again partition the rows, so no assertion fails.\<close>
theorem select_indices_rows:
  assumes "wf_col c" "\<forall>i \<in> set is. i < nrows c"
  shows "\<exists>d. select_indices dbg c is (length is) = Inr d \<and> wf_col d \<and> nrows d = length is \<and>
    (\<forall>j < length is. index_at d j = index_at c (is ! j))"
  using columns.sel_ok [OF assms(1)] assms(2) by blast

theorem select_indices_rows_witness:
  "\<exists>d. select_indices True sample_union [2, 1, 2] (length [2, 1, 2 :: nat]) = Inr d \<and> wf_col d \<and>
    nrows d = length [2, 1, 2 :: nat] \<and>
    (\<forall>j < length [2, 1, 2 :: nat]. index_at d j = index_at sample_union ([2, 1, 2] ! j))"
  by (rule select_indices_rows) (simp_all add: sample_union_wf)

end
