(* ===== verification/Column_Append.thy ===== *)
theory Column_Append
  imports Column_Rows
begin

section \<open>Concatenating columns\<close>

text \<open>
  \<open>append\<close>, \<open>extend_from\<close> and \<open>clear\<close> of \<open>src/interpreter/types/column_value.rs\<close>, read through
  \<open>index_at\<close>: what rows the result has, including for unions whose arm sets differ.
\<close>

subsection \<open>Shapes that can be concatenated\<close>

text \<open>Records need the same fields. Unions may have different tags; the arms they share need payloads
  of one shape.\<close>

function same_shape :: "'f ColumnValue \<Rightarrow> 'f ColumnValue \<Rightarrow> bool"
  and same_fields :: "(utext \<times> 'f ColumnValue) list \<Rightarrow> (utext \<times> 'f ColumnValue) list \<Rightarrow> bool"
  and same_arms :: "(FieldKey \<times> 'f UnionArm) list \<Rightarrow> (FieldKey \<times> 'f UnionArm) list \<Rightarrow> bool" where
  "same_shape a b =
     (case (a, b) of
        (CUnits _, CUnits _) \<Rightarrow> True
      | (CInts _, CInts _) \<Rightarrow> True
      | (CUInts _, CUInts _) \<Rightarrow> True
      | (CBools _, CBools _) \<Rightarrow> True
      | (CStrings _, CStrings _) \<Rightarrow> True
      | (CVariants _, CVariants _) \<Rightarrow> True
      | (CFunctionBindings si so, CFunctionBindings ti to) \<Rightarrow> same_shape si ti \<and> same_shape so to
      | (CRecords s, CRecords t) \<Rightarrow> same_fields s t
      | (CUnion sa, CUnion ta) \<Rightarrow> same_arms sa ta
      | _ \<Rightarrow> False)"
| "same_fields s [] = (s = [])"
| "same_fields s ((l, d) # t) =
     (case s of [] \<Rightarrow> False | (k, c) # s \<Rightarrow> k = l \<and> same_shape c d \<and> same_fields s t)"
| "same_arms sa [] = True"
| "same_arms sa ((k, UnionArm r v) # ta) =
     ((case map_of sa k of None \<Rightarrow> True | Some arm \<Rightarrow> same_shape (arm_values arm) v) \<and> same_arms sa ta)"
  by pat_completeness auto
termination
  by (relation "measure (\<lambda>x. case x of
      Inl (_, c) \<Rightarrow> size c
    | Inr (Inl (_, fs)) \<Rightarrow> size_list (size_prod (\<lambda>_. 0) size) fs
    | Inr (Inr (_, arms)) \<Rightarrow> size_list (size_prod (\<lambda>_. 0) size) arms)") auto

declare same_shape.simps [simp del]

lemma same_fields_iff:
  "same_fields s t \<longleftrightarrow>
     length s = length t \<and> (\<forall>i < length t. fst (s ! i) = fst (t ! i) \<and> same_shape (snd (s ! i)) (snd (t ! i)))"
proof (induction t arbitrary: s)
  case (Cons y t)
  obtain l d where y: "y = (l, d)" by force
  show ?case
  proof (cases s)
    case (Cons x s')
    then show ?thesis using Cons.IH [of s'] by (cases x) (auto simp: y less_Suc_eq_0_disj)
  qed (simp add: y)
qed auto

lemma same_arms_iff:
  "same_arms sa ta \<longleftrightarrow>
     (\<forall>k r v arm. (k, UnionArm r v) \<in> set ta \<longrightarrow> map_of sa k = Some arm \<longrightarrow> same_shape (arm_values arm) v)"
proof (induction ta)
  case (Cons y ta)
  obtain k r v where "y = (k, UnionArm r v)" by (metis UnionArm.exhaust surj_pair)
  with Cons show ?case by (auto split: option.splits)
qed simp

subsection \<open>Empty columns\<close>

lemma empty_like_wf: "wf_col c \<Longrightarrow> wf_col (empty_like c) \<and> nrows (empty_like c) = 0"
proof (induction c rule: column_induct)
  case (leaf c)
  then show ?case by (cases c) auto
next
  case (records fs)
  have e: "wf_col (empty_like d) \<and> nrows (empty_like d) = 0" if "(k, d) \<in> set fs" for k d
    using records.IH that wf_field [OF records.prems that] by blast
  obtain k d fs' where fs: "fs = (k, d) # fs'" using records.prems by (cases fs) auto
  have n: "nrows (empty_like (CRecords fs)) = 0" using e [of k d] fs by simp
  have keys: "map fst (map (\<lambda>(k, c). (k, empty_like c)) fs) = map fst fs" by auto
  have "list_all (\<lambda>(k, c). wf_col c \<and> nrows c = 0) (map (\<lambda>(k, c). (k, empty_like c)) fs)"
    unfolding list_all_iff using e by fastforce
  then show ?case using n keys records.prems by (simp del: map_map)
next
  case (union arms)
  have e: "wf_arm (arm_empty_like arm) \<and> arm_rows (arm_empty_like arm) = []" if "(k, arm) \<in> set arms" for k arm
    using union that wf_payload [OF union.prems] by (cases arm) fastforce
  then have rows: "concat (map (\<lambda>(k, arm). arm_rows arm) (map (\<lambda>(k, arm). (k, arm_empty_like arm)) arms)) = []"
    by auto
  let ?arms = "map (\<lambda>(k, arm). (k, arm_empty_like arm)) arms"
  have "map fst ?arms = map fst arms" by auto
  then have "tags_ok ?arms" using union.prems by (simp add: tags_ok_def del: map_map)
  moreover have "partitions ?arms" unfolding partitions_def Let_def rows by simp
  moreover have "nrows (CUnion ?arms) = 0" by (simp only: nrows.simps sum_arm_len rows) simp
  moreover have "list_all (\<lambda>(k, arm). wf_arm arm) ?arms" unfolding list_all_iff using e by fastforce
  ultimately show ?case by (simp del: map_map nrows.simps)
qed auto

lemma empty_like_shape: "wf_col c \<Longrightarrow> same_shape (empty_like c) c"
proof (induction c rule: column_induct)
  case (leaf c)
  then show ?case by (cases c) (auto simp: same_shape.simps)
next
  case (records fs)
  have "same_shape (empty_like d) d" if "(k, d) \<in> set fs" for k d
    using records.IH that wf_field [OF records.prems that] by blast
  then have "same_shape (empty_like (snd (fs ! i))) (snd (fs ! i))" if "i < length fs" for i
    using that by (metis nth_mem prod.collapse)
  then show ?case by (simp add: same_shape.simps same_fields_iff split_def)
next
  case (union arms)
  have "same_shape (empty_like v) v" if "(k, UnionArm r v) \<in> set arms" for k r v
    using union.IH that wf_payload [OF union.prems that] by blast
  moreover have "arm = arm_empty_like (UnionArm r v)"
    if "(k, UnionArm r v) \<in> set arms" "map_of (map (\<lambda>(k, arm). (k, arm_empty_like arm)) arms) k = Some arm"
    for k r v arm
  proof -
    have "map_of arms k = Some (UnionArm r v)"
      using union.prems that(1) tags_ok_distinct [of arms] by (intro map_of_is_SomeI) auto
    with that(2) show ?thesis by (simp add: map_of_map)
  qed
  ultimately show ?case by (fastforce simp: same_shape.simps same_arms_iff)
qed (auto simp: same_shape.simps)

lemma clear_col_empty_like: "clear_col c = empty_like c"
  by (induction c rule: clear_col.induct) auto

subsection \<open>Concatenation\<close>

definition appends :: "'f ColumnValue \<Rightarrow> 'f ColumnValue \<Rightarrow> 'f ColumnValue \<Rightarrow> bool" where
  "appends a b c \<longleftrightarrow>
     wf_col c \<and> nrows c = nrows a + nrows b \<and>
     (\<forall>i < nrows a. index_at c i = index_at a i) \<and>
     (\<forall>i < nrows b. index_at c (nrows a + i) = index_at b i)"

lemma update_middle:
  "k \<notin> fst ` set xs \<Longrightarrow> AList.update k c' (xs @ (k, c) # ys) = xs @ (k, c') # ys"
  by (induction xs) auto

text \<open>The fields are written one after the other; \<open>done\<close> are those already written.\<close>

lemma append_fields_spec:
  assumes "same_fields s t" "distinct (map fst (xs @ s))"
    and "\<And>i. i < length t \<Longrightarrow> \<exists>e. append_col dbg (snd (s ! i)) (snd (t ! i)) = Inr e \<and> R (snd (s ! i)) (snd (t ! i)) e"
  shows "\<exists>u. append_fields dbg (xs @ s) t = Inr (xs @ u) \<and> length u = length s \<and>
    (\<forall>i < length s. fst (u ! i) = fst (s ! i) \<and> R (snd (s ! i)) (snd (t ! i)) (snd (u ! i)))"
  using assms
proof (induction t arbitrary: s xs)
  case (Cons y t)
  obtain l d where y: "y = (l, d)" by force
  from Cons.prems(1) obtain c s' where s: "s = (l, c) # s'" and sf: "same_fields s' t"
    by (cases s) (auto simp: y)
  from Cons.prems(3) [of 0] obtain e where e: "append_col dbg c d = Inr e" "R c d e"
    by (auto simp: s y)
  have fresh: "l \<notin> fst ` set xs" using Cons.prems(2) by (auto simp: s)
  have "map_of (xs @ (l, c) # s') l = Some c"
    using fresh by (simp add: map_add_def map_of_eq_None_iff [THEN iffD2])
  then have step: "append_fields dbg (xs @ s) (y # t) = append_fields dbg ((xs @ [(l, e)]) @ s') t"
    by (simp add: s y e update_middle fresh)
  have "\<exists>u. append_fields dbg ((xs @ [(l, e)]) @ s') t = Inr ((xs @ [(l, e)]) @ u) \<and> length u = length s' \<and>
      (\<forall>i < length s'. fst (u ! i) = fst (s' ! i) \<and> R (snd (s' ! i)) (snd (t ! i)) (snd (u ! i)))"
  proof (rule Cons.IH [OF sf])
    show "distinct (map fst ((xs @ [(l, e)]) @ s'))" using Cons.prems(2) by (simp add: s)
    show "\<exists>e. append_col dbg (snd (s' ! i)) (snd (t ! i)) = Inr e \<and> R (snd (s' ! i)) (snd (t ! i)) e"
      if "i < length t" for i
      using Cons.prems(3) [of "Suc i"] that by (simp add: s y)
  qed
  then obtain u where u: "append_fields dbg ((xs @ [(l, e)]) @ s') t = Inr ((xs @ [(l, e)]) @ u)"
    "length u = length s'"
    "\<forall>i < length s'. fst (u ! i) = fst (s' ! i) \<and> R (snd (s' ! i)) (snd (t ! i)) (snd (u ! i))" by blast
  show ?case
    by (rule exI [of _ "(l, e) # u"])
      (use step u e in \<open>auto simp: s y nth_Cons split: nat.splits\<close>)
qed auto

lemma keys_update: "i < length m \<Longrightarrow> fst (m ! i) = k \<Longrightarrow> map fst (m[i := (k, v)]) = map fst m"
  by (metis fst_conv list_update_id map_update nth_map)

lemma map_of_update_at:
  "distinct (map fst m) \<Longrightarrow> i < length m \<Longrightarrow> fst (m ! i) = k \<Longrightarrow> map_of (m[i := (k, v)]) = (map_of m)(k \<mapsto> v)"
proof (induction m arbitrary: i)
  case (Cons x m)
  show ?case
  proof (cases i)
    case 0
    with Cons.prems show ?thesis by (cases x) (simp add: fun_eq_iff)
  next
    case (Suc j)
    then have "k \<in> fst ` set m" using Cons.prems by auto
    then have "fst x \<noteq> k" using Cons.prems(1) by (metis distinct.simps(2) list.set_map list.simps(9))
    then show ?thesis using Suc Cons by (cases x) (auto simp: fun_upd_twist)
  qed
qed simp

text \<open>The arm a tag starts from, and what the loop over the other column's arms leaves.\<close>

definition base_arm :: "'f UnionArm option \<Rightarrow> 'f UnionArm \<Rightarrow> 'f UnionArm" where
  "base_arm x other = (case x of None \<Rightarrow> arm_empty_like other | Some arm \<Rightarrow> arm)"

lemma append_arms_spec:
  assumes "tags_ok sa" "distinct (map fst ta)"
    and "\<And>k other. (k, other) \<in> set ta \<Longrightarrow>
      extend_shifted dbg (base_arm (map_of sa k) other) other off = Inr (g k)"
  shows "\<exists>sb. append_arms dbg off sa ta = Inr sb \<and> tags_ok sb \<and>
    map_of sb = (\<lambda>k. if k \<in> fst ` set ta then Some (g k) else map_of sa k)"
  using assms
proof (induction ta arbitrary: sa)
  case (Cons y ta)
  obtain tag other where y: "y = (tag, other)" by force
  obtain i m where im: "get_or_insert_with tag (arm_empty_like other) sa = (i, m)" by force
  note spec = get_or_insert_spec [OF Cons.prems(1) im]
  have m: "map_of m k = (if k = tag \<and> map_of sa tag = None then Some (arm_empty_like other) else map_of sa k)" for k
  proof -
    have "tag_get k m = (if k = tag \<and> tag_get tag sa = None then Some (arm_empty_like other) else tag_get k sa)"
      using spec by blast
    then show ?thesis
      unfolding tag_get_map_of [OF Cons.prems(1)] tag_get_map_of [OF conjunct1 [OF spec]] .
  qed
  have "map_of m tag = Some (snd (m ! i))"
    using spec tags_ok_distinct [of m] by (metis map_of_is_SomeI nth_mem prod.collapse)
  then have base: "snd (m ! i) = base_arm (map_of sa tag) other"
    using m [of tag] by (auto simp: base_arm_def split: option.splits if_splits)
  define sb where "sb = m[i := (tag, g tag)]"
  have sb: "map_of sb = (map_of m)(tag \<mapsto> g tag)"
    unfolding sb_def using spec tags_ok_distinct [of m] by (intro map_of_update_at) auto
  have "map fst sb = map fst m" using spec by (simp add: sb_def keys_update)
  then have ok: "tags_ok sb" using spec by (simp add: tags_ok_def)
  have sbk: "map_of sb k = map_of sa k" if "k \<noteq> tag" for k using that by (simp add: sb m)
  have "extend_shifted dbg (base_arm (map_of sa tag) other) other off = Inr (g tag)"
    using Cons.prems(3) [of tag other] by (simp add: y)
  then have step: "append_arms dbg off sa (y # ta) = append_arms dbg off sb ta"
    using spec by (simp add: y im base sb_def)
  have tag: "tag \<notin> fst ` set ta" using Cons.prems(2) by (simp add: y)
  have "\<exists>sc. append_arms dbg off sb ta = Inr sc \<and> tags_ok sc \<and>
    map_of sc = (\<lambda>k. if k \<in> fst ` set ta then Some (g k) else map_of sb k)"
  proof (rule Cons.IH [OF ok])
    show "distinct (map fst ta)" using Cons.prems(2) by simp
    show "extend_shifted dbg (base_arm (map_of sb k) t) t off = Inr (g k)" if "(k, t) \<in> set ta" for k t
    proof -
      have "k \<noteq> tag" using tag that by force
      then show ?thesis using sbk [of k] Cons.prems(3) [of k t] that by simp
    qed
  qed
  then obtain sc where sc: "append_arms dbg off sb ta = Inr sc" "tags_ok sc"
    "map_of sc = (\<lambda>k. if k \<in> fst ` set ta then Some (g k) else map_of sb k)" by blast
  have "map_of sc = (\<lambda>k. if k \<in> fst ` set (y # ta) then Some (g k) else map_of sa k)"
    using sc(3) by (auto simp: fun_eq_iff y sb m)
  with sc step show ?case by auto
qed auto

text \<open>What the merged arm of a tag is: the rows of both columns, those of the second shifted, and the
  concatenated payloads.\<close>

definition merged :: "nat \<Rightarrow> 'f UnionArm option \<Rightarrow> 'f UnionArm \<Rightarrow> 'f UnionArm \<Rightarrow> bool" where
  "merged off x other arm \<longleftrightarrow>
     arm_rows arm = arm_rows (base_arm x other) @ map (\<lambda>r. r + off) (arm_rows other) \<and>
     appends (arm_values (base_arm x other)) (arm_values other) (arm_values arm)"

definition union_merge ::
  "(FieldKey \<times> 'f UnionArm) list \<Rightarrow> (FieldKey \<times> 'f UnionArm) list \<Rightarrow> (FieldKey \<times> 'f UnionArm) list \<Rightarrow> bool" where
  "union_merge sa ta sb \<longleftrightarrow>
     wf_col (CUnion sa) \<and> wf_col (CUnion ta) \<and> tags_ok sb \<and>
     (\<forall>k. case map_of ta k of
        None \<Rightarrow> map_of sb k = map_of sa k
      | Some other \<Rightarrow> \<exists>arm. map_of sb k = Some arm \<and> merged (nrows (CUnion sa)) (map_of sa k) other arm)"

lemma member_map_of: "tags_ok arms \<Longrightarrow> (k, arm) \<in> set arms \<longleftrightarrow> map_of arms k = Some arm"
  by (simp add: tags_ok_distinct)

lemma base_arm_rows:
  "j \<in> set (arm_rows (base_arm x other)) \<longleftrightarrow> (\<exists>a. x = Some a \<and> j \<in> set (arm_rows a))"
  by (cases other) (auto simp: base_arm_def split: option.splits)

lemma base_arm_wf:
  assumes "wf_arm other" "\<And>a. x = Some a \<Longrightarrow> wf_arm a"
  shows "wf_arm (base_arm x other)"
  using assms empty_like_wf by (cases other; cases x) (auto simp: base_arm_def)

lemma wf_arm_parts:
  "wf_arm arm \<longleftrightarrow> sorted_wrt (<) (arm_rows arm) \<and> length (arm_rows arm) = nrows (arm_values arm) \<and> wf_col (arm_values arm)"
  by (cases arm) simp

lemma wf_union_member: "wf_col (CUnion arms) \<Longrightarrow> map_of arms k = Some arm \<Longrightarrow> wf_arm arm"
  by (auto simp: list_all_iff dest: map_of_SomeD)

lemma merge_at:
  assumes "union_merge sa ta sb"
  shows "case map_of ta k of
      None \<Rightarrow> map_of sb k = map_of sa k
    | Some other \<Rightarrow> \<exists>arm. map_of sb k = Some arm \<and> merged (nrows (CUnion sa)) (map_of sa k) other arm"
  using assms unfolding union_merge_def by blast

lemma merge_same: "union_merge sa ta sb \<Longrightarrow> map_of ta k = None \<Longrightarrow> map_of sb k = map_of sa k"
  using merge_at [of sa ta sb k] by simp

lemma merge_merged:
  "union_merge sa ta sb \<Longrightarrow> map_of ta k = Some other \<Longrightarrow> map_of sb k = Some arm \<Longrightarrow>
     merged (nrows (CUnion sa)) (map_of sa k) other arm"
  using merge_at [of sa ta sb k] by simp

lemma merge_present:
  "union_merge sa ta sb \<Longrightarrow> map_of sa k \<noteq> None \<or> map_of ta k \<noteq> None \<Longrightarrow> \<exists>arm. map_of sb k = Some arm"
  using merge_at [of sa ta sb k] by (auto split: option.splits)

lemma merge_rows:
  assumes "union_merge sa ta sb" "map_of sb k = Some arm"
  shows "j \<in> set (arm_rows arm) \<longleftrightarrow>
    (\<exists>a. map_of sa k = Some a \<and> j \<in> set (arm_rows a)) \<or>
    (\<exists>t r. map_of ta k = Some t \<and> r \<in> set (arm_rows t) \<and> j = r + nrows (CUnion sa))"
proof (cases "map_of ta k")
  case None
  then show ?thesis using assms(2) merge_same [OF assms(1) None] by simp
next
  case (Some other)
  show ?thesis
    using Some merge_merged [OF assms(1) Some assms(2)] unfolding merged_def
    by (auto simp: base_arm_rows simp del: nrows.simps)
qed

lemma merge_arm_wf:
  assumes um: "union_merge sa ta sb" and arm: "map_of sb k = Some arm"
  shows "wf_arm arm"
proof (cases "map_of ta k")
  case None
  then show ?thesis using merge_same [OF um None] arm wf_union_member um by (metis union_merge_def)
next
  case (Some other)
  let ?off = "nrows (CUnion sa)" and ?base = "base_arm (map_of sa k) other"
  note m = merge_merged [OF um Some arm, unfolded merged_def]
  have wfs: "wf_col (CUnion sa)" "wf_col (CUnion ta)" using um by (simp_all add: union_merge_def)
  have wo: "wf_arm other" by (rule wf_union_member [OF wfs(2) Some])
  have wb: "wf_arm ?base" using base_arm_wf [OF wo] wf_union_member [OF wfs(1)] by blast
  have below: "j < ?off" if "j \<in> set (arm_rows ?base)" for j
    using that wfs(1) rows_below [of sa k] by (auto simp: base_arm_rows dest: map_of_SomeD simp del: nrows.simps)
  have "sorted_wrt (<) (arm_rows ?base @ map (\<lambda>r. r + ?off) (arm_rows other))"
    using wb wo below unfolding wf_arm_parts
    by (auto simp: sorted_wrt_append sorted_wrt_map trans_less_add2 simp del: nrows.simps)
  then show ?thesis using m wb wo unfolding wf_arm_parts appends_def by simp
qed

lemma merge_partitions:
  assumes um: "union_merge sa ta sb"
  shows "partitions sb" "nrows (CUnion sb) = nrows (CUnion sa) + nrows (CUnion ta)"
proof -
  let ?off = "nrows (CUnion sa)"
  have oks: "tags_ok sb" "tags_ok sa" "tags_ok ta" "partitions sa" "partitions ta"
    using um by (simp_all add: union_merge_def)
  note mem = member_map_of [OF oks(1)] member_map_of [OF oks(2)] member_map_of [OF oks(3)]
  have below: "j < ?off" if "map_of sa k = Some a" "j \<in> set (arm_rows a)" for k a j
    using rows_below [OF oks(4)] mem that by blast
  have d1: "distinct (map fst sb)" by (rule tags_ok_distinct [OF oks(1)])
  have d2: "distinct (arm_rows arm)" if "(k, arm) \<in> set sb" for k arm
    using merge_arm_wf [OF um] that unfolding mem wf_arm_parts by (metis strict_sorted_iff)
  have d3: "k = l" if b: "(k, b) \<in> set sb" and c: "(l, c) \<in> set sb"
    and j: "j \<in> set (arm_rows b)" "j \<in> set (arm_rows c)" for k b l c j
  proof (cases "j < ?off")
    case True
    then obtain a a' where "map_of sa k = Some a" "j \<in> set (arm_rows a)" "map_of sa l = Some a'" "j \<in> set (arm_rows a')"
      using merge_rows [OF um, of k b j] merge_rows [OF um, of l c j] b c j unfolding mem by fastforce
    then show ?thesis using partition_unique [OF oks(4,2)] mem by blast
  next
    case False
    then obtain t t' r where "map_of ta k = Some t" "r \<in> set (arm_rows t)" "map_of ta l = Some t'" "r \<in> set (arm_rows t')"
      using merge_rows [OF um, of k b j] merge_rows [OF um, of l c j] b c j below unfolding mem by fastforce
    then show ?thesis using partition_unique [OF oks(5,3)] mem by blast
  qed
  have d4: "(\<Union>(k, arm) \<in> set sb. set (arm_rows arm)) = {0..<?off + nrows (CUnion ta)}"
  proof (intro set_eqI iffI)
    fix j assume "j \<in> (\<Union>(k, arm) \<in> set sb. set (arm_rows arm))"
    then obtain k arm where "map_of sb k = Some arm" "j \<in> set (arm_rows arm)" using mem by auto
    then show "j \<in> {0..<?off + nrows (CUnion ta)}"
      using merge_rows [OF um] below rows_below [OF oks(5)] mem(3) by (fastforce simp del: nrows.simps)
  next
    fix j assume j: "j \<in> {0..<?off + nrows (CUnion ta)}"
    have "\<exists>k arm. map_of sb k = Some arm \<and> j \<in> set (arm_rows arm)"
    proof (cases "j < ?off")
      case True
      from partition_covers [OF oks(4) this] obtain k a where "map_of sa k = Some a" "j \<in> set (arm_rows a)"
        unfolding mem by (metis arm_rows.simps nth_mem)
      then show ?thesis using merge_present [OF um, of k] merge_rows [OF um] by blast
    next
      case False
      then have "j - ?off < nrows (CUnion ta)" using j by (simp del: nrows.simps)
      from partition_covers [OF oks(5) this] obtain k t where "map_of ta k = Some t" "j - ?off \<in> set (arm_rows t)"
        unfolding mem by (metis arm_rows.simps nth_mem)
      moreover have "j = (j - ?off) + ?off" using False by (simp del: nrows.simps)
      ultimately show ?thesis using merge_present [OF um, of k] merge_rows [OF um] by blast
    qed
    then show "j \<in> (\<Union>(k, arm) \<in> set sb. set (arm_rows arm))" using mem by fastforce
  qed
  show "partitions sb" "nrows (CUnion sb) = nrows (CUnion sa) + nrows (CUnion ta)"
    by (rule partitionsI [OF d1 d2 d3 d4]; assumption)+
qed

lemma merge_appends:
  assumes um: "union_merge sa ta sb"
  shows "appends (CUnion sa) (CUnion ta) (CUnion sb)"
proof -
  let ?off = "nrows (CUnion sa)"
  have wfs: "wf_col (CUnion sa)" "wf_col (CUnion ta)" and oks: "tags_ok sb" "tags_ok sa" "tags_ok ta" "partitions sa" "partitions ta"
    using um by (simp_all add: union_merge_def)
  note mem = member_map_of [OF oks(1)] member_map_of [OF oks(2)] member_map_of [OF oks(3)]
  have wf: "wf_col (CUnion sb)"
    using merge_partitions(1) [OF um] oks(1) merge_arm_wf [OF um] mem(1) by (fastforce simp: list_all_iff)
  have left: "index_at (CUnion sb) i = index_at (CUnion sa) i" if "i < ?off" for i
  proof -
    from partition_covers [OF oks(4) that] obtain k r v s
      where a: "(k, UnionArm r v) \<in> set sa" "s < length r" "r ! s = i" by blast
    from merge_present [OF um, of k] a(1) obtain arm where arm: "map_of sb k = Some arm" unfolding mem by auto
    obtain r' v' where rv: "arm = UnionArm r' v'" by (cases arm)
    have "s < length r' \<and> r' ! s = i \<and> index_at v' s = index_at v s"
    proof (cases "map_of ta k")
      case None
      then show ?thesis using merge_same [OF um None] arm a rv unfolding mem by simp
    next
      case (Some other)
      have "map_of sa k = Some (UnionArm r v)" using a(1) unfolding mem .
      then have "r' = r @ map (\<lambda>x. x + ?off) (arm_rows other)" "appends v (arm_values other) v'"
        using merge_merged [OF um Some arm] by (simp_all add: merged_def base_arm_def rv)
      then show ?thesis using a wf_payload(3) [OF wfs(1) a(1)] by (simp add: appends_def nth_append)
    qed
    then show ?thesis
      using index_union [OF wf, of k r' v' s] index_union [OF wfs(1) a(1,2)] arm a(3) unfolding mem rv by simp
  qed
  have right: "index_at (CUnion sb) (?off + i) = index_at (CUnion ta) i" if "i < nrows (CUnion ta)" for i
  proof -
    from partition_covers [OF oks(5) that] obtain k r v s
      where t: "(k, UnionArm r v) \<in> set ta" "s < length r" "r ! s = i" by blast
    then have tk: "map_of ta k = Some (UnionArm r v)" unfolding mem by simp
    from merge_present [OF um, of k] tk obtain arm where arm: "map_of sb k = Some arm" by auto
    obtain r' v' where rv: "arm = UnionArm r' v'" by (cases arm)
    let ?base = "base_arm (map_of sa k) (UnionArm r v)"
    have m: "r' = arm_rows ?base @ map (\<lambda>x. x + ?off) r" "appends (arm_values ?base) v v'"
      using merge_merged [OF um tk arm] by (simp_all add: merged_def rv)
    have "wf_arm ?base"
      using base_arm_wf wf_union_member [OF wfs(1)] wf_union_member [OF wfs(2) tk] by blast
    then have n: "nrows (arm_values ?base) = length (arm_rows ?base)" unfolding wf_arm_parts by simp
    let ?p = "length (arm_rows ?base) + s"
    have "?p < length r'" "r' ! ?p = ?off + i" using m(1) t by (simp_all add: nth_append)
    moreover have "index_at v' ?p = index_at v s"
      using m(2) n t wf_payload(3) [OF wfs(2) t(1)] by (simp add: appends_def)
    ultimately show ?thesis
      using index_union [OF wf, of k r' v' ?p] index_union [OF wfs(2) t(1,2)] arm t(3) unfolding mem rv
      by (simp del: nrows.simps)
  qed
  show ?thesis unfolding appends_def using wf merge_partitions(2) [OF um] left right by blast
qed

lemma appends_records:
  assumes wf: "wf_col (CRecords s)" "wf_col (CRecords t)" and len: "length s = length t" "length u = length s"
    and each: "\<And>i. i < length s \<Longrightarrow> fst (u ! i) = fst (s ! i) \<and> fst (s ! i) = fst (t ! i) \<and>
      appends (snd (s ! i)) (snd (t ! i)) (snd (u ! i))"
  shows "appends (CRecords s) (CRecords t) (CRecords u)"
proof -
  let ?n = "nrows (CRecords s)" and ?m = "nrows (CRecords t)"
  have st: "nrows (snd (s ! i)) = ?n" "nrows (snd (t ! i)) = ?m" if "i < length s" for i
    using wf_field(2) [OF wf(1), of "fst (s ! i)" "snd (s ! i)"] wf_field(2) [OF wf(2), of "fst (t ! i)" "snd (t ! i)"] that len
    by simp_all
  have u: "wf_col (snd (u ! i))" "nrows (snd (u ! i)) = ?n + ?m" if "i < length s" for i
    using each [OF that] st [OF that] by (simp_all add: appends_def)
  have ne: "u \<noteq> []" using wf(1) len by auto
  have nu: "nrows (CRecords u) = ?n + ?m" using u(2) [of 0] ne len by (cases u; cases t) auto
  have keys: "map fst u = map fst s" by (rule nth_equalityI) (use each len in auto)
  have wfu: "wf_col (CRecords u)"
    using ne keys wf(1) u nu len by (auto simp: list_all_length split_def simp del: nrows.simps)
  have idx: "index_at (CRecords u) j = index_at (CRecords w) i"
    if "length w = length u" "\<And>p. p < length u \<Longrightarrow> fst (w ! p) = fst (u ! p) \<and> index_at (snd (u ! p)) j = index_at (snd (w ! p)) i"
    for w i j
  proof -
    have "list_all2 (\<lambda>(k, c) (l, d). l = k \<and> index_at d j = index_at c i) w u"
      using that by (auto simp: list_all2_conv_all_nth split_def)
    then show ?thesis by (simp add: records_index_cong)
  qed
  have "index_at (CRecords u) i = index_at (CRecords s) i" if "i < ?n" for i
    by (rule idx) (use each st that len in \<open>auto simp: appends_def simp del: nrows.simps\<close>)
  moreover have "index_at (CRecords u) (?n + i) = index_at (CRecords t) i" if "i < ?m" for i
  proof (rule idx)
    fix p assume p: "p < length u"
    then have "appends (snd (s ! p)) (snd (t ! p)) (snd (u ! p))" using each len by simp
    then show "fst (t ! p) = fst (u ! p) \<and> index_at (snd (u ! p)) (?n + i) = index_at (snd (t ! p)) i"
      using each [of p] st [of p] that p len unfolding appends_def by metis
  qed (simp add: len)
  ultimately show ?thesis unfolding appends_def using wfu nu by blast
qed

text \<open>The arms of the second column can be merged one by one.\<close>

lemma append_union:
  assumes wf: "wf_col (CUnion sa)" "wf_col (CUnion ta)" and shape: "same_arms sa ta"
    and IH: "\<And>k r v a. (k, UnionArm r v) \<in> set ta \<Longrightarrow> wf_col a \<Longrightarrow> wf_col v \<Longrightarrow> same_shape a v \<Longrightarrow>
      \<exists>c. append_col dbg a v = Inr c \<and> appends a v c"
  shows "\<exists>sb. append_arms dbg (nrows (CUnion sa)) sa ta = Inr sb \<and> union_merge sa ta sb"
proof -
  let ?off = "nrows (CUnion sa)"
  have oks: "tags_ok sa" "tags_ok ta" "partitions sa" using wf by simp_all
  note mem = member_map_of [OF oks(1)] member_map_of [OF oks(2)]
  have "\<exists>arm. extend_shifted dbg (base_arm (map_of sa k) other) other ?off = Inr arm \<and> merged ?off (map_of sa k) other arm"
    if t: "(k, other) \<in> set ta" for k other
  proof -
    obtain r v where o: "other = UnionArm r v" by (cases other)
    let ?base = "base_arm (map_of sa k) other"
    obtain br bv where b: "?base = UnionArm br bv" by (cases ?base)
    have wo: "wf_arm other" using wf_union_member [OF wf(2)] t unfolding mem by blast
    have wb: "wf_arm ?base" using base_arm_wf [OF wo] wf_union_member [OF wf(1)] by blast
    have "same_shape bv v"
    proof (cases "map_of sa k")
      case None
      then show ?thesis using b o wo empty_like_shape by (auto simp: base_arm_def)
    next
      case (Some a)
      then have "a = UnionArm br bv" using b by (simp add: base_arm_def)
      then show ?thesis using Some o shape t unfolding same_arms_iff by (metis arm_values.simps)
    qed
    with IH [of k r v bv] t o wo wb b obtain c where c: "append_col dbg bv v = Inr c" "appends bv v c" by auto
    have "extend_ascends ?base other ?off"
    proof -
      have "last br < ?off" if "br \<noteq> []"
      proof -
        have "last br \<in> set (arm_rows ?base)" using that b by simp
        then show ?thesis using rows_below [OF oks(3)] mem(1) unfolding base_arm_rows by blast
      qed
      then show ?thesis
        unfolding extend_ascends_def b by (cases "br = []") (simp_all add: trans_less_add2 del: nrows.simps)
    qed
    then have "extend_shifted dbg ?base other ?off = Inr (UnionArm (br @ map (\<lambda>x. x + ?off) r) c)"
      using c(1) unfolding b unfolding o by simp
    moreover have "merged ?off (map_of sa k) other (UnionArm (br @ map (\<lambda>x. x + ?off) r) c)"
      using c(2) unfolding merged_def b by (simp add: o)
    ultimately show ?thesis by blast
  qed
  then obtain g where g: "\<And>k other. (k, other) \<in> set ta \<Longrightarrow>
      extend_shifted dbg (base_arm (map_of sa k) other) other ?off = Inr (g k other) \<and> merged ?off (map_of sa k) other (g k other)"
    by metis
  let ?g = "\<lambda>k. g k (the (map_of ta k))"
  have "extend_shifted dbg (base_arm (map_of sa k) other) other ?off = Inr (?g k)" if "(k, other) \<in> set ta" for k other
    using g [OF that] that unfolding mem by simp
  from append_arms_spec [OF oks(1) tags_ok_distinct [OF oks(2)] this]
  obtain sb where sb: "append_arms dbg ?off sa ta = Inr sb" "tags_ok sb"
    "map_of sb = (\<lambda>k. if k \<in> fst ` set ta then Some (?g k) else map_of sa k)" by blast
  have "case map_of ta k of None \<Rightarrow> map_of sb k = map_of sa k
      | Some other \<Rightarrow> \<exists>arm. map_of sb k = Some arm \<and> merged ?off (map_of sa k) other arm" for k
  proof (cases "map_of ta k")
    case None
    then have "k \<notin> fst ` set ta" by (simp add: map_of_eq_None_iff)
    with None sb(3) show ?thesis by simp
  next
    case (Some other)
    then have "(k, other) \<in> set ta" unfolding mem .
    then show ?thesis using Some sb(3) g [of k other] by force
  qed
  then have "union_merge sa ta sb" unfolding union_merge_def using wf sb(2) by blast
  with sb(1) show ?thesis by blast
qed

lemma append_rows:
  "wf_col a \<Longrightarrow> wf_col b \<Longrightarrow> same_shape a b \<Longrightarrow> \<exists>c. append_col dbg a b = Inr c \<and> appends a b c"
proof (induction b arbitrary: a rule: column_induct)
  case (leaf b)
  then show ?case
    by (cases b; cases a) (auto simp: same_shape.simps append_col.simps appends_def nth_res_def nth_append)
next
  case (bindings ti to)
  then obtain si so where a: "a = CFunctionBindings si so" and sh: "same_shape si ti" "same_shape so to"
    by (cases a) (auto simp: same_shape.simps)
  from bindings a have wfs: "wf_col si" "wf_col so" "nrows si = nrows so" "wf_col ti" "wf_col to" "nrows ti = nrows to"
    by auto
  from bindings.IH(1) [OF wfs(1,4) sh(1)] bindings.IH(2) [OF wfs(2,5) sh(2)]
  obtain c d where "append_col dbg si ti = Inr c" "appends si ti c" "append_col dbg so to = Inr d" "appends so to d"
    by blast
  then show ?case using wfs by (subst append_col.simps) (simp add: a appends_def)
next
  case (records t)
  then obtain s where a: "a = CRecords s" and sf: "same_fields s t"
    by (cases a) (auto simp: same_shape.simps)
  note sfi = sf [unfolded same_fields_iff]
  have wfs: "wf_col (CRecords s)" "wf_col (CRecords t)" using records.prems a by simp_all
  have "distinct (map fst ([] @ s))" using wfs(1) by (simp add: strict_sorted_iff)
  moreover have "\<exists>e. append_col dbg (snd (s ! i)) (snd (t ! i)) = Inr e \<and> appends (snd (s ! i)) (snd (t ! i)) e"
    if "i < length t" for i
  proof -
    have "(fst (t ! i), snd (t ! i)) \<in> set t" using that by simp
    moreover have "i < length s" using that sfi by simp
    then have "(fst (s ! i), snd (s ! i)) \<in> set s" by (metis nth_mem prod.collapse)
    ultimately have "(fst (t ! i), snd (t ! i)) \<in> set t" "(fst (s ! i), snd (s ! i)) \<in> set s" by blast+
    then show ?thesis
      using records.IH [of "fst (t ! i)" "snd (t ! i)" "snd (s ! i)"] wf_field(1) [OF wfs(1)] wf_field(1) [OF wfs(2)] sfi that
      by blast
  qed
  ultimately obtain u where u: "append_fields dbg s t = Inr u" "length u = length s"
    "\<forall>i < length s. fst (u ! i) = fst (s ! i) \<and> appends (snd (s ! i)) (snd (t ! i)) (snd (u ! i))"
    using append_fields_spec [OF sf, of "[]" dbg appends] by auto
  have "appends (CRecords s) (CRecords t) (CRecords u)"
    by (rule appends_records [OF wfs]) (use sfi u in auto)
  with u(1) show ?case by (subst append_col.simps) (simp add: a)
next
  case (union ta)
  then obtain sa where a: "a = CUnion sa" and shape: "same_arms sa ta"
    by (cases a) (auto simp: same_shape.simps)
  have wfs: "wf_col (CUnion sa)" "wf_col (CUnion ta)" using union.prems a by simp_all
  from append_union [OF wfs shape] union.IH obtain sb
    where sb: "append_arms dbg (nrows (CUnion sa)) sa ta = Inr sb" "union_merge sa ta sb" by blast
  show ?case
    using sb(1) merge_appends [OF sb(2)] merge_partitions(1) [OF sb(2)] by (subst append_col.simps) (simp add: a)
qed

text \<open>Columns of different variants cannot be concatenated, nor can a record receive a field it does
  not have.\<close>

lemma append_missing_field: "k \<notin> fst ` set s \<Longrightarrow> append_fields dbg s ((k, v) # t) = Inl Explicit"
  by (simp add: map_of_eq_None_iff [THEN iffD2])

subsection \<open>Extending without consuming\<close>

function extend_from :: "bool \<Rightarrow> 'f ColumnValue \<Rightarrow> 'f ColumnValue \<Rightarrow> 'f ColumnValue res"
  and extend_fields :: "bool \<Rightarrow> (utext \<times> 'f ColumnValue) list \<Rightarrow> (utext \<times> 'f ColumnValue) list \<Rightarrow>
    (utext \<times> 'f ColumnValue) list res" where
  "extend_from dbg a b =
     (case (a, b) of
        (CInts s, CInts t) \<Rightarrow> Inr (CInts (s @ t))
      | (CUInts s, CUInts t) \<Rightarrow> Inr (CUInts (s @ t))
      | (CStrings s, CStrings t) \<Rightarrow> Inr (CStrings (s @ t))
      | (CBools s, CBools t) \<Rightarrow> Inr (CBools (s @ t))
      | (CRecords s, CRecords t) \<Rightarrow> map_ok CRecords (extend_fields dbg s t)
      | _ \<Rightarrow> append_col dbg a b)"
| "extend_fields dbg s [] = Inr s"
| "extend_fields dbg s ((k, v) # t) =
     (case map_of s k of
        None \<Rightarrow> Inl Explicit
      | Some c \<Rightarrow> bind_res (extend_from dbg c v) (\<lambda>c. extend_fields dbg (AList.update k c s) t))"
  by pat_completeness auto
termination
  by (relation "measure (\<lambda>x. case x of
      Inl (_, _, c) \<Rightarrow> size c
    | Inr (_, _, fs) \<Rightarrow> size_list (size_prod (\<lambda>_. 0) size) fs)") auto

declare extend_from.simps [simp del]

lemma extend_append:
  fixes a b :: "'f ColumnValue" and s t :: "(utext \<times> 'f ColumnValue) list"
  shows "extend_from dbg a b = append_col dbg a b"
    and "extend_fields dbg s t = append_fields dbg s t"
proof (induction dbg a b and dbg s t rule: extend_from_extend_fields.induct)
  case (1 dbg a b)
  then show ?case
    by (subst extend_from.simps, cases a; cases b) (simp_all add: append_col.simps)
next
  case (3 dbg s k v t)
  then show ?case by (cases "map_of s k") (auto intro!: bind_res_cong)
qed simp

subsection \<open>Properties\<close>



text \<open>Appending by reference is appending: \<open>extend_from\<close> and \<open>append\<close> return the same column or panic
  alike, and \<open>clear\<close> leaves the column that \<open>empty_like\<close> builds.\<close>
lemma extend_from_append: "extend_from dbg a b = append_col dbg a b \<and> clear_col c = empty_like c"
  by (simp add: extend_append(1) clear_col_empty_like)

end
