(* ===== verification/Column_Retain.thy ===== *)
theory Column_Retain
  imports Column_Append
begin

section \<open>Filtering columns\<close>

text \<open>
  \<open>retain_vec\<close> and \<open>retain\<close> of \<open>src/interpreter/types/column_value.rs\<close>: the filter in place, with a
  write cursor, keeps what selecting the marked rows keeps.
\<close>

subsection \<open>Retaining by a mask\<close>

fun retain_loop :: "bool list \<Rightarrow> nat \<Rightarrow> nat \<Rightarrow> 'a list \<Rightarrow> ('a list \<times> nat) res" where
  "retain_loop [] read w v = Inr (v, w)"
| "retain_loop (keep # ms) read w v =
     (if keep
      then bind_res (if w \<noteq> read then swap_res v w read else Inr v)
        (\<lambda>v. retain_loop ms (Suc read) (Suc w) v)
      else retain_loop ms (Suc read) w v)"

definition retain_vec :: "bool \<Rightarrow> 'a list \<Rightarrow> bool list \<Rightarrow> 'a list res" where
  "retain_vec dbg v ms =
     (if dbg \<and> length ms \<noteq> length v then Inl AssertFailed
      else map_ok (\<lambda>(v, w). take w v) (retain_loop ms 0 0 v))"

fun new_rows :: "nat \<Rightarrow> bool list \<Rightarrow> nat list" where
  "new_rows next [] = []"
| "new_rows next (keep # ms) =
     (if keep then next # new_rows (Suc next) ms else (2 ^ 64 - 1) # new_rows next ms)"

definition kept_slots :: "bool list \<Rightarrow> 'f UnionArm \<Rightarrow> (nat \<times> nat) list res" where
  "kept_slots ms arm = map_ok concat
     (map_res (\<lambda>(row, slot). bind_res (nth_res ms row) (\<lambda>keep.
        if keep then map_ok (\<lambda>r. [(r, slot)]) (nth_res (new_rows 0 ms) row) else Inr []))
       (row_slots arm))"

definition check_mask :: "bool \<Rightarrow> 'f ColumnValue \<Rightarrow> bool list \<Rightarrow> unit res" where
  "check_mask dbg c ms =
     bind_res (col_len dbg c) (\<lambda>n. if length ms = n then Inr () else Inl AssertFailed)"

fun retain_col :: "bool \<Rightarrow> 'f ColumnValue \<Rightarrow> bool list \<Rightarrow> 'f ColumnValue res" where
  "retain_col dbg (CUnits n) ms =
     bind_res (check_mask dbg (CUnits n :: 'f ColumnValue) ms) (\<lambda>_. Inr (CUnits (length (filter id ms))))"
| "retain_col dbg (CInts v) ms =
     bind_res (check_mask dbg (CInts v :: 'f ColumnValue) ms) (\<lambda>_. map_ok CInts (retain_vec dbg v ms))"
| "retain_col dbg (CUInts v) ms =
     bind_res (check_mask dbg (CUInts v :: 'f ColumnValue) ms) (\<lambda>_. map_ok CUInts (retain_vec dbg v ms))"
| "retain_col dbg (CStrings v) ms =
     bind_res (check_mask dbg (CStrings v :: 'f ColumnValue) ms) (\<lambda>_. map_ok CStrings (retain_vec dbg v ms))"
| "retain_col dbg (CVariants v) ms =
     bind_res (check_mask dbg (CVariants v) ms) (\<lambda>_. map_ok CVariants (retain_vec dbg v ms))"
| "retain_col dbg (CBools v) ms =
     bind_res (check_mask dbg (CBools v :: 'f ColumnValue) ms) (\<lambda>_. map_ok CBools (retain_vec dbg v ms))"
| "retain_col dbg (CFunctionBindings ins outs) ms =
     bind_res (check_mask dbg (CFunctionBindings ins outs) ms) (\<lambda>_.
     bind_res (retain_col dbg ins ms) (\<lambda>a.
     bind_res (retain_col dbg outs ms) (\<lambda>b. Inr (CFunctionBindings a b))))"
| "retain_col dbg (CRecords fs) ms =
     bind_res (check_mask dbg (CRecords fs) ms) (\<lambda>_.
       map_ok CRecords (map_res (\<lambda>(k, c). map_ok (Pair k) (retain_col dbg c ms)) fs))"
| "retain_col dbg (CUnion arms) ms =
     bind_res (check_mask dbg (CUnion arms) ms) (\<lambda>_.
       map_ok CUnion (map_res (\<lambda>(k, arm). bind_res (kept_slots ms arm) (\<lambda>ps.
         map_ok (Pair k) (gather dbg arm (map fst ps) (map snd ps)))) arms))"

text \<open>The loop with a write cursor keeps the masked elements in order.\<close>

lemma swap_step:
  assumes "w < r" "r < length v"
  shows "\<exists>u. swap_res v w r = Inr u \<and> length u = length v \<and> take (Suc w) u = take w v @ [v ! r] \<and>
    drop (Suc r) u = drop (Suc r) v"
  using assms by (auto simp: swap_res_def take_Suc_conv_app_nth drop_update_cancel)

lemma retain_loop_spec:
  "w \<le> r \<Longrightarrow> r + length ms = length v \<Longrightarrow>
     \<exists>u w'. retain_loop ms r w v = Inr (u, w') \<and>
       take w' u = take w v @ map fst (filter snd (zip (drop r v) ms))"
proof (induction ms arbitrary: r w v)
  case (Cons keep ms)
  have d: "drop r v = v ! r # drop (Suc r) v" using Cons.prems by (simp add: Cons_nth_drop_Suc)
  show ?case
  proof (cases keep)
    case False
    then show ?thesis using Cons.IH [of w "Suc r" v] Cons.prems d by auto
  next
    case True
    have "\<exists>u. (if w \<noteq> r then swap_res v w r else Inr v) = Inr u \<and> length u = length v \<and>
        take (Suc w) u = take w v @ [v ! r] \<and> drop (Suc r) u = drop (Suc r) v"
      using swap_step [of w r v] Cons.prems by (cases "w = r") (auto simp: take_Suc_conv_app_nth)
    then obtain u where u: "(if w \<noteq> r then swap_res v w r else Inr v) = Inr u" "length u = length v"
      "take (Suc w) u = take w v @ [v ! r]" "drop (Suc r) u = drop (Suc r) v" by blast
    have "\<exists>x w'. retain_loop ms (Suc r) (Suc w) u = Inr (x, w') \<and>
        take w' x = take (Suc w) u @ map fst (filter snd (zip (drop (Suc r) u) ms))"
      using Cons.prems u(2) by (intro Cons.IH) auto
    then show ?thesis using True u d by auto
  qed
qed auto

definition kept :: "bool list \<Rightarrow> nat list" where
  "kept ms = filter (\<lambda>i. ms ! i) [0..<length ms]"

lemma map_nth_kept: "length v = length ms \<Longrightarrow> map ((!) v) (kept ms) = map fst (filter snd (zip v ms))"
proof -
  assume len: "length v = length ms"
  have "zip v ms = map (\<lambda>i. (v ! i, ms ! i)) [0..<length ms]"
    by (rule nth_equalityI) (simp_all add: len)
  then show ?thesis by (simp add: kept_def filter_map comp_def)
qed

lemma retain_vec_kept:
  "length ms = length v \<Longrightarrow> retain_vec dbg v ms = Inr (map ((!) v) (kept ms))"
  using retain_loop_spec [of 0 0 ms v] map_nth_kept [of v ms] by (auto simp: retain_vec_def)

lemma length_kept: "length (kept ms) = length (filter id ms)"
proof -
  have "ms = map ((!) ms) [0..<length ms]" by (simp add: map_nth)
  then have "filter id ms = map ((!) ms) (kept ms)"
    unfolding kept_def by (metis (no_types, lifting) comp_apply filter_cong filter_map id_apply)
  then show ?thesis by simp
qed

lemma kept_below: "i \<in> set (kept ms) \<longleftrightarrow> i < length ms \<and> ms ! i"
  by (auto simp: kept_def)

text \<open>The new row of a kept row is its position among the kept rows.\<close>

lemma new_rows_nth:
  "i < length ms \<Longrightarrow> ms ! i \<Longrightarrow> new_rows n ms ! i = n + length (filter id (take i ms))"
  by (induction ms arbitrary: i n) (auto simp: nth_Cons split: nat.splits)

lemma length_new_rows [simp]: "length (new_rows n ms) = length ms"
  by (induction ms arbitrary: n) auto

lemma new_row_kept:
  assumes "i < length ms" "ms ! i"
  shows "new_rows 0 ms ! i < length (kept ms)" "kept ms ! (new_rows 0 ms ! i) = i"
proof -
  have "take i ms = map ((!) ms) [0..<i]" using assms(1) by (simp add: list_eq_iff_nth_eq)
  then have "new_rows 0 ms ! i = length (filter (\<lambda>j. ms ! j) [0..<i])"
    using new_rows_nth [OF assms, of 0] by (simp add: filter_map comp_def)
  moreover have "[0..<length ms] = [0..<i] @ i # [Suc i..<length ms]"
    using assms(1) upt_add_eq_append [of 0 i "length ms - i"] upt_conv_Cons [of i "length ms"] by simp
  then have "kept ms = filter (\<lambda>j. ms ! j) [0..<i] @ i # filter (\<lambda>j. ms ! j) [Suc i..<length ms]"
    unfolding kept_def using assms(2) by simp
  ultimately show "new_rows 0 ms ! i < length (kept ms)" "kept ms ! (new_rows 0 ms ! i) = i"
    by simp_all
qed

lemma check_mask_ok: "wf_col c \<Longrightarrow> length ms = nrows c \<Longrightarrow> check_mask dbg c ms = Inr ()"
  by (simp add: check_mask_def col_len_wf)

lemma kept_slots_eq:
  assumes "\<And>i. i \<in> set (arm_rows arm) \<Longrightarrow> i < length ms"
  shows "kept_slots ms arm =
    Inr (map (\<lambda>s. (new_rows 0 ms ! (arm_rows arm ! s), s)) (filter (\<lambda>s. ms ! (arm_rows arm ! s)) [0..<arm_len arm]))"
proof -
  have "map_res (\<lambda>(row, slot). bind_res (nth_res ms row) (\<lambda>keep.
        if keep then map_ok (\<lambda>r. [(r, slot)]) (nth_res (new_rows 0 ms) row) else Inr [])) (row_slots arm) =
      Inr (map (\<lambda>(row, slot). if ms ! row then [(new_rows 0 ms ! row, slot)] else []) (row_slots arm))"
    by (rule map_res_ok) (use assms in \<open>auto simp: row_slots_eq arm_len_def\<close>)
  moreover have "concat (map (\<lambda>s. if P s then [f s] else []) xs) = map f (filter P xs)" for P f and xs :: "nat list"
    by (induction xs) auto
  ultimately show ?thesis by (simp add: kept_slots_def row_slots_eq comp_def)
qed

text \<open>One arm: filtering its rows by the mask is selecting the kept rows.\<close>

lemma kept_arm:
  assumes "sorted_wrt (<) r" "\<And>i. i \<in> set r \<Longrightarrow> i < length ms"
  defines "ss \<equiv> filter (\<lambda>s. ms ! (r ! s)) [0..<length r]"
    and "js \<equiv> filter (\<lambda>j. kept ms ! j \<in> set r) [0..<length (kept ms)]"
  shows "map (\<lambda>s. new_rows 0 ms ! (r ! s)) ss = js"
    and "map (\<lambda>j. the (slot_of (UnionArm r v) (kept ms ! j))) js = ss"
proof -
  let ?f = "\<lambda>s. new_rows 0 ms ! (r ! s)"
  have f: "?f s < length (kept ms)" "kept ms ! ?f s = r ! s" if "s \<in> set ss" for s
    using that assms(2) new_row_kept [of "r ! s" ms] by (auto simp: ss_def)
  have "sorted_wrt (<) (kept ms)" by (simp add: kept_def sorted_wrt_filter)
  then have mono: "kept ms ! a < kept ms ! b \<longleftrightarrow> a < b" if "a < length (kept ms)" "b < length (kept ms)" for a b
    using that strictly_ascending_nth [of "kept ms"] by (metis linorder_neqE_nat not_less_iff_gr_or_eq)
  have "sorted_wrt (\<lambda>s t. ?f s < ?f t) ss"
  proof (rule sorted_wrt_mono_rel [of _ "(<)"])
    show "sorted_wrt (<) ss" by (simp add: ss_def sorted_wrt_filter)
    fix s t assume st: "s \<in> set ss" "t \<in> set ss" "s < t"
    have "r ! s < r ! t" using st strictly_ascending_nth [OF assms(1), of s t] by (simp add: ss_def)
    then show "?f s < ?f t" using mono [of "?f s" "?f t"] f st by simp
  qed
  then have sf: "sorted_wrt (<) (map ?f ss)" by (simp add: sorted_wrt_map)
  have "set (map ?f ss) = set js"
  proof (intro set_eqI iffI)
    fix j assume "j \<in> set (map ?f ss)"
    then show "j \<in> set js" using f by (auto simp: js_def ss_def)
  next
    fix j assume "j \<in> set js"
    then obtain s where s: "j < length (kept ms)" "s < length r" "r ! s = kept ms ! j"
      by (auto simp: js_def in_set_conv_nth)
    then have "ms ! (r ! s)" using kept_below [of "kept ms ! j" ms] by simp
    then have "s \<in> set ss" using s by (simp add: ss_def)
    moreover from this have "?f s = j" using f [of s] s by (metis mono linorder_neqE_nat less_irrefl)
    ultimately show "j \<in> set (map ?f ss)" by force
  qed
  then show eq: "map ?f ss = js"
    using sf by (intro strict_sorted_equal) (simp_all add: js_def sorted_wrt_filter)
  have "map (\<lambda>j. the (slot_of (UnionArm r v) (kept ms ! j))) (map ?f ss) = map (\<lambda>s. s) ss"
    unfolding map_map by (rule map_cong) (use f slot_of_nth [OF assms(1), where vs = v] in \<open>auto simp: ss_def\<close>)
  then show "map (\<lambda>j. the (slot_of (UnionArm r v) (kept ms ! j))) js = ss" using eq by simp
qed

lemma retain_rows:
  "wf_col c \<Longrightarrow> length ms = nrows c \<Longrightarrow> \<exists>d. retain_col dbg c ms = Inr d \<and> selects c (kept ms) d"
proof (induction c rule: column_induct)
  case (leaf c)
  have "kept ms ! j < nrows c" if "j < length (kept ms)" for j
    using nth_mem [OF that] leaf.prems by (simp add: kept_below)
  with leaf show ?case
    by (cases c) (auto simp: check_mask_def retain_vec_kept selects_def length_kept [symmetric])
next
  case (bindings ins outs)
  from bindings.prems have "wf_col ins" "wf_col outs" "length ms = nrows ins" "length ms = nrows outs" by auto
  with bindings.IH obtain a b where "retain_col dbg ins ms = Inr a" "selects ins (kept ms) a"
    "retain_col dbg outs ms = Inr b" "selects outs (kept ms) b" by blast
  then show ?case using check_mask_ok [OF bindings.prems] by (simp add: selects_def)
next
  case (records fs)
  let ?g = "\<lambda>(k, c). map_ok (Pair k) (retain_col dbg c ms)"
  let ?R = "\<lambda>(k, c) (l, d). l = k \<and> selects c (kept ms) d"
  have "\<exists>y. ?g x = Inr y \<and> ?R x y" if x: "x \<in> set fs" for x
  proof -
    obtain k c where kc: "x = (k, c)" by force
    with x obtain d where "retain_col dbg c ms = Inr d" "selects c (kept ms) d"
      using records wf_field [OF records.prems(1), of k c] by metis
    then show ?thesis by (simp add: kc)
  qed
  from map_res_exists [of fs ?g ?R, OF this] obtain gs
    where "map_res ?g fs = Inr gs" "list_all2 ?R fs gs" by blast
  then show ?case using selects_records [OF records.prems(1)] check_mask_ok [OF records.prems] by simp
next
  case (union arms)
  let ?g = "\<lambda>(k, arm). bind_res (kept_slots ms arm) (\<lambda>ps. map_ok (Pair k) (gather dbg arm (map fst ps) (map snd ps)))"
  let ?R = "\<lambda>(k, a) (l, b). l = k \<and> arm_selects (kept ms) a b"
  have "\<exists>y. ?g x = Inr y \<and> ?R x y" if x: "x \<in> set arms" for x
  proof -
    obtain k r v where krv: "x = (k, UnionArm r v)" by (metis UnionArm.exhaust surj_pair)
    note wfp = wf_payload [OF union.prems(1) x [unfolded krv]]
    have below: "i < length ms" if "i \<in> set r" for i
      using that rows_below [of arms k "UnionArm r v" i] x krv union.prems by (simp del: nrows.simps)
    let ?ss = "filter (\<lambda>s. ms ! (r ! s)) [0..<length r]"
    let ?js = "filter (\<lambda>j. kept ms ! j \<in> set r) [0..<length (kept ms)]"
    have "\<And>i. i \<in> set ?ss \<Longrightarrow> i < nrows v" using wfp(3) by auto
    from select_rows [OF wfp(1) this] obtain d
      where d: "select_indices dbg v ?ss (length ?ss) = Inr d" "selects v ?ss d" by blast
    have sel: "arm_selects (kept ms) (UnionArm r v) (UnionArm ?js d)"
      using d(2) kept_arm(2) [OF wfp(2) below, of v] by (simp add: arm_selects_def)
    have "kept_slots ms (UnionArm r v) = Inr (map (\<lambda>s. (new_rows 0 ms ! (r ! s), s)) ?ss)"
      using kept_slots_eq [of "UnionArm r v" ms] below by (simp add: arm_len_def)
    moreover have "gather dbg (UnionArm r v) ?js ?ss = Inr (UnionArm ?js d)"
      using d(1) UnionArm_new_wf [OF arm_selects_wf [OF sel]] by simp
    ultimately have "?g x = Inr (k, UnionArm ?js d)"
      using kept_arm(1) [OF wfp(2) below] by (simp add: krv comp_def)
    with sel show ?thesis by (simp add: krv)
  qed
  from map_res_exists [of arms ?g ?R, OF this] obtain arms'
    where a: "map_res ?g arms = Inr arms'" "list_all2 ?R arms arms'" by blast
  have "selects (CUnion arms) (kept ms) (CUnion arms')"
    by (rule selects_union [OF union.prems(1) _ a(2)]) (simp add: kept_below union.prems(2) del: nrows.simps)
  then show ?case using a(1) check_mask_ok [OF union.prems] by simp
qed

subsection \<open>Properties\<close>

text \<open>The in-place filter with a write cursor and swaps keeps exactly the masked elements, in their
  order.\<close>
lemma retain_vec_stable:
  assumes "length ms = length v"
  shows "retain_vec dbg v ms = Inr (map fst (filter snd (zip v ms)))"
  using retain_vec_kept [OF assms, of dbg] map_nth_kept [OF assms [symmetric]] by simp

text \<open>C39. Retaining by a mask of the column's length returns a well-formed column of the marked rows in
  their order, for every kind of column; for a union the renumbered arms still partition the rows. A
  mask of another length fails the assertion in both profiles.\<close>
theorem retain_col_rows:
  assumes "wf_col c"
  shows "(length ms = nrows c \<longrightarrow>
      (\<exists>d. retain_col dbg c ms = Inr d \<and> wf_col d \<and> nrows d = length (filter id ms) \<and>
        (\<forall>j < nrows d. index_at d j = index_at c (filter (\<lambda>i. ms ! i) [0..<nrows c] ! j)))) \<and>
    (length ms \<noteq> nrows c \<longrightarrow> retain_col dbg c ms = Inl AssertFailed)"
proof (intro conjI impI)
  assume len: "length ms = nrows c"
  from retain_rows [OF assms len] obtain d where d: "retain_col dbg c ms = Inr d" "selects c (kept ms) d" by blast
  then have "wf_col d" "nrows d = length (filter id ms)"
    "\<forall>j < nrows d. index_at d j = index_at c (filter (\<lambda>i. ms ! i) [0..<nrows c] ! j)"
    using len length_kept [of ms] by (simp_all add: selects_def kept_def)
  with d(1) show "\<exists>d. retain_col dbg c ms = Inr d \<and> wf_col d \<and> nrows d = length (filter id ms) \<and>
      (\<forall>j < nrows d. index_at d j = index_at c (filter (\<lambda>i. ms ! i) [0..<nrows c] ! j))" by blast
next
  assume "length ms \<noteq> nrows c"
  then have "check_mask dbg c ms = Inl AssertFailed" using assms by (simp add: check_mask_def col_len_wf)
  then show "retain_col dbg c ms = Inl AssertFailed" by (cases c) simp_all
qed

theorem retain_col_rows_witness:
  "\<exists>d. retain_col True sample_union [True, False, True] = Inr d \<and> wf_col d \<and> nrows d = 2 \<and>
     (\<forall>j < nrows d. index_at d j = index_at sample_union (filter (\<lambda>i. [True, False, True] ! i) [0..<nrows sample_union] ! j))"
  using retain_col_rows [OF sample_union_wf(1), of "[True, False, True]" True] by (simp add: sample_union_wf(2) numeral_2_eq_2)

end
