(* ===== verification/Column_Build.thy ===== *)
theory Column_Build
  imports Column_Append "HOL-Library.Multiset"
begin

section \<open>Building, repeating and combining columns\<close>

text \<open>
  The remaining operations of \<open>src/interpreter/types/column_value.rs\<close> that do not read an extent:
  broadcasting one row, the cartesian product of named columns, reading a column out as values, and
  mapping a column through a table.
\<close>

subsection \<open>The operations\<close>

fun repeat_col :: "bool \<Rightarrow> 'f ColumnValue \<Rightarrow> nat \<Rightarrow> 'f ColumnValue res" where
  "repeat_col dbg c n =
     bind_res (col_len dbg c) (\<lambda>m. if m \<noteq> 1 then Inl AssertFailed else
       case c of
         CUnits _ \<Rightarrow> Inr (CUnits n)
       | CBools v \<Rightarrow> map_ok (\<lambda>x. CBools (replicate n x)) (nth_res v 0)
       | CInts v \<Rightarrow> map_ok (\<lambda>x. CInts (replicate n x)) (nth_res v 0)
       | CUInts v \<Rightarrow> map_ok (\<lambda>x. CUInts (replicate n x)) (nth_res v 0)
       | CStrings v \<Rightarrow> map_ok (\<lambda>x. CStrings (replicate n x)) (nth_res v 0)
       | CVariants v \<Rightarrow> map_ok (\<lambda>x. CVariants (replicate n x)) (nth_res v 0)
       | CRecords fs \<Rightarrow> map_ok CRecords (map_res (\<lambda>(k, d). map_ok (Pair k) (repeat_col dbg d n)) fs)
       | CUnion arms \<Rightarrow> map_ok CUnion
           (map_res (\<lambda>(k, arm).
              if arm_is_empty arm then Inr (k, arm)
              else case arm of UnionArm r v \<Rightarrow>
                bind_res (repeat_col dbg v n) (\<lambda>w. map_ok (Pair k) (UnionArm_new dbg [0..<n] w))) arms)
       | CFunctionBindings _ _ \<Rightarrow> Inl Explicit)"

declare repeat_col.simps [simp del]

fun single :: "'f Value \<Rightarrow> 'f ColumnValue" where
  "single VUnit = CUnits 1"
| "single (VBool b) = CBools [b]"
| "single (VInt i) = CInts [i]"
| "single (VUInt i) = CUInts [i]"
| "single (VString s) = CStrings [s]"
| "single (VRecord fs) = CRecords (map (\<lambda>(k, v). (k, single v)) fs)"
| "single v = CVariants [v]"

text \<open>\<open>expect\<close> on the option a part returns.\<close>

definition expect_res :: "'a option res \<Rightarrow> 'a res" where
  "expect_res r = bind_res r (\<lambda>x. case x of Some v \<Rightarrow> Inr v | None \<Rightarrow> Inl ExpectFailed)"

fun as_single :: "bool \<Rightarrow> 'f ColumnValue \<Rightarrow> 'f Value option res"
  and single_arm :: "bool \<Rightarrow> (FieldKey \<times> 'f UnionArm) list \<Rightarrow> 'f Value option res" where
  "as_single dbg c =
     bind_res (col_len dbg c) (\<lambda>m. if m \<noteq> 1 then Inr None else
       case c of
         CUnits n \<Rightarrow> Inr (if n = 1 then Some VUnit else None)
       | CBools v \<Rightarrow> map_ok (\<lambda>x. Some (VBool x)) (nth_res v 0)
       | CInts v \<Rightarrow> map_ok (\<lambda>x. Some (VInt x)) (nth_res v 0)
       | CUInts v \<Rightarrow> map_ok (\<lambda>x. Some (VUInt x)) (nth_res v 0)
       | CStrings v \<Rightarrow> map_ok (\<lambda>x. Some (VString x)) (nth_res v 0)
       | CVariants v \<Rightarrow> map_ok Some (nth_res v 0)
       | CFunctionBindings ins outs \<Rightarrow>
           bind_res (expect_res (as_single dbg ins)) (\<lambda>a.
           bind_res (expect_res (as_single dbg outs)) (\<lambda>b. Inr (Some (VFunction [FuncBinding a b]))))
       | CRecords fs \<Rightarrow> map_ok (\<lambda>vs. Some (VRecord vs))
           (map_res (\<lambda>(k, d). map_ok (Pair k) (expect_res (as_single dbg d))) fs)
       | CUnion arms \<Rightarrow> single_arm dbg arms)"
| "single_arm dbg [] = Inr None"
| "single_arm dbg ((k, UnionArm r v) # arms) =
     (if r = [] then single_arm dbg arms
      else map_ok (map_option (VUnion k)) (as_single dbg v))"

declare as_single.simps [simp del]

text \<open>\<open>drain_to_value_iter\<close>: the values it yields, and the column it leaves behind.\<close>

fun drain_values :: "bool \<Rightarrow> 'f ColumnValue \<Rightarrow> 'f Value list res" where
  "drain_values dbg (CUnits n) = Inr (replicate n VUnit)"
| "drain_values dbg (CBools v) = Inr (map VBool v)"
| "drain_values dbg (CInts v) = Inr (map VInt v)"
| "drain_values dbg (CUInts v) = Inr (map VUInt v)"
| "drain_values dbg (CStrings v) = Inr (map VString v)"
| "drain_values dbg (CVariants v) = Inr v"
| "drain_values dbg (CFunctionBindings ins outs) =
     bind_res (drain_values dbg ins) (\<lambda>a.
     bind_res (drain_values dbg outs) (\<lambda>b. Inr (map (\<lambda>(x, y). VFunction [FuncBinding x y]) (zip a b))))"
| "drain_values dbg (CRecords fs) =
     bind_res (case fs of [] \<Rightarrow> Inr 0 | (k, c) # _ \<Rightarrow> col_len dbg c) (\<lambda>n.
       map_res (\<lambda>i. map_ok VRecord (map_res (\<lambda>(k, c). map_ok (Pair k) (index_at c i)) fs)) [0..<n])"
| "drain_values dbg (CUnion arms) =
     map_ok (\<lambda>rss. map snd (sort_key fst (concat rss)))
       (map_res (\<lambda>(k, arm). map_res (\<lambda>(row, slot).
          map_ok (\<lambda>v. (row, VUnion k v)) (index_at (arm_values arm) slot)) (row_slots arm)) arms)"

fun drained :: "'f ColumnValue \<Rightarrow> 'f ColumnValue" where
  "drained (CUnits _) = CUnits 0"
| "drained (CBools _) = CBools []"
| "drained (CInts _) = CInts []"
| "drained (CUInts _) = CUInts []"
| "drained (CStrings _) = CStrings []"
| "drained (CVariants _) = CVariants []"
| "drained (CFunctionBindings ins outs) = CFunctionBindings (drained ins) (drained outs)"
| "drained (CRecords _) = CRecords []"
| "drained (CUnion _) = CUnion TagMap_new"

definition drain_to_value_iter :: "bool \<Rightarrow> 'f ColumnValue \<Rightarrow> ('f Value list \<times> 'f ColumnValue) res" where
  "drain_to_value_iter dbg c = map_ok (\<lambda>vs. (vs, drained c)) (drain_values dbg c)"

definition from_ints :: "i64 list \<Rightarrow> 'f ColumnValue" where
  "from_ints vs = CInts vs"

definition from_uints :: "u64 list \<Rightarrow> 'f ColumnValue" where
  "from_uints vs = CUInts vs"

definition uints_from_rows :: "nat list \<Rightarrow> 'f ColumnValue" where
  "uints_from_rows rows = CUInts (map uint_of_row rows)"

text \<open>The division by the stride and the remainder panic on zero; \<open>lens\<close> are the lengths from this
  column on.\<close>

definition product_index :: "nat list \<Rightarrow> nat \<Rightarrow> nat res" where
  "product_index lens i =
     (let stride = prod_list (tl lens) in
      if stride = 0 \<or> hd lens = 0 then Inl DivideByZero else Inr ((i div stride) mod hd lens))"

fun product_fields :: "bool \<Rightarrow> nat \<Rightarrow> nat list \<Rightarrow> (utext \<times> 'f ColumnValue) list \<Rightarrow> (utext \<times> 'f ColumnValue) list res" where
  "product_fields dbg n lens [] = Inr []"
| "product_fields dbg n lens ((k, c) # fs) =
     bind_res (map_res (product_index lens) [0..<n]) (\<lambda>is.
     bind_res (select_indices dbg c is n) (\<lambda>d.
     bind_res (product_fields dbg n (tl lens) fs) (\<lambda>gs. Inr ((k, d) # gs))))"

definition cartesian_product :: "bool \<Rightarrow> (utext \<times> 'f ColumnValue) list \<Rightarrow> 'f ColumnValue res" where
  "cartesian_product dbg fs =
     (if fs = [] then Inr (CRecords [])
      else bind_res (map_res (\<lambda>(k, c). col_len dbg c) fs) (\<lambda>lens.
        map_ok CRecords (product_fields dbg (prod_list lens) lens fs)))"

definition positional_union :: "bool \<Rightarrow> nat list \<Rightarrow> 'f ColumnValue list \<Rightarrow> 'f ColumnValue res" where
  "positional_union dbg tags variants =
     bind_res (map_res (\<lambda>(j, vs). map_ok (Pair (Index j))
         (UnionArm_new dbg (filter (\<lambda>row. tags ! row = j) [0..<length tags]) vs)) (enumerate 0 variants))
       (\<lambda>arms. bind_res (from_arms arms) (debug_assert_union_invariants dbg))"

text \<open>The position of a key is that of its last occurrence, as later entries of a map replace earlier
  ones. A missing key panics.\<close>

definition key_positions :: "'k list \<Rightarrow> 'k list \<Rightarrow> nat list res" where
  "key_positions mk ks =
     map_res (\<lambda>k. case rposition (\<lambda>x. x = k) mk of Some i \<Rightarrow> Inr i | None \<Rightarrow> Inl OutOfRange) ks"

definition column_values :: "bool \<Rightarrow> 'f ColumnValue \<Rightarrow> 'f Value list res" where
  "column_values dbg c = bind_res (col_len dbg c) (\<lambda>n. map_res (index_at c) [0..<n])"

text \<open>Both transforms take the keys out of the column they are called on, which is returned first.\<close>

definition transform_by_map ::
  "bool \<Rightarrow> 'f ColumnValue \<Rightarrow> 'f ColumnValue \<Rightarrow> 'f ColumnValue \<Rightarrow> ('f ColumnValue \<times> 'f ColumnValue) res" where
  "transform_by_map dbg ks mk mv =
     bind_res
       (case (ks, mk) of
          (CUInts v, CUInts m) \<Rightarrow> key_positions m v
        | (CInts v, CInts m) \<Rightarrow> key_positions m v
        | (CStrings v, CStrings m) \<Rightarrow> key_positions m v
        | (CBools v, CBools m) \<Rightarrow> key_positions m v
        | (CVariants v, CVariants m) \<Rightarrow> key_positions m v
        | (CRecords _, CRecords _) \<Rightarrow>
            bind_res (column_values dbg mk) (\<lambda>m. bind_res (column_values dbg ks) (key_positions m))
        | (CUnion _, CUnion _) \<Rightarrow>
            bind_res (column_values dbg mk) (\<lambda>m. bind_res (column_values dbg ks) (key_positions m))
        | _ \<Rightarrow> Inl Explicit)
       (\<lambda>is. map_ok (Pair (drained ks)) (select_indices dbg mv is (length is)))"

definition transform_by_list ::
  "bool \<Rightarrow> 'f ColumnValue \<Rightarrow> 'f ColumnValue \<Rightarrow> ('f ColumnValue \<times> 'f ColumnValue) res" where
  "transform_by_list dbg ks mv =
     (case ks of
        CUInts v \<Rightarrow> bind_res (map_res row_index v) (\<lambda>is.
          map_ok (Pair (drained ks)) (select_indices dbg mv is (length is)))
      | _ \<Rightarrow> Inl Explicit)"

fun as_bools :: "'f ColumnValue \<Rightarrow> bool list option" where
  "as_bools (CBools b) = Some b"
| "as_bools _ = None"

definition strings :: "utext list \<Rightarrow> 'f ColumnValue" where
  "strings vs = CStrings vs"

subsection \<open>Repeating one row\<close>

text \<open>Function bindings cannot be repeated; an uninhabited arm is not looked into.\<close>

fun repeatable :: "'f ColumnValue \<Rightarrow> bool" where
  "repeatable (CFunctionBindings _ _) \<longleftrightarrow> False"
| "repeatable (CRecords fs) \<longleftrightarrow> list_all (\<lambda>(k, c). repeatable c) fs"
| "repeatable (CUnion arms) \<longleftrightarrow> list_all (\<lambda>(k, arm). arm_is_empty arm \<or> (case arm of UnionArm r v \<Rightarrow> repeatable v)) arms"
| "repeatable _ \<longleftrightarrow> True"

lemma single_row_arm:
  assumes "wf_col (CUnion arms)" "nrows (CUnion arms) = 1" "(k, UnionArm r v) \<in> set arms" "r \<noteq> []"
  shows "r = [0]"
proof -
  have "set r \<subseteq> {0}" using rows_below [of arms k "UnionArm r v"] assms(1-3) by fastforce
  moreover have "distinct r" using wf_payload(2) [OF assms(1,3)] strict_sorted_iff by blast
  ultimately show ?thesis using assms(4) by (cases r; cases "tl r") auto
qed

lemma union_rows_one:
  assumes "wf_col (CUnion arms)" "nrows (CUnion arms) = 1" "(k, a) \<in> set arms"
  shows "filter (\<lambda>j. replicate n 0 ! j \<in> set (arm_rows a)) [0..<length (replicate n (0::nat))] =
    (if arm_is_empty a then [] else [0..<n])"
proof -
  obtain r v where a: "a = UnionArm r v" by (cases a)
  show ?thesis
  proof (cases "r = []")
    case False
    then have "r = [0]" using single_row_arm assms a by blast
    then show ?thesis by (simp add: a arm_is_empty_def)
  qed (simp add: a arm_is_empty_def)
qed

lemma repeat_rows:
  "wf_col c \<Longrightarrow> nrows c = 1 \<Longrightarrow> repeatable c \<Longrightarrow>
     \<exists>d. repeat_col dbg c n = Inr d \<and> selects c (replicate n 0) d"
proof (induction c rule: column_induct)
  case (leaf c)
  then show ?case by (cases c) (auto simp: repeat_col.simps selects_def)
next
  case (records fs)
  let ?g = "\<lambda>(k, c). map_ok (Pair k) (repeat_col dbg c n)"
  let ?R = "\<lambda>(k, c) (l, d). l = k \<and> selects c (replicate n 0) d"
  have "\<exists>y. ?g x = Inr y \<and> ?R x y" if x: "x \<in> set fs" for x
  proof -
    obtain k c where kc: "x = (k, c)" by force
    with x obtain d where "repeat_col dbg c n = Inr d" "selects c (replicate n 0) d"
      using records wf_field [OF records.prems(1), of k c] by (fastforce simp: list_all_iff)
    then show ?thesis by (simp add: kc)
  qed
  from map_res_exists [of fs ?g ?R, OF this] obtain gs
    where "map_res ?g fs = Inr gs" "list_all2 ?R fs gs" by blast
  then show ?case
    using selects_records [OF records.prems(1)] col_len_wf [OF records.prems(1), of dbg] records.prems(2)
    by (simp add: repeat_col.simps [of dbg "CRecords fs"])
next
  case (union arms)
  let ?g = "\<lambda>(k, arm). if arm_is_empty arm then Inr (k, arm)
     else case arm of UnionArm r v \<Rightarrow>
       bind_res (repeat_col dbg v n) (\<lambda>w. map_ok (Pair k) (UnionArm_new dbg [0..<n] w))"
  let ?R = "\<lambda>(k, a) (l, b). l = k \<and> arm_selects (replicate n 0) a b"
  have "\<exists>y. ?g x = Inr y \<and> ?R x y" if x: "x \<in> set arms" for x
  proof -
    obtain k r v where krv: "x = (k, UnionArm r v)" by (metis UnionArm.exhaust surj_pair)
    note wfp = wf_payload [OF union.prems(1) x [unfolded krv]]
    note rows = union_rows_one [OF union.prems(1,2) x [unfolded krv], of n]
    show ?thesis
    proof (cases "r = []")
      case True
      then have "arm_selects (replicate n 0) (UnionArm r v) (UnionArm r v)"
        using rows wfp by (simp add: arm_selects_def arm_is_empty_def selects_def)
      with True show ?thesis by (simp add: krv arm_is_empty_def)
    next
      case False
      then have r: "r = [0]" using single_row_arm union.prems(1,2) x krv by blast
      have "repeatable v" using union.prems(3) x krv False by (fastforce simp: list_all_iff arm_is_empty_def)
      then obtain d where d: "repeat_col dbg v n = Inr d" "selects v (replicate n 0) d"
        using union.IH x krv wfp r by fastforce
      have "map (\<lambda>j. the (slot_of (UnionArm r v) (replicate n 0 ! j))) [0..<n] = replicate n 0"
        using slot_of_nth [OF wfp(2), of 0 v] r by (intro nth_equalityI) simp_all
      then have sel: "arm_selects (replicate n 0) (UnionArm r v) (UnionArm [0..<n] d)"
        using d(2) rows False by (simp add: arm_selects_def arm_is_empty_def)
      have "?g x = Inr (k, UnionArm [0..<n] d)"
        using d(1) UnionArm_new_wf [OF arm_selects_wf [OF sel]] False by (simp add: krv arm_is_empty_def)
      with sel show ?thesis by (simp add: krv)
    qed
  qed
  from map_res_exists [of arms ?g ?R, OF this] obtain arms'
    where a: "map_res ?g arms = Inr arms'" "list_all2 ?R arms arms'" by blast
  have "selects (CUnion arms) (replicate n 0) (CUnion arms')"
    using selects_union [OF union.prems(1) _ a(2)] union.prems(2) by simp
  then show ?case
    using a(1) col_len_wf [OF union.prems(1), of dbg] union.prems(2)
    by (simp add: repeat_col.simps [of dbg "CUnion arms"] del: nrows.simps)
qed simp

subsection \<open>One row as a value\<close>

lemma single_arm_at:
  assumes "(k, UnionArm r v) \<in> set arms" "r \<noteq> []"
    and "\<And>l r' v'. (l, UnionArm r' v') \<in> set arms \<Longrightarrow> r' \<noteq> [] \<Longrightarrow> l = k \<and> v' = v"
  shows "single_arm dbg arms = map_ok (map_option (VUnion k)) (as_single dbg v)"
  using assms
proof (induction arms)
  case (Cons x arms)
  obtain l r' v' where x: "x = (l, UnionArm r' v')" by (metis UnionArm.exhaust surj_pair)
  show ?case
  proof (cases "r' = []")
    case True
    with Cons.prems(1,2) x have "(k, UnionArm r v) \<in> set arms" by auto
    moreover have "l = k \<and> v' = v" if "(l, UnionArm r' v') \<in> set arms" "r' \<noteq> []" for l r' v'
      using Cons.prems(3) [of l r' v'] that by simp
    ultimately have "single_arm dbg arms = map_ok (map_option (VUnion k)) (as_single dbg v)"
      by (rule Cons.IH [OF _ Cons.prems(2)])
    then show ?thesis using True x by simp
  next
    case False
    moreover have "l = k" "v' = v" using Cons.prems(3) [of l r' v'] x False by simp_all
    ultimately show ?thesis using x by simp
  qed
qed simp

lemma as_single_index:
  "wf_col c \<Longrightarrow> nrows c = 1 \<Longrightarrow> as_single dbg c = map_ok Some (index_at c 0)"
proof (induction c rule: column_induct)
  case (leaf c)
  then show ?case by (cases c) (auto simp: as_single.simps)
next
  case (bindings i b)
  then obtain x y where "index_at i 0 = Inr x" "index_at b 0 = Inr y"
    using index_at_total by (metis less_one nrows.simps(7) wf_col.simps(1))
  with bindings show ?case
    by (simp add: as_single.simps [of dbg "CFunctionBindings i b"] expect_res_def col_len_wf)
next
  case (records fs)
  have "map_res (\<lambda>(k, d). map_ok (Pair k) (expect_res (as_single dbg d))) fs =
      map_res (\<lambda>(k, c). map_ok (Pair k) (index_at c 0)) fs"
  proof (rule map_res_cong [OF refl])
    fix x assume x: "x \<in> set fs"
    obtain k c where kc: "x = (k, c)" by force
    note f = wf_field [OF records.prems(1) x [unfolded kc]]
    then have "as_single dbg c = map_ok Some (index_at c 0)" using records x kc by metis
    moreover obtain v where "index_at c 0 = Inr v" using index_at_total f records.prems(2) by (metis less_one)
    ultimately show "(case x of (k, d) \<Rightarrow> map_ok (Pair k) (expect_res (as_single dbg d))) =
        (case x of (k, c) \<Rightarrow> map_ok (Pair k) (index_at c 0))"
      by (simp add: kc expect_res_def)
  qed
  moreover obtain v where "index_at (CRecords fs) 0 = Inr v"
    using index_at_total [OF records.prems(1), of 0] records.prems(2) by auto
  ultimately show ?case using records.prems
    by (auto simp: as_single.simps [of dbg "CRecords fs"] col_len_wf)
next
  case (union arms)
  have part: "partitions arms" "tags_ok arms" using union.prems(1) by simp_all
  have "0 < nrows (CUnion arms)" using union.prems(2) by simp
  from partition_covers [OF part(1) this] obtain k r v s
    where a: "(k, UnionArm r v) \<in> set arms" "s < length r" "r ! s = 0" by blast
  have "r \<noteq> []" using a(2) by auto
  then have r0: "r = [0]" using single_row_arm [OF union.prems a(1)] by blast
  with a(2) have r: "r = [0]" "s = 0" by simp_all
  have "l = k \<and> v' = v" if m: "(l, UnionArm r' v') \<in> set arms" "r' \<noteq> []" for l r' v'
    using partition_unique [OF part m(1) a(1), of 0] single_row_arm [OF union.prems m] r(1) by simp
  then have "single_arm dbg arms = map_ok (map_option (VUnion k)) (as_single dbg v)"
    using single_arm_at [OF a(1)] r(1) by blast
  moreover have "as_single dbg v = map_ok Some (index_at v 0)"
    using union.IH [OF a(1)] wf_payload [OF union.prems(1) a(1)] r(1) by simp
  moreover have "index_at (CUnion arms) 0 = map_ok (VUnion k) (index_at v 0)"
    using index_union [OF union.prems(1) a(1,2)] r by simp
  moreover have "as_single dbg (CUnion arms) = single_arm dbg arms"
    using col_len_wf [OF union.prems(1), of dbg] union.prems(2)
    by (simp add: as_single.simps [of dbg "CUnion arms"] del: nrows.simps)
  ultimately show ?case by (cases "index_at v 0") simp_all
qed

text \<open>A record value with a field, at every depth, and its fields in key order.\<close>

fun record_ok :: "'f Value \<Rightarrow> bool" where
  "record_ok (VRecord fs) \<longleftrightarrow> fs \<noteq> [] \<and> sorted_wrt (<) (map fst fs) \<and> list_all (\<lambda>(k, v). record_ok v) fs"
| "record_ok _ \<longleftrightarrow> True"

lemma map_fst_map_pair: "map fst (map (\<lambda>(k, v). (k, f v)) xs) = map fst xs"
  by (induction xs) auto

lemma single_column:
  "record_ok v \<Longrightarrow> wf_col (single v) \<and> nrows (single v) = 1 \<and> index_at (single v) 0 = Inr v"
proof (induction v rule: single.induct)
  case (6 fs)
  have each: "wf_col (single v)" "nrows (single v) = 1" "index_at (single v) 0 = Inr v"
    if "(k, v) \<in> set fs" for k v
    using 6 that by (fastforce simp: list_all_iff)+
  have n: "nrows (single (VRecord fs)) = 1"
    using each 6(2) by (cases fs) (auto, metis list.set_intros(1) surj_pair)
  have "map_res (\<lambda>(k, c). map_ok (Pair k) (index_at c 0)) (map (\<lambda>(k, v). (k, single v)) fs) = Inr (map id fs)"
    unfolding map_res_map by (rule map_res_ok) (use each in auto)
  moreover have "sorted_wrt (<) (map fst (map (\<lambda>(k, v). (k, single v)) fs))"
    unfolding map_fst_map_pair using 6(2) by simp
  moreover have "list_all (\<lambda>(k, c). wf_col c \<and> nrows c = 1) (map (\<lambda>(k, v). (k, single v)) fs)"
    using each by (auto simp: list_all_iff)
  ultimately show ?case using n 6(2) by simp
qed simp_all

subsection \<open>Reading a column out\<close>

lemma map_res_upt_index:
  "wf_col c \<Longrightarrow> map_res (index_at c) [0..<nrows c] = Inr (columns.rows_of c)"
proof -
  assume "wf_col c"
  then have "map_res (index_at c) [0..<nrows c] = Inr (map (\<lambda>i. columns.rows_of c ! i) [0..<nrows c])"
    using columns.at_rows_of by (intro map_res_ok) simp
  then show ?thesis using map_nth [of "columns.rows_of c"] by simp
qed

lemma sort_key_graph:
  assumes "\<And>p. p \<in> set ps \<Longrightarrow> snd p = g (fst p)"
  shows "map snd (sort_key fst ps) = map g (sort (map fst ps))"
proof -
  have "mset (map fst (sort_key fst ps)) = mset (map fst ps)" by (simp only: mset_map mset_sort)
  then have "sort (map fst ps) = map fst (sort_key fst ps)"
    by (rule properties_for_sort) simp
  moreover have "map snd (sort_key fst ps) = map g (map fst (sort_key fst ps))"
    using assms by simp
  ultimately show ?thesis by simp
qed

lemma drain_arm:
  assumes "wf_col (CUnion arms)" "(k, arm) \<in> set arms"
  shows "map_res (\<lambda>(row, slot). map_ok (\<lambda>v. (row, VUnion k v)) (index_at (arm_values arm) slot)) (row_slots arm) =
    Inr (map (\<lambda>row. (row, columns.rows_of (CUnion arms) ! row)) (arm_rows arm))"
proof -
  obtain r v where arm: "arm = UnionArm r v" by (cases arm)
  note wfp = wf_payload [OF assms(1) assms(2) [unfolded arm]]
  have "map_ok (\<lambda>w. (r ! s, VUnion k w)) (index_at v s) = Inr (r ! s, columns.rows_of (CUnion arms) ! (r ! s))"
    if s: "s < length r" for s
  proof -
    have "r ! s < nrows (CUnion arms)"
      using rows_below [of arms k arm "r ! s"] assms s arm by simp
    then have "index_at (CUnion arms) (r ! s) = Inr (columns.rows_of (CUnion arms) ! (r ! s))"
      by (rule columns.at_rows_of [OF assms(1)])
    then have "map_ok (VUnion k) (index_at v s) = Inr (columns.rows_of (CUnion arms) ! (r ! s))"
      using index_union [OF assms(1) assms(2) [unfolded arm] s] by simp
    then show ?thesis by (cases "index_at v s") simp_all
  qed
  then have "map_res (\<lambda>(row, slot). map_ok (\<lambda>v. (row, VUnion k v)) (index_at (arm_values arm) slot)) (row_slots arm) =
    Inr (map (\<lambda>s. (r ! s, columns.rows_of (CUnion arms) ! (r ! s))) [0..<length r])"
    unfolding arm row_slots_eq arm_len_def arm_rows.simps arm_values.simps map_res_map by (intro map_res_ok) simp
  also have "map (\<lambda>s. (r ! s, columns.rows_of (CUnion arms) ! (r ! s))) [0..<length r] =
      map (\<lambda>row. (row, columns.rows_of (CUnion arms) ! row)) (arm_rows arm)"
    by (rule nth_equalityI) (simp_all add: arm)
  finally show ?thesis .
qed

lemma drain_rows: "wf_col c \<Longrightarrow> drain_values dbg c = Inr (columns.rows_of c)"
proof (induction c rule: column_induct)
  case (leaf c)
  then show ?case by (cases c) (auto simp: columns.rows_of_def intro!: nth_equalityI)
next
  case (bindings i b)
  have "projr (index_at (CFunctionBindings i b) j) = VFunction [FuncBinding (columns.rows_of i ! j) (columns.rows_of b ! j)]"
    if "j < nrows i" for j
    using that bindings.prems columns.at_rows_of [of i j] columns.at_rows_of [of b j] by simp
  then have "columns.rows_of (CFunctionBindings i b) =
      map (\<lambda>(x, y). VFunction [FuncBinding x y]) (zip (columns.rows_of i) (columns.rows_of b))"
    using bindings.prems by (intro nth_equalityI) (simp_all add: columns.rows_of_def [of "CFunctionBindings i b"])
  with bindings show ?case by simp
next
  case (records fs)
  then obtain k c fs' where fs: "fs = (k, c) # fs'" by (cases fs) auto
  then have "col_len dbg c = Inr (nrows c)" using wf_field [OF records.prems, of k c] by (intro col_len_wf) simp
  with fs have "drain_values dbg (CRecords fs) = map_res (index_at (CRecords fs)) [0..<nrows (CRecords fs)]"
    by (simp cong: map_res_cong)
  then show ?case using map_res_upt_index [OF records.prems] by simp
next
  case (union arms)
  let ?g = "\<lambda>row. columns.rows_of (CUnion arms) ! row"
  have "drain_values dbg (CUnion arms) =
      Inr (map snd (sort_key fst (concat (map (\<lambda>(k, arm). map (\<lambda>row. (row, ?g row)) (arm_rows arm)) arms))))"
    using map_res_ok [of arms "\<lambda>(k, arm). map_res (\<lambda>(row, slot).
          map_ok (\<lambda>v. (row, VUnion k v)) (index_at (arm_values arm) slot)) (row_slots arm)"
        "\<lambda>(k, arm). map (\<lambda>row. (row, ?g row)) (arm_rows arm)"] drain_arm [OF union.prems]
    by (auto simp: split_def)
  also have "map snd (sort_key fst (concat (map (\<lambda>(k, arm). map (\<lambda>row. (row, ?g row)) (arm_rows arm)) arms))) =
      map ?g (sort (map fst (concat (map (\<lambda>(k, arm). map (\<lambda>row. (row, ?g row)) (arm_rows arm)) arms))))"
    by (rule sort_key_graph) auto
  also have "map fst (concat (map (\<lambda>(k, arm). map (\<lambda>row. (row, ?g row)) (arm_rows arm)) arms)) =
      concat (map (\<lambda>(k, arm). arm_rows arm) arms)"
    by (simp add: map_concat comp_def split_def)
  also have "sort (concat (map (\<lambda>(k, arm). arm_rows arm) arms)) = [0..<nrows (CUnion arms)]"
    using union.prems by (simp add: partitions_def Let_def sum_arm_len)
  also have "map ?g [0..<nrows (CUnion arms)] = columns.rows_of (CUnion arms)"
    using map_nth [of "columns.rows_of (CUnion arms)"] by simp
  finally show ?case .
qed

subsection \<open>Cartesian products\<close>

text \<open>The rows a product row combines, one per column: the digits of its number, the last column
  varying fastest.\<close>

fun digits :: "nat list \<Rightarrow> nat \<Rightarrow> nat list" where
  "digits [] i = []"
| "digits (l # ls) i = (i div prod_list ls) mod l # digits ls i"

lemma length_digits [simp]: "length (digits ls i) = length ls"
  by (induction ls) auto

lemma digits_shift: "digits ls (q * prod_list ls + r) = digits ls r"
proof (induction ls arbitrary: q)
  case (Cons l ls)
  have "(q * (l * prod_list ls) + r) div prod_list ls mod l = r div prod_list ls mod l"
  proof (cases "prod_list ls = 0")
    case False
    have "q * (l * prod_list ls) + r = r + (q * l) * prod_list ls" by (simp add: algebra_simps)
    then have "(q * (l * prod_list ls) + r) div prod_list ls = q * l + r div prod_list ls"
      using False by (simp only: div_mult_self1 not_False_eq_True)
    then show ?thesis by simp
  qed simp
  moreover have "digits ls (q * (l * prod_list ls) + r) = digits ls r"
    using Cons.IH [of "q * l"] by (simp add: mult.assoc)
  ultimately show ?case by simp
qed simp

lemma digits_inj:
  "i < prod_list ls \<Longrightarrow> j < prod_list ls \<Longrightarrow> digits ls i = digits ls j \<Longrightarrow> i = j"
proof (induction ls arbitrary: i j)
  case (Cons l ls)
  let ?p = "prod_list ls"
  have p: "0 < ?p" using Cons.prems(1) by (cases ?p) auto
  have low: "digits ls (k mod ?p) = digits ls k" for k
    using digits_shift [of ls "k div ?p" "k mod ?p"] by simp
  have "i div ?p < l" "j div ?p < l"
    using Cons.prems(1,2) by (simp_all add: less_mult_imp_div_less)
  then have "i div ?p = j div ?p" using Cons.prems(3) by simp
  moreover have "i mod ?p = j mod ?p"
    using Cons.IH [of "i mod ?p" "j mod ?p"] p Cons.prems(3) low by simp
  ultimately show ?case by (metis div_mult_mod_eq)
qed simp

lemma digits_surj:
  "list_all2 (<) ps ls \<Longrightarrow> \<exists>i < prod_list ls. digits ls i = ps"
proof (induction ps ls rule: list_all2_induct)
  case (Cons p ps l ls)
  then obtain i where i: "i < prod_list ls" "digits ls i = ps" by blast
  have "p * prod_list ls + i < Suc p * prod_list ls" using i(1) by simp
  also have "\<dots> \<le> l * prod_list ls" using Cons(1) by (intro mult_le_mono1) simp
  finally have "p * prod_list ls + i < prod_list (l # ls)" by simp
  moreover have "digits (l # ls) (p * prod_list ls + i) = p # ps"
    using i Cons(1) by (simp add: digits_shift)
  ultimately show ?case by blast
qed simp

lemma product_index_ok:
  "0 \<notin> set lens \<Longrightarrow> lens \<noteq> [] \<Longrightarrow>
     product_index lens i = Inr (digits lens i ! 0) \<and> digits lens i ! 0 < hd lens"
  by (cases lens) (auto simp: product_index_def prod_list_zero_iff)

lemma product_fields_ok:
  assumes "list_all (\<lambda>(k, c). wf_col c) fs" "n = 0 \<or> 0 \<notin> set (map (\<lambda>(k, c). nrows c) fs)"
  shows "\<exists>gs. product_fields dbg n (map (\<lambda>(k, c). nrows c) fs) fs = Inr gs \<and> map fst gs = map fst fs \<and>
    (\<forall>j < length fs. selects (snd (fs ! j))
       (map (\<lambda>i. digits (map (\<lambda>(k, c). nrows c) fs) i ! j) [0..<n]) (snd (gs ! j)))"
  using assms
proof (induction fs)
  case (Cons f fs)
  obtain k c where f: "f = (k, c)" by force
  let ?ls = "map (\<lambda>(k, c). nrows c) fs"
  let ?is = "map (\<lambda>i. digits (nrows c # ?ls) i ! 0) [0..<n]"
  have pos: "0 \<notin> set (nrows c # ?ls)" if "i < n" for i using Cons.prems(2) that f by force
  have idx: "map_res (product_index (nrows c # ?ls)) [0..<n] = Inr ?is"
    using product_index_ok [OF pos] by (intro map_res_ok) simp
  have lt: "i < nrows c" if "i \<in> set ?is" for i using that product_index_ok [OF pos] by force
  have wf: "wf_col c" using Cons.prems(1) f by simp
  have "\<exists>d. select_indices dbg c ?is (length ?is) = Inr d \<and> selects c ?is d"
    by (rule select_rows [OF wf]) (rule lt)
  moreover have "length ?is = n" by simp
  ultimately obtain d where d: "select_indices dbg c ?is n = Inr d" "selects c ?is d" by metis
  have "list_all (\<lambda>(k, c). wf_col c) fs" "n = 0 \<or> 0 \<notin> set (map (\<lambda>(k, c). nrows c) fs)"
    using Cons.prems by (simp_all only: list.simps(9) list.pred_inject set_simps insert_iff de_Morgan_disj) blast+
  from Cons.IH [OF this] obtain gs where gs: "product_fields dbg n ?ls fs = Inr gs" "map fst gs = map fst fs"
    "\<forall>j < length fs. selects (snd (fs ! j)) (map (\<lambda>i. digits ?ls i ! j) [0..<n]) (snd (gs ! j))" by blast
  have "selects (snd ((f # fs) ! j)) (map (\<lambda>i. digits (map (\<lambda>(k, c). nrows c) (f # fs)) i ! j) [0..<n])
      (snd (((k, d) # gs) ! j))" if "j < length (f # fs)" for j
    using that gs(3) d(2) f by (cases j) simp_all
  moreover have "product_fields dbg n (map (\<lambda>(k, c). nrows c) (f # fs)) (f # fs) = Inr ((k, d) # gs)"
    using idx d(1) gs(1) f by simp
  ultimately show ?case using gs(2) f by (intro exI [of _ "(k, d) # gs"]) simp
qed simp

lemma product_row:
  assumes "length gs = length fs" "map fst gs = map fst fs" "length ps = length fs"
    "\<And>j. j < length fs \<Longrightarrow> index_at (snd (gs ! j)) i = index_at (snd (fs ! j)) (ps ! j)"
  shows "map_res (\<lambda>(k, c). map_ok (Pair k) (index_at c i)) gs =
    map_res (\<lambda>((k, c), p). map_ok (Pair k) (index_at c p)) (zip fs ps)"
  using assms
proof (induction gs fs arbitrary: ps rule: list_induct2)
  case (Cons g gs f fs)
  then obtain p ps' where ps: "ps = p # ps'" by (cases ps) auto
  have "map_res (\<lambda>(k, c). map_ok (Pair k) (index_at c i)) gs =
      map_res (\<lambda>((k, c), p). map_ok (Pair k) (index_at c p)) (zip fs ps')"
    using Cons.prems(1,2) Cons.prems(3) [of "Suc _"] ps by (intro Cons.IH) simp_all
  moreover have "index_at (snd g) i = index_at (snd f) p" "fst g = fst f"
    using Cons.prems(1) Cons.prems(3) [of 0] ps by simp_all
  ultimately show ?case by (simp add: ps split_def split: sum.splits)
qed simp

lemma cartesian_product_ok:
  assumes "fs \<noteq> []" "sorted_wrt (<) (map fst fs)" "list_all (\<lambda>(k, c). wf_col c) fs"
  defines "lens \<equiv> map (\<lambda>(k, c). nrows c) fs"
  shows "\<exists>d. cartesian_product dbg fs = Inr d \<and> wf_col d \<and> nrows d = prod_list lens \<and>
    (\<forall>i < prod_list lens. index_at d i =
       map_ok VRecord (map_res (\<lambda>((k, c), p). map_ok (Pair k) (index_at c p)) (zip fs (digits lens i))))"
proof -
  let ?n = "prod_list lens"
  have "?n = 0 \<or> 0 \<notin> set (map (\<lambda>(k, c). nrows c) fs)" by (simp only: lens_def prod_list_zero_iff) blast
  from product_fields_ok [OF assms(3) this, of dbg] obtain gs where
    gs: "product_fields dbg ?n lens fs = Inr gs" "map fst gs = map fst fs"
    "\<And>j. j < length fs \<Longrightarrow> selects (snd (fs ! j)) (map (\<lambda>i. digits lens i ! j) [0..<?n]) (snd (gs ! j))"
    unfolding lens_def by blast
  have len: "length gs = length fs" using gs(2) by (metis length_map)
  have "map_res (\<lambda>(k, c). col_len dbg c) fs = Inr lens"
    unfolding lens_def using assms(3) by (intro map_res_ok) (auto simp: list_all_iff col_len_wf)
  then have run: "cartesian_product dbg fs = Inr (CRecords gs)"
    using assms(1) gs(1) by (simp add: cartesian_product_def)
  have each: "wf_col d" "nrows d = ?n" if m: "(l, d) \<in> set gs" for l d
  proof -
    obtain j where "j < length gs" "gs ! j = (l, d)" using m by (metis in_set_conv_nth)
    with gs(3) [of j] len show "wf_col d" "nrows d = ?n" by (simp_all add: selects_def)
  qed
  obtain l d gs' where "gs = (l, d) # gs'" using len assms(1) by (cases gs) auto
  with each(2) [of l d] have n: "nrows (CRecords gs) = ?n" by simp
  have "wf_col (CRecords gs)" using n each len gs(2) assms(1,2) by (auto simp: list_all_iff)
  moreover have "index_at (CRecords gs) i =
      map_ok VRecord (map_res (\<lambda>((k, c), p). map_ok (Pair k) (index_at c p)) (zip fs (digits lens i)))"
    if "i < ?n" for i
    using product_row [OF len gs(2), of "digits lens i" i] gs(3) that
    by (simp add: selects_def) (simp add: lens_def)
  ultimately show ?thesis using run n by blast
qed

subsection \<open>Mapping through a table\<close>

lemma key_positions_ok:
  assumes "\<And>k. k \<in> set ks \<Longrightarrow> k \<in> set mk"
  shows "\<exists>is. key_positions mk ks = Inr is \<and>
    list_all2 (\<lambda>k i. i < length mk \<and> mk ! i = k \<and> (\<forall>i'. i < i' \<and> i' < length mk \<longrightarrow> mk ! i' \<noteq> k)) ks is"
  unfolding key_positions_def
proof (rule map_res_exists)
  fix k assume "k \<in> set ks"
  with assms obtain i where i: "rposition (\<lambda>x. x = k) mk = Some i"
    using rposition_None [of "\<lambda>x. x = k" mk] by auto
  note last = rposition_Some [OF i]
  have "mk ! i' \<noteq> k" if "i < i'" "i' < length mk" for i'
  proof -
    have "mk ! i' = drop (Suc i) mk ! (i' - Suc i)" using that by simp
    also have "\<dots> \<in> set (drop (Suc i) mk)" using that by (intro nth_mem) simp
    finally show ?thesis using last by blast
  qed
  with i last show "\<exists>y. (case rposition (\<lambda>x. x = k) mk of None \<Rightarrow> Inl OutOfRange | Some i \<Rightarrow> Inr i) = Inr y \<and>
      y < length mk \<and> mk ! y = k \<and> (\<forall>i'. y < i' \<and> i' < length mk \<longrightarrow> mk ! i' \<noteq> k)"
    by auto
qed

lemma rposition_map: "inj f \<Longrightarrow> rposition (\<lambda>x. x = f k) (map f xs) = rposition (\<lambda>x. x = k) xs"
  by (induction xs) (auto simp: inj_eq)

lemma key_positions_map: "inj f \<Longrightarrow> key_positions (map f mk) (map f ks) = key_positions mk ks"
  by (simp add: key_positions_def map_res_map rposition_map)

lemma rows_of_leaf:
  "columns.rows_of (CBools b) = map VBool b" "columns.rows_of (CInts s) = map VInt s"
  "columns.rows_of (CUInts u) = map VUInt u" "columns.rows_of (CStrings t) = map VString t"
  "columns.rows_of (CVariants v) = map (\<lambda>v. v) v"
  by (auto simp: columns.rows_of_def intro!: nth_equalityI)

text \<open>The columns whose rows can be looked up in a table, and the columns their keys may be in.\<close>

fun key_columns :: "'f ColumnValue \<Rightarrow> 'f ColumnValue \<Rightarrow> bool" where
  "key_columns (CUInts _) (CUInts _) \<longleftrightarrow> True"
| "key_columns (CInts _) (CInts _) \<longleftrightarrow> True"
| "key_columns (CStrings _) (CStrings _) \<longleftrightarrow> True"
| "key_columns (CBools _) (CBools _) \<longleftrightarrow> True"
| "key_columns (CVariants _) (CVariants _) \<longleftrightarrow> True"
| "key_columns (CRecords _) (CRecords _) \<longleftrightarrow> True"
| "key_columns (CUnion _) (CUnion _) \<longleftrightarrow> True"
| "key_columns _ _ \<longleftrightarrow> False"

lemma column_values_wf: "wf_col c \<Longrightarrow> column_values dbg c = Inr (columns.rows_of c)"
  by (simp add: column_values_def col_len_wf map_res_upt_index)

lemma transform_by_map_eq:
  assumes "wf_col ks" "wf_col mk" "key_columns ks mk"
  shows "transform_by_map dbg ks mk mv =
    bind_res (key_positions (columns.rows_of mk) (columns.rows_of ks))
      (\<lambda>is. map_ok (Pair (drained ks)) (select_indices dbg mv is (length is)))"
  using assms(3,1,2)
proof (induction ks mk rule: key_columns.induct)
  case (6 fs gs)
  then show ?case
    using column_values_wf [of "CRecords fs" dbg] column_values_wf [of "CRecords gs" dbg]
    by (simp add: transform_by_map_def)
next
  case (7 as bs)
  then show ?case
    using column_values_wf [of "CUnion as" dbg] column_values_wf [of "CUnion bs" dbg]
    by (simp add: transform_by_map_def)
qed (simp_all add: transform_by_map_def rows_of_leaf key_positions_map inj_def)

lemma transform_by_map_ok:
  assumes wf: "wf_col ks" "wf_col mk" "wf_col mv" and "key_columns ks mk" "nrows mk = nrows mv"
    and keys: "\<And>j. j < nrows ks \<Longrightarrow> \<exists>i < nrows mk. index_at mk i = index_at ks j"
  shows "\<exists>d. transform_by_map dbg ks mk mv = Inr (drained ks, d) \<and> wf_col d \<and> nrows d = nrows ks \<and>
    (\<forall>j < nrows ks. \<exists>i < nrows mk. index_at mk i = index_at ks j \<and> index_at d j = index_at mv i \<and>
       (\<forall>i'. i < i' \<and> i' < nrows mk \<longrightarrow> index_at mk i' \<noteq> index_at ks j))"
proof -
  let ?m = "columns.rows_of mk" and ?k = "columns.rows_of ks"
  note at = columns.at_rows_of [OF wf(1)] columns.at_rows_of [OF wf(2)]
  have "k \<in> set ?m" if "k \<in> set ?k" for k
  proof -
    from that obtain j where j: "j < nrows ks" "?k ! j = k" by (metis columns.length_rows_of in_set_conv_nth)
    with keys obtain i where "i < nrows mk" "index_at mk i = index_at ks j" by blast
    with j at have "?m ! i = k" "i < length ?m" by simp_all
    then show ?thesis using nth_mem by blast
  qed
  from key_positions_ok [OF this] obtain "is" where pos: "key_positions ?m ?k = Inr is"
    "list_all2 (\<lambda>k i. i < length ?m \<and> ?m ! i = k \<and> (\<forall>i'. i < i' \<and> i' < length ?m \<longrightarrow> ?m ! i' \<noteq> k)) ?k is" by blast
  have len: "length is = nrows ks" using pos(2) list_all2_lengthD by fastforce
  have nth: "is ! j < nrows mk" "?m ! (is ! j) = ?k ! j"
    "\<And>i'. is ! j < i' \<Longrightarrow> i' < nrows mk \<Longrightarrow> ?m ! i' \<noteq> ?k ! j" if "j < nrows ks" for j
    using list_all2_nthD [OF pos(2), of j] that by simp_all
  have "i < nrows mv" if "i \<in> set is" for i
    using that nth(1) len assms(5) by (metis in_set_conv_nth)
  then obtain d where d: "select_indices dbg mv is (length is) = Inr d" "selects mv is d"
    using select_rows [OF wf(3)] by blast
  have "\<exists>i < nrows mk. index_at mk i = index_at ks j \<and> index_at d j = index_at mv i \<and>
      (\<forall>i'. i < i' \<and> i' < nrows mk \<longrightarrow> index_at mk i' \<noteq> index_at ks j)" if "j < nrows ks" for j
    using nth [OF that] at that d(2) len by (intro exI [of _ "is ! j"]) (simp add: selects_def)
  moreover have "transform_by_map dbg ks mk mv = Inr (drained ks, d)"
    using transform_by_map_eq [OF wf(1,2) assms(4)] pos(1) d(1) by simp
  ultimately show ?thesis using d(2) len by (simp add: selects_def)
qed

subsection \<open>Properties\<close>

text \<open>One value as a column of one row, read back.\<close>

lemma as_single_single: "record_ok v \<Longrightarrow> as_single dbg (single v) = Inr (Some v)"
  using single_column [of v] as_single_index [of "single v" dbg] by simp


definition sample_fields :: "(utext \<times> unit ColumnValue) list" where
  "sample_fields = [(lit ''a'', CInts [1, 2]), (lit ''b'', sample_union)]"

lemma sample_fields_ok:
  "sample_fields \<noteq> []" "sorted_wrt (<) (map fst sample_fields)" "list_all (\<lambda>(k, c). wf_col c) sample_fields"
  "prod_list (map (\<lambda>(k, c). nrows c) sample_fields) = 6"
  by code_simp+


text \<open>Mapping a key column through a table gives, at each row, the table's value at the last
  position that holds the key, and leaves the key column empty. It holds for every kind of key column,
  records and unions included, when each key occurs in the table.\<close>
lemma transform_by_map_rows:
  assumes "wf_col ks" "wf_col mk" "wf_col mv" "key_columns ks mk" "nrows mk = nrows mv"
    and "\<forall>j < nrows ks. \<exists>i < nrows mk. index_at mk i = index_at ks j"
  shows "\<exists>d. transform_by_map dbg ks mk mv = Inr (drained ks, d) \<and> wf_col d \<and> nrows d = nrows ks \<and>
    (\<forall>j < nrows ks. \<exists>i < nrows mk. index_at mk i = index_at ks j \<and> index_at d j = index_at mv i \<and>
       (\<forall>i'. i < i' \<and> i' < nrows mk \<longrightarrow> index_at mk i' \<noteq> index_at ks j))"
  using transform_by_map_ok [OF assms(1-5)] assms(6) by blast

text \<open>Draining a well-formed column yields its rows in order, also for a union, whose rows are
  scattered over its arms, and leaves the column without rows.\<close>
lemma drain_to_value_iter_rows:
  assumes "wf_col c"
  shows "\<exists>vs. drain_to_value_iter dbg c = Inr (vs, drained c) \<and> length vs = nrows c \<and>
    (\<forall>i < nrows c. index_at c i = Inr (vs ! i)) \<and> nrows (drained c) = 0"
proof -
  have "nrows (drained c) = 0" by (induction c rule: drained.induct) (simp_all add: TagMap_new_def)
  then show ?thesis using drain_rows [OF assms] columns.at_rows_of [OF assms]
    by (simp add: drain_to_value_iter_def)
qed

end
