(* ===== verification/Syntax_Tree.thy ===== *)
theory Syntax_Tree
  imports Module_Paths
begin

section \<open>The syntax tree\<close>

text \<open>
  The tree of \<open>chl-parser/src/ast.rs\<close> and its methods. A constructor \<open>S_X\<close> is \<open>Stmt::X\<close>, \<open>E_X\<close>
  is \<open>Expr::X\<close> and \<open>A_X\<close> is \<open>AssignTarget::X\<close>. A type that a statement or an expression holds and
  that holds expressions or statements itself takes them as a type parameter, so that the tree is one
  recursion over \<open>Stmt\<close> and \<open>Expr\<close>. A \<open>Box\<close> is the value it holds.
\<close>

subsection \<open>Names and operators\<close>

type_synonym name_sp = "utext Spanned"

record WrittenPath =
  wp_segments :: "name_sp list"

record UseItem =
  ui_name :: name_sp
  ui_alias :: "name_sp option"

record QualifiedName =
  qn_qualifier :: "name_sp list"
  qn_name :: name_sp

datatype DiscardHead = D_Name name_sp | D_Run (dr_path: WrittenPath) (dr_alias: "name_sp option")

record ConstructorPattern =
  cp_type_path :: "name_sp list"
  cp_ctor :: name_sp
  cp_binders :: "utext option Spanned list option"

datatype PayloadPattern = P_Named utext | P_Ignored | P_Absent

record MatchPattern =
  mp_tag :: utext
  mp_tag_span :: Span
  mp_tag_qualifier :: "name_sp list"
  mp_payload :: PayloadPattern

datatype ArmPattern = Arm_Tag MatchPattern | Arm_Constructor ConstructorPattern

fun as_tag :: "ArmPattern \<Rightarrow> MatchPattern option" where
  "as_tag (Arm_Tag p) = Some p"
| "as_tag (Arm_Constructor _) = None"

datatype AnnotationMode = AM_Exact | AM_Bounded

datatype BindingTransparency = BT_Transparent | BT_Opaque

datatype Lit = L_Int i64 | L_String utext | L_Bool bool

datatype EntryForm = EF_Annotated | EF_Exact | EF_Bounded

datatype BinOp =
    B_Add | B_AddRefined | B_Sub | B_Mul | B_FloorDiv | B_Pow | B_LogicalAnd | B_LogicalOr
  | B_LogicalXor | B_CollectionUnion

datatype UnaryOp = U_Neg | U_Not

datatype BoolOp = Bool_And | Bool_Or

datatype CmpOp = Cmp_Eq | Cmp_NotEq | Cmp_Lt | Cmp_LtE | Cmp_Gt | Cmp_GtE

datatype AugOp = Aug_Add | Aug_Sub | Aug_Mul | Aug_FloorDiv

datatype Arrow = Arrow_Compute | Arrow_Data

subsection \<open>The parts of statements and expressions\<close>

datatype (plugins only: code size) 'e TypeAnnotation =
  TypeAnnotation (ta_mode: AnnotationMode) (ta_ty: "'e Spanned")

datatype (plugins only: code size) 'e KindAnnotation = K_Kind "'e Spanned" | K_Bound "'e Spanned"

datatype (plugins only: code size) 'e TypeParam =
  TypeParam (tp_name: utext) (tp_name_span: Span) (tp_annotation: "'e KindAnnotation option")

datatype (plugins only: code size) 'e Param =
  Param (pm_name: utext) (pm_name_span: Span) (pm_annotation: "'e TypeAnnotation option")

datatype (plugins only: code size) 'e TraitType =
  TraitType (tt_qualifier: "name_sp list") (tt_name: utext) (tt_name_span: Span) (tt_args: "'e Spanned list")

datatype (plugins only: code size) 'e Requirement =
    R_Trait "name_sp option" "'e TraitType"
  | R_Bound name_sp name_sp "'e Spanned"
  | R_Subtype "'e Spanned" "'e Spanned"
  | R_Forall "(name_sp \<times> 'e Spanned) list" "'e Requirement Spanned list"

datatype (plugins only: code size) 'e AssocArg =
  AssocArg (aa_name: utext) (aa_name_span: Span) (aa_value: "'e Spanned")

datatype (plugins only: code size) 'e AssignTarget =
    A_Name utext
  | A_Tuple "'e AssignTarget Spanned list"
  | A_Subscript "'e Spanned" "'e Spanned"
  | A_Qualified QualifiedName
  | A_Constructor ConstructorPattern

datatype (plugins only: code size) 'e KeywordArg =
  KeywordArg (ka_name: name_sp) (ka_value: "'e Spanned")

datatype (plugins only: code size) ('e, 's) IfBranch =
  IfBranch (ib_cond: "'e Spanned") (ib_body: "'s Spanned list")

datatype (plugins only: code size) 's MatchArm =
  MatchArm (ma_pattern: "ArmPattern option") (ma_body: "'s Spanned list")

datatype (plugins only: code size) 'e ConstructorParam =
  ConstructorParam (cpm_name: "name_sp option") (cpm_ty: "'e Spanned")

datatype (plugins only: code size) 'e Constructor =
  Constructor (ct_name: name_sp) (ct_params: "'e ConstructorParam list")

datatype (plugins only: code size) 'e TypeDeclBody =
  TB_Constructors "'e Constructor list" | TB_Single "'e Spanned"

datatype (plugins only: code size) 'e TypeDecl =
  TypeDecl (td_name: name_sp) (td_params: "'e TypeParam list") (td_body: "'e TypeDeclBody")

datatype (plugins only: code size) ('e, 's) ImplBlock =
  ImplBlock (im_vars: "name_sp list") (im_qualifier: "name_sp list") (im_ty: name_sp)
    (im_args: "'e Spanned list") (im_assoc: "'e AssocArg list")
    (im_requires: "'e Requirement Spanned list") (im_defs: "'s Spanned list")

datatype (plugins only: code size) 'e FunctionSignature =
  FunctionSignature (fs_name: name_sp) (fs_type_params: "'e TypeParam list") (fs_params: "'e Param list")
    (fs_output: "'e Spanned option") (fs_requires: "'e Requirement Spanned list")

datatype (plugins only: code size) 'e TraitItem =
    TI_AssocType name_sp "'e Spanned option"
  | TI_Function "'e FunctionSignature Spanned"

datatype (plugins only: code size) 'e TraitDecl =
  TraitDecl (tr_name: name_sp) (tr_params: "name_sp list") (tr_requires: "'e Requirement Spanned list")
    (tr_items: "'e TraitItem list")

datatype (plugins only: code size) 'e VariantPayload = VP_Term "'e Spanned" | VP_Fields "'e Spanned"

datatype (plugins only: code size) 'e RecordField =
  RecordField (rf_name: utext) (rf_name_span: Span) (rf_qualifier: "name_sp list") (rf_value: "'e Spanned")

datatype (plugins only: code size) 'e ModuleTypeEntry =
  ModuleTypeEntry (me_name: utext) (me_name_span: Span) (me_qualifier: "name_sp list") (me_form: EntryForm)
    (me_value: "'e Spanned")

datatype (plugins only: code size) 'e CompClause = CC_For "'e AssignTarget Spanned" "'e Spanned" | CC_If "'e Spanned"

datatype (plugins only: code size) 'e Comprehension =
  Comprehension (cm_element: "'e Spanned") (cm_clauses: "'e CompClause list")

subsection \<open>Statements and expressions\<close>

datatype (plugins only: code size) Stmt =
    S_Expr "Expr Spanned"
  | S_Assign "Expr AssignTarget Spanned" "Expr Spanned" BindingTransparency
  | S_AnnAssign "Expr AssignTarget Spanned" "Expr TypeAnnotation" "Expr Spanned"
  | S_Declare "Expr AssignTarget Spanned" "Expr TypeAnnotation"
  | S_AugAssign "Expr AssignTarget Spanned" AugOp "Expr Spanned"
  | S_MutAssign "Expr AssignTarget Spanned" "Expr TypeAnnotation option" "Expr Spanned"
  | S_LoadFrom "Expr AssignTarget Spanned" "Expr TypeAnnotation" name_sp
  | S_Define "Expr AssignTarget Spanned" "Expr Spanned"
  | S_If "(Expr, Stmt) IfBranch list" "Stmt Spanned list option"
  | S_Match "Expr Spanned" "Stmt MatchArm list"
  | S_For "Expr AssignTarget Spanned" "Expr Spanned" "Stmt Spanned list"
  | S_FunctionDef "name_sp option" name_sp "Expr TypeParam list" "Expr Param list" "Expr Spanned option"
      "Expr Requirement Spanned list" "Stmt Spanned list"
  | S_TypeDecl "Expr TypeDecl"
  | S_Impl "(Expr, Stmt) ImplBlock"
  | S_Instance "(Expr, Stmt) ImplBlock"
  | S_TraitDecl "Expr TraitDecl"
  | S_With "utext option" "Expr Spanned" "Stmt Spanned list"
  | S_Return "Expr Spanned option"
  | S_Import WrittenPath "Expr KeywordArg list" "name_sp option" "UseItem list"
  | S_Run WrittenPath "Expr KeywordArg list" "name_sp option" "UseItem list" "name_sp option"
  | S_Param name_sp "Expr TypeAnnotation option" "Expr Spanned option" "Span option"
  | S_Discard DiscardHead
  | S_Pub Span "Stmt Spanned"
  | S_Pass
  | S_Error
and Expr =
    E_Lit Lit
  | E_Name utext
  | E_Qualified QualifiedName
  | E_Summon "Expr TraitType Spanned" name_sp
  | E_BinOp "Expr Spanned" BinOp "Expr Spanned"
  | E_UnaryOp UnaryOp "Expr Spanned"
  | E_BoolOp BoolOp "Expr Spanned list"
  | E_Compare "Expr Spanned" "CmpOp list" "Expr Spanned list"
  | E_Call "Expr Spanned" "Expr Spanned list"
  | E_MethodCall "Expr Spanned" name_sp "Expr Spanned list"
  | E_List "Expr Spanned list"
  | E_Tuple "Expr Spanned list"
  | E_Record "Expr RecordField list"
  | E_BraceRecord "Expr RecordField list"
  | E_ModuleType "Expr ModuleTypeEntry list"
  | E_BraceGroup "Expr Spanned list"
  | E_Rest
  | E_BraceRefinement "Expr Spanned" "Expr Spanned"
  | E_FunctionType "Expr Spanned" Arrow "Expr Spanned"
  | E_Subscript "Expr Spanned" "Expr Spanned" bool
  | E_Attribute "Expr Spanned" utext Span "name_sp list"
  | E_VariantCtor utext Span "name_sp list" "Expr VariantPayload option"
  | E_Lambda "Expr Param list" "Expr Spanned"
  | E_Forall "Expr TypeParam list" "Expr Spanned" "Expr Requirement Spanned list"
  | E_TypeBinder name_sp "Expr Spanned"
  | E_IfExp "Expr Spanned" "Expr Spanned" "Expr Spanned"
  | E_ListComp "Expr Comprehension"
  | E_GenExp "Expr Comprehension"
  | E_Yield "Expr Spanned"
  | E_Feed "Expr Spanned" "Expr Spanned"
  | E_Block "Stmt Spanned"
  | E_Error

record Module =
  md_file :: FileId
  md_body :: "Stmt Spanned list"

subsection \<open>Methods\<close>

lemma size_spn_node [termination_simp]: "f (spn_node x) < size_Spanned f x"
  by (cases x) simp

lemma size_spn_node_set [termination_simp]: "x \<in> set xs \<Longrightarrow> f (spn_node x) < Suc (size_list (size_Spanned f) xs)"
proof (induction xs)
  case (Cons y ys)
  then show ?case using size_spn_node [of f y] by auto
qed simp

text \<open>\<open>WrittenPath::span\<close>, whose \<open>expect\<close>s and whose join of two files are panics, and
  \<open>WrittenPath::to_path\<close>.\<close>

definition written_span :: "bool \<Rightarrow> WrittenPath \<Rightarrow> Span res" where
  "written_span dbg wp =
     (if wp_segments wp = [] then Inl ExpectFailed
      else Span_join dbg (spn_span (hd (wp_segments wp))) (spn_span (last (wp_segments wp))))"

definition to_path :: "lexer \<Rightarrow> bool \<Rightarrow> WrittenPath \<Rightarrow> ModulePath option res" where
  "to_path next_tok dbg wp =
     (if list_all (\<lambda>s. segment_error next_tok (spn_node s) = None) (wp_segments wp)
      then map_ok Some (ModulePath_new next_tok dbg (map spn_node (wp_segments wp)))
      else Inr None)"

definition wildcard :: utext where
  "wildcard = lit ''_''"

text \<open>\<open>AssignTarget::bound_names\<close>: the names are pushed on a list in the order of the walk.\<close>

fun collect_bound_names :: "'e AssignTarget \<Rightarrow> utext list \<Rightarrow> utext list" where
  "collect_bound_names (A_Name name) names = (if name \<noteq> wildcard then names @ [name] else names)"
| "collect_bound_names (A_Tuple components) names =
     fold (\<lambda>c names. collect_bound_names (spn_node c) names) components names"
| "collect_bound_names (A_Constructor pattern) names =
     names @ List.map_filter spn_node (concat (case cp_binders pattern of None \<Rightarrow> [] | Some bs \<Rightarrow> [bs]))"
| "collect_bound_names (A_Subscript _ _) names = names"
| "collect_bound_names (A_Qualified _) names = names"

definition bound_names :: "'e AssignTarget \<Rightarrow> utext list" where
  "bound_names t = collect_bound_names t []"

text \<open>\<open>Expr::is_variant_arms\<close>.\<close>

fun is_variant_arms :: "Expr \<Rightarrow> bool" where
  "is_variant_arms (E_VariantCtor _ _ _ _) = True"
| "is_variant_arms (E_BinOp left B_LogicalOr right) =
     (is_variant_arms (spn_node left) \<and> is_variant_arms (spn_node right))"
| "is_variant_arms _ = False"

end
