(* ===== verification/Parse_Actions.thy ===== *)
theory Parse_Actions
  imports Syntax_Tree
begin

section \<open>What the parser does with what it has parsed\<close>

text \<open>
  The functions of \<open>chl-parser/src/parser.rs\<close> that the grammar's actions call: the narrowing of an
  expression to an assignment target, the statement an assignment builds, the split of a parameter list
  and the refusals of \<open>pub\<close> and \<open>const\<close>. The grammar itself is written in the combinators of a
  parsing library. A \<open>Rich::custom\<close> error is its span and its message.
\<close>

type_synonym 'a actioned = "(Span \<times> utext) + 'a"

definition ticked :: "utext \<Rightarrow> utext" where
  "ticked s = [96] @ s @ [96]"

subsection \<open>Assignment targets\<close>

fun call_binders :: "Expr Spanned list \<Rightarrow> Span + utext option Spanned list" where
  "call_binders [] = Inr []"
| "call_binders (arg # args) =
     (case spn_node arg of
        E_Name n \<Rightarrow>
          (case call_binders args of
             Inl bad \<Rightarrow> Inl bad
           | Inr bs \<Rightarrow> Inr (Spanned_new (spn_span arg) (if n \<noteq> wildcard then Some n else None) # bs))
      | _ \<Rightarrow> Inl (spn_span arg))"

function (sequential) expr_to_assign_target :: "Expr Spanned \<Rightarrow> Span + Expr AssignTarget Spanned"
and expr_to_assign_targets :: "Expr Spanned list \<Rightarrow> Span + Expr AssignTarget Spanned list" where
  "expr_to_assign_target (Spanned span (E_Name name)) = Inr (Spanned_new span (A_Name name))"
| "expr_to_assign_target (Spanned span (E_Tuple elts)) =
     (case expr_to_assign_targets elts of
        Inl bad \<Rightarrow> Inl bad
      | Inr out \<Rightarrow> Inr (Spanned_new span (A_Tuple out)))"
| "expr_to_assign_target (Spanned span (E_Subscript target index True)) =
     Inr (Spanned_new span (A_Subscript target index))"
| "expr_to_assign_target (Spanned span (E_Qualified q)) = Inr (Spanned_new span (A_Qualified q))"
| "expr_to_assign_target (Spanned span (E_Call func args)) =
     (case spn_node func of
        E_Qualified q \<Rightarrow>
          if qn_qualifier q = [] \<or> args = [] then Inl span
          else (case call_binders args of
                  Inl bad \<Rightarrow> Inl bad
                | Inr binders \<Rightarrow>
                    Inr (Spanned_new span (A_Constructor
                      \<lparr>cp_type_path = qn_qualifier q, cp_ctor = qn_name q, cp_binders = Some binders\<rparr>)))
      | _ \<Rightarrow> Inl span)"
| "expr_to_assign_target (Spanned span _) = Inl span"
| "expr_to_assign_targets [] = Inr []"
| "expr_to_assign_targets (elt # elts) =
     (case expr_to_assign_target elt of
        Inl bad \<Rightarrow> Inl bad
      | Inr t \<Rightarrow> (case expr_to_assign_targets elts of Inl bad \<Rightarrow> Inl bad | Inr out \<Rightarrow> Inr (t # out)))"
  by pat_completeness auto
termination
  by (relation "measure (case_sum (size_Spanned size) (size_list (size_Spanned size)))") auto

subsection \<open>Assignments\<close>

datatype AssignTail =
    AT_Plain BindingTransparency "Expr Spanned"
  | AT_Annotated "Expr TypeAnnotation" "Expr Spanned"
  | AT_MutPlain "Expr Spanned"
  | AT_MutAnnotated "Expr TypeAnnotation" "Expr Spanned"
  | AT_Aug AugOp "Expr Spanned"
  | AT_Define "Expr Spanned"
  | AT_Declared "Expr TypeAnnotation"
  | AT_None

definition to_target :: "Expr Spanned \<Rightarrow> (Expr AssignTarget Spanned \<Rightarrow> Stmt) \<Rightarrow> Stmt actioned" where
  "to_target target build =
     (case expr_to_assign_target target of
        Inl bad \<Rightarrow> Inl (bad, lit ''invalid assignment target'')
      | Inr t \<Rightarrow> Inr (build t))"

fun assign_node :: "Expr Spanned \<Rightarrow> AssignTail \<Rightarrow> Stmt actioned" where
  "assign_node target (AT_Plain transparency val) = to_target target (\<lambda>t. S_Assign t val transparency)"
| "assign_node target (AT_Annotated ann val) = to_target target (\<lambda>t. S_AnnAssign t ann val)"
| "assign_node target (AT_MutPlain val) =
     (if spn_node target = E_Name wildcard then to_target target (\<lambda>t. S_Assign t val BT_Transparent)
      else to_target target (\<lambda>t. S_MutAssign t None val))"
| "assign_node target (AT_MutAnnotated ann val) = to_target target (\<lambda>t. S_MutAssign t (Some ann) val)"
| "assign_node target (AT_Aug op val) = to_target target (\<lambda>t. S_AugAssign t op val)"
| "assign_node target (AT_Define val) = to_target target (\<lambda>t. S_Define t val)"
| "assign_node target (AT_Declared ann) = to_target target (\<lambda>t. S_Declare t ann)"
| "assign_node target AT_None = Inr (S_Expr target)"

definition assign_stmt :: "Expr Spanned \<Rightarrow> AssignTail \<Rightarrow> Span \<Rightarrow> Stmt Spanned actioned" where
  "assign_stmt target tail span =
     (case assign_node target tail of Inl e \<Rightarrow> Inl e | Inr stmt \<Rightarrow> Inr (Spanned_new span stmt))"

subsection \<open>Refusals\<close>

definition const_refusal :: "Stmt \<Rightarrow> utext option" where
  "const_refusal stmt =
     (case stmt of
        S_Error \<Rightarrow> None
      | S_Param _ _ _ _ \<Rightarrow> Some (ticked (lit ''const'') @ lit '' is written once'')
      | S_Assign _ _ _ \<Rightarrow> Some (ticked (lit ''const'') @ lit '' marks a parameter, '' @
          ticked (lit ''const param x: T'') @
          lit ''; a binding is a constant when its definition is one, with no marker'')
      | S_AnnAssign _ _ _ \<Rightarrow> Some (ticked (lit ''const'') @ lit '' marks a parameter, '' @
          ticked (lit ''const param x: T'') @
          lit ''; a binding is a constant when its definition is one, with no marker'')
      | S_Pub _ _ \<Rightarrow> Some (ticked (lit ''const'') @ lit '' marks a parameter, '' @
          ticked (lit ''const param x: T'') @
          lit ''; a binding is a constant when its definition is one, with no marker'')
      | _ \<Rightarrow> Some (ticked (lit ''const'') @ lit '' marks a parameter: '' @ ticked (lit ''const param x: T'')))"

definition pub_marks_member :: utext where
  "pub_marks_member = ticked (lit ''pub'') @ lit '' marks a statement that introduces a member: an assignment, a '' @
     ticked (lit ''def'') @ lit '', a '' @ ticked (lit ''type'') @ lit '', or a '' @ ticked (lit ''run'')"

definition pub_refused_on :: "utext \<Rightarrow> utext" where
  "pub_refused_on what = ticked (lit ''pub'') @ lit '' is refused on '' @ what"

definition pub_refusal :: "Stmt \<Rightarrow> utext option" where
  "pub_refusal stmt =
     (case stmt of
        S_Assign _ _ _ \<Rightarrow> None
      | S_AnnAssign _ _ _ \<Rightarrow> None
      | S_Declare _ _ \<Rightarrow> None
      | S_MutAssign _ _ _ \<Rightarrow> None
      | S_FunctionDef _ _ _ _ _ _ _ \<Rightarrow> None
      | S_TypeDecl _ \<Rightarrow> None
      | S_TraitDecl _ \<Rightarrow> None
      | S_Error \<Rightarrow> None
      | S_Import _ _ _ _ \<Rightarrow> Some (pub_refused_on (lit ''an '' @ ticked (lit ''import'') @
          lit '': a module exports only what it declares''))
      | S_Run _ _ _ _ _ \<Rightarrow> Some (pub_refused_on (lit ''a '' @ ticked (lit ''run'') @
          lit '': a module exports only what it declares, and a run'' @ [39] @
          lit ''s members are reached through the values the module binds''))
      | S_Param _ _ _ _ \<Rightarrow> Some (pub_refused_on (lit ''a '' @ ticked (lit ''param'')))
      | S_Impl _ \<Rightarrow> Some (ticked (lit ''pub'') @ lit '' stands on each '' @ ticked (lit ''def'') @ lit '' in an '' @
          ticked (lit ''impl'') @ lit '' block, not on the block'')
      | S_Instance _ \<Rightarrow> Some (pub_refused_on (lit ''an '' @ ticked (lit ''instance'') @
          lit '': an instance belongs to the whole program, and no import selects it''))
      | S_Pub _ _ \<Rightarrow> Some (ticked (lit ''pub'') @ lit '' is written once'')
      | S_AugAssign _ _ _ \<Rightarrow> Some (pub_refused_on
          (lit ''a compound assignment, which writes a variable another statement introduced''))
      | S_Define _ _ \<Rightarrow> Some (pub_refused_on (ticked (lit ''<<='') @
          lit '', which defines a deferred value another statement introduced''))
      | S_LoadFrom _ _ _ \<Rightarrow> Some (ticked (lit ''pub'') @
          lit '' on a loaded declaration stands at the head of the declaration'' @ [39] @
          lit ''s line, below the decorator: '' @ ticked (lit ''@LoadFrom(x)'') @ lit '' above '' @ ticked (lit ''pub y: T''))
      | S_Discard _ \<Rightarrow> Some (pub_refused_on (ticked (lit ''@Discard'') @ lit '', which declares nothing''))
      | S_Expr _ \<Rightarrow> Some pub_marks_member
      | S_If _ _ \<Rightarrow> Some pub_marks_member
      | S_Match _ _ \<Rightarrow> Some pub_marks_member
      | S_For _ _ _ \<Rightarrow> Some pub_marks_member
      | S_With _ _ _ \<Rightarrow> Some pub_marks_member
      | S_Return _ \<Rightarrow> Some pub_marks_member
      | S_Pass \<Rightarrow> Some pub_marks_member)"

subsection \<open>Parameter lists\<close>

definition type_param :: "(uchar \<Rightarrow> bool) \<Rightarrow> 'e Param \<Rightarrow> 'e TypeParam actioned" where
  "type_param upper item =
     (if \<not> is_type_name upper (pm_name item)
      then Inl (pm_name_span item,
             ticked (pm_name item) @ lit '' is not capitalized, so it is not a type parameter; a polymorphic type'' @ [39] @
             lit ''s '' @ ticked (lit ''forall'') @ lit '' binds only type parameters, and a family over the values '' @
             ticked (pm_name item) @ lit '' ranges over is a lambda, '' @ ticked ([92] @ pm_name item @ lit '': K -> T''))
      else Inr (TypeParam (pm_name item) (pm_name_span item)
             (map_option (\<lambda>ann. case ta_mode ann of
                  AM_Exact \<Rightarrow> K_Kind (ta_ty ann)
                | AM_Bounded \<Rightarrow> K_Bound (ta_ty ann)) (pm_annotation item))))"

fun split_loop :: "(uchar \<Rightarrow> bool) \<Rightarrow> 'e Param list \<Rightarrow> 'e TypeParam list \<Rightarrow> 'e Param list \<Rightarrow>
    ('e TypeParam list \<times> 'e Param list) actioned" where
  "split_loop upper [] type_params params = Inr (type_params, params)"
| "split_loop upper (item # items) type_params params =
     (if \<not> is_type_name upper (pm_name item) then split_loop upper items type_params (params @ [item])
      else case params of
        first # _ \<Rightarrow> Inl (pm_name_span item,
          lit ''type parameter '' @ ticked (pm_name item) @ lit '' follows value parameter '' @ ticked (pm_name first) @
          lit ''; type parameters come first'')
      | [] \<Rightarrow>
          (case type_param upper item of
             Inl e \<Rightarrow> Inl e
           | Inr tp \<Rightarrow> split_loop upper items (type_params @ [tp]) params))"

definition split_params :: "(uchar \<Rightarrow> bool) \<Rightarrow> 'e Param list \<Rightarrow> ('e TypeParam list \<times> 'e Param list) actioned" where
  "split_params upper items = split_loop upper items [] []"

subsection \<open>Targets as expressions\<close>

text \<open>The expression a target is written as. The span of a constructor pattern's callee is not kept in
  the pattern; \<open>plain_callee\<close> puts the constructor's own span in its place.\<close>

definition binder_expr :: "utext option Spanned \<Rightarrow> Expr Spanned" where
  "binder_expr b = Spanned (spn_span b) (E_Name (case spn_node b of None \<Rightarrow> wildcard | Some n \<Rightarrow> n))"

definition pattern_callee :: "name_sp list \<Rightarrow> name_sp \<Rightarrow> Expr Spanned" where
  "pattern_callee path ctor = Spanned (spn_span ctor) (E_Qualified \<lparr>qn_qualifier = path, qn_name = ctor\<rparr>)"

function (sequential) target_expr :: "Expr AssignTarget Spanned \<Rightarrow> Expr Spanned" where
  "target_expr (Spanned span (A_Name name)) = Spanned span (E_Name name)"
| "target_expr (Spanned span (A_Tuple ts)) = Spanned span (E_Tuple (map target_expr ts))"
| "target_expr (Spanned span (A_Subscript target index)) = Spanned span (E_Subscript target index True)"
| "target_expr (Spanned span (A_Qualified q)) = Spanned span (E_Qualified q)"
| "target_expr (Spanned span (A_Constructor p)) =
     Spanned span (E_Call (pattern_callee (cp_type_path p) (cp_ctor p))
       (map binder_expr (case cp_binders p of None \<Rightarrow> [] | Some bs \<Rightarrow> bs)))"
  by pat_completeness auto
termination
proof (relation "measure (size_Spanned (size_AssignTarget (\<lambda>_. 0)))")
  show "(z, Spanned span (A_Tuple ts)) \<in> measure (size_Spanned (size_AssignTarget (\<lambda>_. 0)))"
    if "z \<in> set ts" for z span and ts :: "Expr AssignTarget Spanned list"
    using that by (induction ts) auto
qed simp

function (sequential) plain_callee :: "Expr Spanned \<Rightarrow> Expr Spanned" where
  "plain_callee (Spanned span (E_Tuple elts)) = Spanned span (E_Tuple (map plain_callee elts))"
| "plain_callee (Spanned span (E_Call func args)) =
     Spanned span (E_Call
       (case spn_node func of E_Qualified q \<Rightarrow> Spanned (spn_span (qn_name q)) (E_Qualified q) | _ \<Rightarrow> func) args)"
| "plain_callee e = e"
  by pat_completeness auto
termination
proof (relation "measure (size_Spanned size)")
  show "(z, Spanned span (E_Tuple elts)) \<in> measure (size_Spanned size)" if "z \<in> set elts" for z span elts
    using that by (induction elts) auto
qed simp

function (sequential) target_ok :: "Expr AssignTarget Spanned \<Rightarrow> bool" where
  "target_ok (Spanned _ (A_Tuple ts)) = list_all target_ok ts"
| "target_ok (Spanned _ (A_Constructor p)) \<longleftrightarrow>
     cp_type_path p \<noteq> [] \<and>
     (case cp_binders p of None \<Rightarrow> False | Some bs \<Rightarrow> bs \<noteq> [] \<and> list_all (\<lambda>b. spn_node b \<noteq> Some wildcard) bs)"
| "target_ok _ = True"
  by pat_completeness auto
termination
proof (relation "measure (size_Spanned (size_AssignTarget (\<lambda>_. 0)))")
  show "(z, Spanned span (A_Tuple ts)) \<in> measure (size_Spanned (size_AssignTarget (\<lambda>_. 0)))"
    if "z \<in> set ts" for z span and ts :: "Expr AssignTarget Spanned list"
    using that by (induction ts) auto
qed simp

text \<open>The identifiers of a pattern, in the order written.\<close>

function (sequential) pattern_idents :: "Expr Spanned \<Rightarrow> utext list" where
  "pattern_idents (Spanned _ (E_Name n)) = [n]"
| "pattern_idents (Spanned _ (E_Tuple elts)) = concat (map pattern_idents elts)"
| "pattern_idents (Spanned _ (E_Call _ args)) = concat (map pattern_idents args)"
| "pattern_idents _ = []"
  by pat_completeness auto
termination
proof (relation "measure (size_Spanned size)")
  show "(z, Spanned span (E_Tuple elts)) \<in> measure (size_Spanned size)" if "z \<in> set elts" for z span elts
    using that by (induction elts) auto
  show "(z, Spanned span (E_Call f args)) \<in> measure (size_Spanned size)" if "z \<in> set args" for z span f args
    using that by (induction args) auto
qed simp

lemma collect_bound_names_acc: "collect_bound_names t names = names @ bound_names t"
proof (induction t arbitrary: names)
  case (A_Tuple ts)
  let ?f = "\<lambda>c names. collect_bound_names (spn_node c) names"
  have step: "?f c ns = ns @ bound_names (spn_node c)" if "c \<in> set ts" for c ns
    by (rule A_Tuple [OF that]) (cases c, simp)
  have "fold ?f us ns = ns @ concat (map (\<lambda>c. bound_names (spn_node c)) us)" if "set us \<subseteq> set ts" for us ns
    using that by (induction us arbitrary: ns) (simp_all add: step)
  then show ?case by (simp add: bound_names_def)
qed (simp_all add: bound_names_def)

lemma bound_names_Tuple: "bound_names (A_Tuple ts) = concat (map (\<lambda>c. bound_names (spn_node c)) ts)"
proof -
  have "fold (\<lambda>c names. collect_bound_names (spn_node c) names) ts names =
      names @ concat (map (\<lambda>c. bound_names (spn_node c)) ts)" for names
    by (induction ts arbitrary: names) (simp_all add: collect_bound_names_acc)
  then show ?thesis by (simp add: bound_names_def)
qed

lemma call_binders_ok:
  "call_binders args = Inr bs \<Longrightarrow>
     map binder_expr bs = args \<and> list_all (\<lambda>b. spn_node b \<noteq> Some wildcard) bs \<and> length bs = length args \<and>
     List.map_filter spn_node bs = filter (\<lambda>n. n \<noteq> wildcard) (concat (map pattern_idents args))"
proof (induction args arbitrary: bs)
  case (Cons arg args)
  obtain span n where arg: "arg = Spanned span (E_Name n)"
    using Cons.prems by (cases arg) (auto split: Expr.splits)
  obtain bs' where "call_binders args = Inr bs'"
    "bs = Spanned_new span (if n \<noteq> wildcard then Some n else None) # bs'"
    using Cons.prems by (auto simp: arg split: sum.splits)
  then show ?case
    using Cons.IH by (auto simp: arg Spanned_new_def binder_expr_def map_filter_simps)
qed (simp add: map_filter_simps)

lemma call_binders_expr:
  "list_all (\<lambda>b. spn_node b \<noteq> Some wildcard) bs \<Longrightarrow> call_binders (map binder_expr bs) = Inr bs"
proof (induction bs)
  case (Cons b bs)
  then show ?case by (cases b; cases "spn_node b") (simp_all add: binder_expr_def Spanned_new_def)
qed simp

definition narrowed :: "Expr Spanned \<Rightarrow> Expr AssignTarget Spanned \<Rightarrow> bool" where
  "narrowed e t \<longleftrightarrow> target_ok t \<and> target_expr t = plain_callee e \<and> spn_span t = spn_span e \<and>
     bound_names (spn_node t) = filter (\<lambda>n. n \<noteq> wildcard) (pattern_idents e)"

lemma narrowed_call:
  assumes "expr_to_assign_target (Spanned span (E_Call func args)) = Inr t"
  shows "narrowed (Spanned span (E_Call func args)) t"
proof -
  obtain q where q: "spn_node func = E_Qualified q" "qn_qualifier q \<noteq> []" "args \<noteq> []"
    using assms by (cases "spn_node func") (auto split: if_splits)
  obtain bs where bs: "call_binders args = Inr bs"
    "t = Spanned span (A_Constructor \<lparr>cp_type_path = qn_qualifier q, cp_ctor = qn_name q, cp_binders = Some bs\<rparr>)"
    using assms q by (auto simp: Spanned_new_def split: sum.splits)
  have "bs \<noteq> []" using call_binders_ok [OF bs(1)] q(3) by auto
  moreover have "\<lparr>qn_qualifier = qn_qualifier q, qn_name = qn_name q\<rparr> = q" by simp
  ultimately show ?thesis
    using call_binders_ok [OF bs(1)] q
    by (simp add: narrowed_def bs(2) pattern_callee_def bound_names_def)
qed

lemma expr_to_assign_target_ok:
  "expr_to_assign_target e = Inr t \<Longrightarrow> narrowed e t"
  "expr_to_assign_targets es = Inr ts \<Longrightarrow> list_all2 narrowed es ts"
proof (induction e and es arbitrary: t and ts rule: expr_to_assign_target_expr_to_assign_targets.induct)
  case (2 span elts)
  then obtain out where out: "expr_to_assign_targets elts = Inr out" "t = Spanned span (A_Tuple out)"
    by (auto simp: Spanned_new_def split: sum.splits)
  have n: "list_all2 narrowed elts out" using 2 out by blast
  then have "map target_expr out = map plain_callee elts" "list_all target_ok out"
    "concat (map (\<lambda>c. bound_names (spn_node c)) out) = filter (\<lambda>n. n \<noteq> wildcard) (concat (map pattern_idents elts))"
    by (induction rule: list_all2_induct) (simp_all add: narrowed_def)
  then show ?case by (simp add: out(2) narrowed_def bound_names_Tuple)
next
  case (5 span func args)
  then show ?case by (intro narrowed_call)
qed (auto simp: narrowed_def Spanned_new_def bound_names_def split: sum.splits)

lemma expr_to_assign_targets_map:
  "(\<And>t. t \<in> set ts \<Longrightarrow> expr_to_assign_target (f t) = Inr t) \<Longrightarrow> expr_to_assign_targets (map f ts) = Inr ts"
  by (induction ts) simp_all

lemma expr_to_assign_target_expr: "target_ok t \<Longrightarrow> expr_to_assign_target (target_expr t) = Inr t"
proof (induction t rule: target_expr.induct)
  case (2 span ts)
  have "expr_to_assign_targets (map target_expr ts) = Inr ts"
    by (rule expr_to_assign_targets_map) (use 2 in \<open>auto simp: list_all_iff\<close>)
  then show ?case by (simp add: Spanned_new_def)
next
  case (5 span p)
  then obtain bs where bs: "cp_binders p = Some bs" "bs \<noteq> []" "list_all (\<lambda>b. spn_node b \<noteq> Some wildcard) bs"
    "cp_type_path p \<noteq> []" by (auto split: option.splits)
  have "\<lparr>cp_type_path = cp_type_path p, cp_ctor = cp_ctor p, cp_binders = Some bs\<rparr> = p"
    using bs(1) by (cases p) simp
  then show ?case using bs call_binders_expr [OF bs(3)] by (simp add: pattern_callee_def Spanned_new_def)
qed (simp_all add: Spanned_new_def)

subsection \<open>Statements and parameters\<close>

text \<open>The statements an assignment builds that \<open>pub\<close> may mark: all but the compound assignment, the
  definition of a deferred value and the bare expression.\<close>

fun introduces :: "AssignTail \<Rightarrow> bool" where
  "introduces (AT_Aug _ _) = False"
| "introduces (AT_Define _) = False"
| "introduces AT_None = False"
| "introduces _ = True"

lemma assign_stmt_pub:
  "assign_stmt target tail span = Inr stmt \<Longrightarrow>
     spn_span stmt = span \<and> (pub_refusal (spn_node stmt) = None \<longleftrightarrow> introduces tail)"
  by (cases tail)
    (auto simp: assign_stmt_def to_target_def Spanned_new_def pub_refusal_def split: sum.splits if_splits)

definition as_type_param :: "'e Param \<Rightarrow> 'e TypeParam" where
  "as_type_param item = TypeParam (pm_name item) (pm_name_span item)
     (map_option (\<lambda>ann. case ta_mode ann of AM_Exact \<Rightarrow> K_Kind (ta_ty ann) | AM_Bounded \<Rightarrow> K_Bound (ta_ty ann))
       (pm_annotation item))"

lemma type_param_cap: "is_type_name upper (pm_name item) \<Longrightarrow> type_param upper item = Inr (as_type_param item)"
  by (simp add: type_param_def as_type_param_def)

lemma split_loop_values:
  assumes "params \<noteq> []"
  shows "list_all (\<lambda>p. \<not> is_type_name upper (pm_name p)) items \<Longrightarrow>
      split_loop upper items tps params = Inr (tps, params @ items)"
    and "\<not> list_all (\<lambda>p. \<not> is_type_name upper (pm_name p)) items \<Longrightarrow>
      \<exists>msg. split_loop upper items tps params =
        Inl (pm_name_span (hd (filter (\<lambda>p. is_type_name upper (pm_name p)) items)), msg)"
  using assms by (induction items arbitrary: params) (auto split: list.splits)

lemma split_loop_ok:
  assumes "list_all (\<lambda>p. is_type_name upper (pm_name p)) caps" "rest = [] \<or> \<not> is_type_name upper (pm_name (hd rest))"
  shows "split_loop upper (caps @ rest) tps [] = split_loop upper rest (tps @ map as_type_param caps) []"
  using assms(1) by (induction caps arbitrary: tps) (simp_all add: type_param_cap)

lemma split_params_ok:
  fixes items :: "'e Param list" and upper
  defines "cap \<equiv> \<lambda>p :: 'e Param. is_type_name upper (pm_name p)"
  shows "if list_all (\<lambda>p. \<not> cap p) (dropWhile cap items)
    then split_params upper items = Inr (map as_type_param (takeWhile cap items), dropWhile cap items)
    else \<exists>msg. split_params upper items = Inl (pm_name_span (hd (filter cap (dropWhile cap items))), msg)"
proof -
  let ?caps = "takeWhile cap items" and ?rest = "dropWhile cap items"
  have hd: "?rest = [] \<or> \<not> cap (hd ?rest)" using hd_dropWhile by blast
  have "list_all cap ?caps" by (auto simp: list_all_iff dest: set_takeWhileD)
  then have run: "split_params upper items = split_loop upper ?rest (map as_type_param ?caps) []"
    using split_loop_ok [of upper ?caps ?rest "[]"] hd unfolding split_params_def cap_def by simp
  show ?thesis
  proof (cases ?rest)
    case (Cons p rest)
    then have "\<not> cap p" using hd by simp
    then show ?thesis
      unfolding run Cons using split_loop_values [of "[p]" upper rest "map as_type_param ?caps"]
      by (simp add: cap_def)
  next
    case Nil
    show ?thesis unfolding run Nil by simp
  qed
qed

subsection \<open>Properties\<close>

text \<open>C23. Narrowing an expression to an assignment target loses nothing but the span of a constructor
  pattern's callee: the target, written back, is the expression, and it binds the identifiers written,
  in order, without the wildcard. Every well-formed target is reached, by the expression it is written
  as.\<close>
theorem assign_target_roundtrip:
  "(expr_to_assign_target e = Inr t \<longrightarrow>
      target_ok t \<and> target_expr t = plain_callee e \<and>
      bound_names (spn_node t) = filter (\<lambda>n. n \<noteq> wildcard) (pattern_idents e)) \<and>
   (target_ok t \<longrightarrow> expr_to_assign_target (target_expr t) = Inr t)"
  using expr_to_assign_target_ok(1) [of e t] expr_to_assign_target_expr [of t] by (simp add: narrowed_def)

definition sample_span :: Span where
  "sample_span = Span_new FileId_ROOT 0 1"

definition sample_target :: "Expr Spanned" where
  "sample_target = Spanned sample_span (E_Tuple
     [Spanned sample_span (E_Name (lit ''a'')),
      Spanned sample_span (E_Call
        (Spanned sample_span (E_Qualified
          \<lparr>qn_qualifier = [Spanned sample_span (lit ''Price'')], qn_name = Spanned sample_span (lit ''new'')\<rparr>))
        [Spanned sample_span (E_Name (lit ''r'')), Spanned sample_span (E_Name wildcard)])])"

theorem assign_target_roundtrip_witness:
  "\<exists>t. expr_to_assign_target sample_target = Inr t \<and> bound_names (spn_node t) = [lit ''a'', lit ''r'']"
proof -
  obtain t where t: "expr_to_assign_target sample_target = Inr t"
    by (simp add: sample_target_def lit_def wildcard_def split: sum.splits)
  moreover have "filter (\<lambda>n. n \<noteq> wildcard) (pattern_idents sample_target) = [lit ''a'', lit ''r'']"
    by code_simp
  ultimately show ?thesis using assign_target_roundtrip [of sample_target t] by metis
qed

text \<open>A parameter list is split exactly when its capitalized names come first: the result is those as
  type parameters, an exact annotation as the kind and a bounded one as the bound, and then the rest
  unchanged. Otherwise the error is at the first capitalized name that follows a value parameter.\<close>
lemma split_params_capitals_first:
  "if list_all (\<lambda>p. \<not> is_type_name upper (pm_name p)) (dropWhile (\<lambda>p. is_type_name upper (pm_name p)) items)
   then split_params upper items =
     Inr (map as_type_param (takeWhile (\<lambda>p. is_type_name upper (pm_name p)) items),
          dropWhile (\<lambda>p. is_type_name upper (pm_name p)) items)
   else \<exists>msg. split_params upper items =
     Inl (pm_name_span (hd (filter (\<lambda>p. is_type_name upper (pm_name p))
            (dropWhile (\<lambda>p. is_type_name upper (pm_name p)) items))), msg)"
  by (rule split_params_ok)

text \<open>A statement that declares a type or a trait is accepted after \<open>pub\<close>, and a loaded declaration
  is refused.\<close>

lemma pub_refusal_heads:
  "pub_refusal (S_TypeDecl d) = None" "pub_refusal (S_TraitDecl t) = None"
  "pub_refusal (S_LoadFrom target ann source) \<noteq> None" "pub_refusal (S_Run path args alias uses renamed) \<noteq> None"
  by (simp_all add: pub_refusal_def)

end
