(* ===== verification/Parse_Errors.thy ===== *)
theory Parse_Errors
  imports Syntax_Tree Lexer_Properties "HOL-Library.Product_Lexorder" "HOL-Library.List_Lexorder"
begin

section \<open>Parsing a file and its errors\<close>

text \<open>
  \<open>chl-parser/src/parser/error.rs\<close> and the two entry points of \<open>chl-parser/src/parser.rs\<close>. The
  grammar, which is written in the combinators of a parsing library, is a parameter: from the tokens and
  the end-of-input span to the output, if any, and the library's errors. The record \<open>Rich\<close> holds what
  the accessors of such an error return, with the patterns that no branch tells apart as \<open>RP_Other\<close>.
\<close>

subsection \<open>Errors\<close>

datatype RichPattern = RP_Token Token | RP_Label utext | RP_EndOfInput | RP_Other

record Rich =
  rich_span :: Span
  rich_found :: "Token option"
  rich_custom :: "utext option"
  rich_expected :: "RichPattern list"
  rich_contexts :: "(RichPattern \<times> Span) list"

datatype Expected = Exp_Token Token | Exp_Label utext | Exp_Category utext | Exp_EndOfInput | Exp_Other

fun Expected_display :: "Expected \<Rightarrow> utext" where
  "Expected_display (Exp_Token t) = [39] @ Token_display t @ [39]"
| "Expected_display (Exp_Label l) = l"
| "Expected_display (Exp_Category c) = c"
| "Expected_display Exp_EndOfInput = lit ''end of input''"
| "Expected_display Exp_Other = lit ''something else''"

record ParseErrorInfo =
  pei_span :: Span
  pei_custom :: "utext option"
  pei_found :: "Token option"
  pei_expected :: "Expected list"
  pei_context :: "(utext \<times> Span) list"

datatype ParseError = PE_Lex LexError | PE_Parse ParseErrorInfo

record 't ParseResult =
  pr_value :: "'t option"
  pr_errors :: "ParseError list"

definition parsed_ok :: "'t ParseResult \<Rightarrow> bool" where
  "parsed_ok r \<longleftrightarrow> pr_errors r = [] \<and> pr_value r \<noteq> None"

text \<open>The panic is the \<open>expect\<close> of a value without errors.\<close>

definition into_result :: "'t ParseResult \<Rightarrow> (ParseError list + 't) res" where
  "into_result r =
     (if pr_errors r \<noteq> [] then Inr (Inl (pr_errors r))
      else case pr_value r of None \<Rightarrow> Inl ExpectFailed | Some v \<Rightarrow> Inr (Inr v))"

definition label_span :: "Span \<Rightarrow> Span" where
  "label_span s = Span_new (sp_file s) (sp_start s) (max (sp_end s) (sp_start s))"

fun ParseError_span :: "ParseError \<Rightarrow> Span" where
  "ParseError_span (PE_Lex e) = error_span e"
| "ParseError_span (PE_Parse info) = pei_span info"

text \<open>The list of what was expected: the last of several after \<open>or\<close>.\<close>

fun expected_list :: "nat \<Rightarrow> nat \<Rightarrow> Expected list \<Rightarrow> utext" where
  "expected_list n i [] = []"
| "expected_list n i (e # es) =
     (if i > 0 then if i + 1 = n then lit '', or '' else lit '', '' else []) @
     Expected_display e @ expected_list n (i + 1) es"

definition message :: "ParseErrorInfo \<Rightarrow> utext" where
  "message info =
     (case pei_custom info of
        Some msg \<Rightarrow> msg
      | None \<Rightarrow>
          (case pei_found info of
             Some t \<Rightarrow> lit ''found '' @ [39] @ Token_display t @ [39]
           | None \<Rightarrow> lit ''found end of input'') @
          (if pei_expected info = [] then []
           else lit '', expected '' @ expected_list (length (pei_expected info)) 0 (pei_expected info)))"

fun ParseError_display :: "ParseError \<Rightarrow> utext" where
  "ParseError_display (PE_Lex e) = lit ''lex error: '' @ LexError_display e"
| "ParseError_display (PE_Parse info) =
     message info @
     concat (map (\<lambda>(label, span). lit '' (in '' @ label @ lit '' at '' @ Span_display span @ lit '')'')
       (pei_context info))"

subsection \<open>Expected tokens and their categories\<close>

definition CATEGORIES :: "(utext \<times> Token list) list" where
  "CATEGORIES =
    [(lit ''binary operator'',
        [T_Plus, T_Minus, T_Star, T_DoubleSlash, T_Amp, T_Pipe, T_Caret, T_PlusPlus]),
     (lit ''comparison operator'', [T_EqEq, T_NotEq, T_Lt, T_LtE, T_Gt, T_GtE]),
     (lit ''boolean operator'', [T_And, T_Or]),
     (lit ''postfix operation'', [T_Dot, T_LParen, T_LBracket]),
     (lit ''augmented-assignment operator'',
        [T_PlusEq, T_MinusEq, T_StarEq, T_DoubleSlashEq, T_LShiftEq])]"

text \<open>The derived order of \<open>Token\<close>: the variants as declared, then the data. Text is ordered by its
  UTF-8 bytes, which is the order of its characters.\<close>

definition Token_CONSTANTS :: "Token list" where
  "Token_CONSTANTS =
    [T_Newline, T_Indent, T_Dedent, T_BlockValueIndent, T_BlockValueDedent, T_Error, T_True,
     T_False, T_Where, T_And, T_Or, T_Not, T_If, T_Elif, T_Else, T_For, T_In, T_Def,
     T_Return, T_Yield, T_Pass, T_With, T_Match, T_Case, T_Forall, T_Requires, T_Type,
     T_Impl, T_Instance, T_Trait, T_Import, T_Use, T_As, T_Pub, T_Run, T_Param,
     T_Const, T_This, T_LShiftEq, T_LShift, T_EqEq, T_NotEq, T_LtE, T_LtColon, T_GtE,
     T_PlusPlus, T_PlusEq, T_CaretPlus, T_CaretEq, T_MinusEq, T_Arrow, T_DoubleArrow,
     T_DataArrow, T_StarStar, T_StarEq, T_DoubleSlashEq, T_DoubleSlash, T_Plus, T_Minus,
     T_Star, T_Amp, T_Pipe, T_Caret, T_Eq, T_Lt, T_Gt, T_LParen, T_RParen, T_LBracket,
     T_RBracket, T_Bang, T_LBrace, T_RBrace, T_Comma, T_Colon, T_ColonEq, T_ColonColon,
     T_Dot, T_DotDot, T_Backtick, T_Semi, T_Backslash, T_At]"

definition Token_ord :: "Token \<Rightarrow> nat \<times> int \<times> utext" where
  "Token_ord t =
     (case t of
        T_Int i \<Rightarrow> (length Token_CONSTANTS, sint i, [])
      | T_String s \<Rightarrow> (length Token_CONSTANTS + 1, 0, s)
      | T_Ident s \<Rightarrow> (length Token_CONSTANTS + 2, 0, s)
      | _ \<Rightarrow> (length (takeWhile (\<lambda>u. u \<noteq> t) Token_CONSTANTS), 0, []))"

text \<open>\<open>sort\<close> and \<open>dedup\<close>.\<close>

definition sorted_tokens :: "Token list \<Rightarrow> Token list" where
  "sorted_tokens ts = remdups_adj (sort_key Token_ord ts)"

definition sorted_labels :: "utext list \<Rightarrow> utext list" where
  "sorted_labels ls = remdups_adj (sort ls)"

text \<open>The loop over the categories: each whose members are all present is put in their place.\<close>

fun collapse :: "(utext \<times> Token list) list \<Rightarrow> Token list \<Rightarrow> utext list \<Rightarrow> Token list \<times> utext list" where
  "collapse [] tokens categories = (tokens, categories)"
| "collapse ((name, members) # rest) tokens categories =
     (if list_all (\<lambda>m. m \<in> set tokens) members
      then collapse rest (filter (\<lambda>t. t \<notin> set members) tokens) (categories @ [name])
      else collapse rest tokens categories)"

definition context_label :: "RichPattern \<times> Span \<Rightarrow> utext \<times> Span" where
  "context_label c =
     (case fst c of
        RP_Label l \<Rightarrow> l
      | RP_Token t \<Rightarrow> [39] @ Token_display t @ [39]
      | _ \<Rightarrow> lit ''...'', snd c)"

definition rich_to_info :: "Rich \<Rightarrow> ParseErrorInfo" where
  "rich_to_info err =
     (let pats = rich_expected err;
          tokens = sorted_tokens (List.map_filter (\<lambda>p. case p of RP_Token t \<Rightarrow> Some t | _ \<Rightarrow> None) pats);
          labels = sorted_labels (List.map_filter (\<lambda>p. case p of RP_Label l \<Rightarrow> Some l | _ \<Rightarrow> None) pats);
          (tokens, categories) = collapse CATEGORIES tokens []
      in \<lparr>pei_span = rich_span err, pei_custom = rich_custom err, pei_found = rich_found err,
          pei_expected = map Exp_Label labels @ map Exp_Category categories @ map Exp_Token tokens @
            (if RP_EndOfInput \<in> set pats then [Exp_EndOfInput] else []) @
            (if RP_Other \<in> set pats then [Exp_Other] else []),
          pei_context = map context_label (rich_contexts err)\<rparr>)"

subsection \<open>Lexical errors before the grammar's\<close>

definition explained_by_lexer :: "Rich \<Rightarrow> bool" where
  "explained_by_lexer err =
     (case rich_found err of
        Some T_Error \<Rightarrow> True
      | Some T_RParen \<Rightarrow> sp_start (rich_span err) = sp_end (rich_span err)
      | Some T_RBracket \<Rightarrow> sp_start (rich_span err) = sp_end (rich_span err)
      | Some T_RBrace \<Rightarrow> sp_start (rich_span err) = sp_end (rich_span err)
      | _ \<Rightarrow> False)"

definition lex_then_grammar_errors :: "LexError list \<Rightarrow> Rich list \<Rightarrow> ParseError list" where
  "lex_then_grammar_errors lexical grammar =
     map PE_Lex lexical @ map (\<lambda>err. PE_Parse (rich_to_info err)) (filter (\<lambda>err. \<not> explained_by_lexer err) grammar)"

type_synonym 'o grammar = "(Token \<times> Span) list \<Rightarrow> Span \<Rightarrow> 'o option \<times> Rich list"

definition parse_with :: "lexer \<Rightarrow> 'o grammar \<Rightarrow> bool \<Rightarrow> FileId \<Rightarrow> utext \<Rightarrow> 'o ParseResult res option" where
  "parse_with next_tok grammar dbg file source =
     bind_run (tokenize next_tok dbg file source) (\<lambda>lx.
       let (out, errs) = grammar (lx_tokens lx) (Span_new file (str_len source) (str_len source))
       in Some (Inr \<lparr>pr_value = out, pr_errors = lex_then_grammar_errors (lx_errors lx) errs\<rparr>))"

definition parse_module ::
  "lexer \<Rightarrow> Stmt Spanned list grammar \<Rightarrow> bool \<Rightarrow> FileId \<Rightarrow> utext \<Rightarrow> Module ParseResult res option" where
  "parse_module next_tok module_parser dbg file source =
     bind_run (parse_with next_tok module_parser dbg file source) (\<lambda>r.
       Some (Inr \<lparr>pr_value = map_option (\<lambda>body. \<lparr>md_file = file, md_body = body\<rparr>) (pr_value r),
                  pr_errors = pr_errors r\<rparr>))"

definition parse_expression ::
  "lexer \<Rightarrow> Expr Spanned grammar \<Rightarrow> bool \<Rightarrow> FileId \<Rightarrow> utext \<Rightarrow> Expr Spanned ParseResult res option" where
  "parse_expression next_tok expression dbg file source = parse_with next_tok expression dbg file source"

subsection \<open>The derived order\<close>

lemma Token_constant:
  "t \<in> set Token_CONSTANTS \<or> (\<exists>i. t = T_Int i) \<or> (\<exists>s. t = T_String s) \<or> (\<exists>s. t = T_Ident s)"
  by (cases t) (simp_all add: Token_CONSTANTS_def)

lemma Token_ord_constant:
  assumes "t \<in> set Token_CONSTANTS"
  shows "Token_ord t = (length (takeWhile (\<lambda>u. u \<noteq> t) Token_CONSTANTS), 0, [])"
proof -
  have "\<not> (\<exists>i. t = T_Int i)" "\<not> (\<exists>s. t = T_String s)" "\<not> (\<exists>s. t = T_Ident s)"
    using assms by (auto simp: Token_CONSTANTS_def)
  then show ?thesis by (cases t) (simp_all add: Token_ord_def)
qed

lemma takeWhile_first: "t \<in> set xs \<Longrightarrow> length (takeWhile (\<lambda>u. u \<noteq> t) xs) < length xs \<and> xs ! length (takeWhile (\<lambda>u. u \<noteq> t) xs) = t"
  by (induction xs) auto

lemma Token_ord_inj: "inj Token_ord"
proof (rule injI)
  fix t u assume eq: "Token_ord t = Token_ord u"
  have rank: "fst (Token_ord v) < length Token_CONSTANTS \<longleftrightarrow> v \<in> set Token_CONSTANTS" for v
  proof (cases "v \<in> set Token_CONSTANTS")
    case True
    then show ?thesis using takeWhile_first [OF True] by (simp add: Token_ord_constant)
  next
    case False
    then show ?thesis using Token_constant [of v] by (auto simp: Token_ord_def)
  qed
  show "t = u"
  proof (cases "t \<in> set Token_CONSTANTS")
    case True
    then have u: "u \<in> set Token_CONSTANTS" using rank eq by metis
    have "length (takeWhile (\<lambda>v. v \<noteq> t) Token_CONSTANTS) = length (takeWhile (\<lambda>v. v \<noteq> u) Token_CONSTANTS)"
      using eq unfolding Token_ord_constant [OF True] Token_ord_constant [OF u] by (rule Pair_inject)
    then show ?thesis using takeWhile_first [OF True] takeWhile_first [OF u] by metis
  next
    case False
    then have "u \<notin> set Token_CONSTANTS" using rank eq by metis
    then show ?thesis using False Token_constant [of t] Token_constant [of u] eq
      by (auto simp: Token_ord_def signed_word_eqI)
  qed
qed

lemma distinct_dedup:
  assumes "inj f" "sorted (map f xs)"
  shows "distinct (remdups_adj xs)"
  using assms(2)
proof (induction xs rule: remdups_adj.induct)
  case (3 x y xs)
  have "x \<notin> set (y # xs)" if "x \<noteq> y"
  proof
    assume "x \<in> set (y # xs)"
    then have "f y \<le> f x" using 3(3) by auto
    moreover have "f x \<le> f y" using 3(3) by simp
    ultimately show False using that assms(1) by (metis antisym injD)
  qed
  then show ?case using 3 by auto
qed auto

lemma sorted_tokens: "distinct (sorted_tokens ts)" "set (sorted_tokens ts) = set ts"
  by (auto simp: sorted_tokens_def intro: distinct_dedup [OF Token_ord_inj])

lemma sorted_labels: "distinct (sorted_labels ls)" "set (sorted_labels ls) = set ls"
  by (auto simp: sorted_labels_def intro: distinct_dedup [of "\<lambda>x. x"])

subsection \<open>Collapsing\<close>

definition wanted :: "Token list \<Rightarrow> utext \<times> Token list \<Rightarrow> bool" where
  "wanted tokens c \<longleftrightarrow> set (snd c) \<subseteq> set tokens"

lemma collapse_ok:
  "distinct (concat (map snd cs)) \<Longrightarrow>
   collapse cs tokens acc =
     (filter (\<lambda>t. \<not> (\<exists>c \<in> set cs. wanted tokens c \<and> t \<in> set (snd c))) tokens, acc @ map fst (filter (wanted tokens) cs))"
proof (induction cs tokens acc rule: collapse.induct)
  case (2 name members rest tokens acc)
  have apart: "set members \<inter> set (snd c) = {}" if "c \<in> set rest" for c using 2(3) that by auto
  show ?case
  proof (cases "wanted tokens (name, members)")
    case True
    let ?left = "filter (\<lambda>t. t \<notin> set members) tokens"
    have w: "wanted ?left c = wanted tokens c" if "c \<in> set rest" for c
      using apart [OF that] by (auto simp: wanted_def)
    have "list_all (\<lambda>m. m \<in> set tokens) members" using True by (auto simp: wanted_def list_all_iff)
    then have "collapse ((name, members) # rest) tokens acc =
        (filter (\<lambda>t. \<not> (\<exists>c \<in> set rest. wanted ?left c \<and> t \<in> set (snd c))) ?left,
         (acc @ [name]) @ map fst (filter (wanted ?left) rest))"
      using 2(1,3) by simp
    moreover have "filter (\<lambda>t. \<not> (\<exists>c \<in> set rest. wanted ?left c \<and> t \<in> set (snd c))) ?left =
        filter (\<lambda>t. \<not> (\<exists>c \<in> set ((name, members) # rest). wanted tokens c \<and> t \<in> set (snd c))) tokens"
      using True w by (auto simp: intro!: filter_cong)
    moreover have "filter (wanted ?left) rest = filter (wanted tokens) rest" using w by (auto intro: filter_cong)
    ultimately show ?thesis using True by simp
  next
    case False
    then have "\<not> list_all (\<lambda>m. m \<in> set tokens) members" by (auto simp: wanted_def list_all_iff)
    then show ?thesis using 2(2,3) False by simp
  qed
qed simp

lemma CATEGORIES_distinct: "distinct (concat (map snd CATEGORIES))" "distinct (map fst CATEGORIES)"
  by (simp add: CATEGORIES_def, code_simp)

text \<open>What an entry of the expected list stands for.\<close>

fun denotes :: "Expected \<Rightarrow> RichPattern list" where
  "denotes (Exp_Token t) = [RP_Token t]"
| "denotes (Exp_Label l) = [RP_Label l]"
| "denotes (Exp_Category c) = map RP_Token (case map_of CATEGORIES c of None \<Rightarrow> [] | Some ms \<Rightarrow> ms)"
| "denotes Exp_EndOfInput = [RP_EndOfInput]"
| "denotes Exp_Other = [RP_Other]"

definition expected_tokens :: "Rich \<Rightarrow> Token list" where
  "expected_tokens err =
     sorted_tokens (List.map_filter (\<lambda>p. case p of RP_Token t \<Rightarrow> Some t | _ \<Rightarrow> None) (rich_expected err))"

lemma set_expected_tokens: "t \<in> set (expected_tokens err) \<longleftrightarrow> RP_Token t \<in> set (rich_expected err)"
  by (force simp: expected_tokens_def sorted_tokens List.map_filter_def split: RichPattern.splits)

definition collapsed :: "Rich \<Rightarrow> (utext \<times> Token list) list" where
  "collapsed err = filter (wanted (expected_tokens err)) CATEGORIES"

lemma rich_to_info_expected:
  "pei_expected (rich_to_info err) =
     map Exp_Label (sorted_labels (List.map_filter (\<lambda>p. case p of RP_Label l \<Rightarrow> Some l | _ \<Rightarrow> None) (rich_expected err))) @
     map Exp_Category (map fst (collapsed err)) @
     map Exp_Token (filter (\<lambda>t. t \<notin> set (concat (map snd (collapsed err)))) (expected_tokens err)) @
     (if RP_EndOfInput \<in> set (rich_expected err) then [Exp_EndOfInput] else []) @
     (if RP_Other \<in> set (rich_expected err) then [Exp_Other] else [])"
proof -
  have "(\<lambda>t. \<not> (\<exists>c \<in> set CATEGORIES. wanted (expected_tokens err) c \<and> t \<in> set (snd c))) =
      (\<lambda>t. t \<notin> set (concat (map snd (collapsed err))))"
    by (rule ext) (force simp: collapsed_def)
  then have "collapse CATEGORIES (expected_tokens err) [] =
      (filter (\<lambda>t. t \<notin> set (concat (map snd (collapsed err)))) (expected_tokens err), map fst (collapsed err))"
    using collapse_ok [OF CATEGORIES_distinct(1), of "expected_tokens err" "[]"] by (simp add: collapsed_def)
  then show ?thesis unfolding rich_to_info_def expected_tokens_def [symmetric] Let_def by simp
qed

lemma denotes_category:
  assumes "c \<in> set CATEGORIES"
  shows "denotes (Exp_Category (fst c)) = map RP_Token (snd c)"
proof -
  have "map_of CATEGORIES (fst c) = Some (snd c)" using assms CATEGORIES_distinct(2) by simp
  then show ?thesis by simp
qed

lemma concat_denotes_categories:
  "set cs \<subseteq> set CATEGORIES \<Longrightarrow>
     concat (map denotes (map Exp_Category (map fst cs))) = map RP_Token (concat (map snd cs))"
  by (induction cs) (simp_all add: denotes_category del: denotes.simps(3))

lemma denotes_expected:
  "concat (map denotes (pei_expected (rich_to_info err))) =
     map RP_Label (sorted_labels (List.map_filter (\<lambda>p. case p of RP_Label l \<Rightarrow> Some l | _ \<Rightarrow> None) (rich_expected err))) @
     map RP_Token (concat (map snd (collapsed err)) @
       filter (\<lambda>t. t \<notin> set (concat (map snd (collapsed err)))) (expected_tokens err)) @
     (if RP_EndOfInput \<in> set (rich_expected err) then [RP_EndOfInput] else []) @
     (if RP_Other \<in> set (rich_expected err) then [RP_Other] else [])"
proof -
  have "concat (map denotes (map Exp_Label ls)) = map RP_Label ls"
    "concat (map denotes (map Exp_Token ts)) = map RP_Token ts" for ls ts
    by (induction ls, simp_all, induction ts, simp_all)
  then show ?thesis
    unfolding rich_to_info_expected map_append concat_append
    by (subst concat_denotes_categories) (auto simp: collapsed_def)
qed

lemma distinct_collapsed: "distinct (concat (map snd (collapsed err)))"
proof -
  have "distinct (concat (map snd (filter P cs)))" if "distinct (concat (map snd cs))" for P and cs :: "(utext \<times> Token list) list"
    using that by (induction cs) auto
  then show ?thesis using CATEGORIES_distinct(1) by (simp add: collapsed_def)
qed

lemma collapsed_expected: "set (concat (map snd (collapsed err))) \<subseteq> set (expected_tokens err)"
  by (auto simp: collapsed_def wanted_def)

subsection \<open>Errors the lexer explains\<close>

lemma tokenize_raw_errors:
  assumes "raw_tokens next_tok file src = Some (Inr raw)" "tokenize next_tok dbg file src = Some (Inr lx)"
  shows "set (rt_errors raw) \<subseteq> set (lx_errors lx)"
  using assms by (auto simp: tokenize_def sort_errors_def split: sum.splits if_splits)

lemma tokenize_error_tokens:
  assumes "logos_lexer next_tok" "tokenize next_tok dbg file src = Some (Inr lx)" "(T_Error, span) \<in> set (lx_tokens lx)"
  shows "InvalidToken span \<in> set (lx_errors lx)"
proof -
  obtain raw where raw: "raw_tokens next_tok file src = Some (Inr raw)"
    "map error_span (filter is_invalid (rt_errors raw)) = error_runs (rt_tokens raw)"
    using logos_lexer.raw_tokens_total [OF assms(1), of "file" src] by blast
  obtain raw' where "raw_tokens next_tok file src = Some (Inr raw')"
    "filter kept_token (lx_tokens lx) = filter kept_token (drop_detached raw')"
    using logos_lexer.tokenize_result [OF assms(1), of "file" src dbg] assms(2) by fastforce
  then have "filter kept_token (lx_tokens lx) = filter kept_token (drop_detached raw)" using raw(1) by simp
  moreover have "(T_Error, span) \<in> set (filter kept_token (lx_tokens lx))"
    using assms(3) by (simp add: kept_token_def in_line_def closed_by_def layout_token_def)
  ultimately have "(T_Error, span) \<in> set (drop_detached raw)" by simp
  then have "(T_Error, span) \<in> set (rt_tokens raw)"
    by (auto simp: drop_detached_def in_set_enumerate_eq dest: nth_mem)
  then have "span \<in> set (error_runs (rt_tokens raw))" by (force simp: error_runs_def)
  then have "span \<in> set (map error_span (filter is_invalid (rt_errors raw)))" by (simp only: raw(2))
  then obtain e where e: "e \<in> set (rt_errors raw)" "is_invalid e" "error_span e = span" by auto
  have "e = InvalidToken span" using e(2,3) by (cases e) (auto simp: is_invalid_def)
  then show ?thesis using e(1) tokenize_raw_errors [OF raw(1) assms(2)] by blast
qed

lemma explained_reported:
  assumes "logos_lexer next_tok" "tokenize next_tok dbg file src = Some (Inr lx)"
    "explained_by_lexer e" "rich_found e = Some t" "(t, rich_span e) \<in> set (lx_tokens lx)"
  shows "t = T_Error \<and> InvalidToken (rich_span e) \<in> set (lx_errors lx) \<or>
     zero_width_closer (t, rich_span e) \<and> (\<exists>le \<in> set (lx_errors lx). reports_closer le)"
proof (cases "t = T_Error")
  case True
  then show ?thesis using tokenize_error_tokens [OF assms(1,2)] assms(5) by simp
next
  case False
  then have z: "zero_width_closer (t, rich_span e)"
    using assms(3,4) by (cases t) (auto simp: explained_by_lexer_def zero_width_closer_def closed_by_def)
  have "length (filter zero_width_closer (lx_tokens lx)) = length (filter reports_closer (lx_errors lx))"
    using logos_lexer.tokenize_result [OF assms(1), of "file" src dbg] assms(2) by fastforce
  moreover have "filter zero_width_closer (lx_tokens lx) \<noteq> []"
    using z assms(5) by (auto simp: filter_empty_conv)
  ultimately have "filter reports_closer (lx_errors lx) \<noteq> []" by (metis length_0_conv)
  then show ?thesis using z by (auto simp: filter_empty_conv)
qed

subsection \<open>Properties\<close>

text \<open>C22. The expected list of an error says what the library reported, no more and no less, and each
  thing once: spelling out its categories gives every pattern reported, without repetition. A category
  stands in the list exactly when all its members were expected.\<close>
theorem expected_denotes:
  "distinct (concat (map denotes (pei_expected (rich_to_info err)))) \<and>
   set (concat (map denotes (pei_expected (rich_to_info err)))) = set (rich_expected err) \<and>
   list_all (\<lambda>(c, members). Exp_Category c \<in> set (pei_expected (rich_to_info err)) \<longleftrightarrow>
     RP_Token ` set members \<subseteq> set (rich_expected err)) CATEGORIES"
proof (intro conjI)
  let ?labels = "List.map_filter (\<lambda>p. case p of RP_Label l \<Rightarrow> Some l | _ \<Rightarrow> None) (rich_expected err)"
  have l: "l \<in> set ?labels \<longleftrightarrow> RP_Label l \<in> set (rich_expected err)" for l
    by (force simp: List.map_filter_def split: RichPattern.splits)
  show "distinct (concat (map denotes (pei_expected (rich_to_info err))))"
    unfolding denotes_expected
    using distinct_collapsed [of err] sorted_labels(1) [of ?labels] sorted_tokens(1)
    by (auto simp: distinct_map inj_on_def expected_tokens_def)
  show "set (concat (map denotes (pei_expected (rich_to_info err)))) = set (rich_expected err)"
  proof (rule set_eqI)
    fix p
    show "p \<in> set (concat (map denotes (pei_expected (rich_to_info err)))) \<longleftrightarrow> p \<in> set (rich_expected err)"
      unfolding denotes_expected
      using collapsed_expected [of err] set_expected_tokens [of _ err] l sorted_labels(2) [of ?labels]
      by (cases p) (auto simp del: set_concat)
  qed
  have "Exp_Category (fst c) \<in> set (pei_expected (rich_to_info err)) \<longleftrightarrow> c \<in> set (collapsed err)"
    if "c \<in> set CATEGORIES" for c
  proof -
    have inj: "inj_on fst (set CATEGORIES)" using CATEGORIES_distinct(2) by (simp add: distinct_map)
    have "set (collapsed err) \<subseteq> set CATEGORIES" by (auto simp: collapsed_def)
    then have "fst c \<in> fst ` set (collapsed err) \<longleftrightarrow> c \<in> set (collapsed err)"
      using inj_on_image_mem_iff [OF inj that] by blast
    then show ?thesis unfolding rich_to_info_expected by auto
  qed
  then show "list_all (\<lambda>(c, members). Exp_Category c \<in> set (pei_expected (rich_to_info err)) \<longleftrightarrow>
     RP_Token ` set members \<subseteq> set (rich_expected err)) CATEGORIES"
    using set_expected_tokens [of _ err] by (fastforce simp: list_all_iff collapsed_def wanted_def)
qed

text \<open>What the parsing library promises of a grammar: a token that an error found is a token of the
  input, at the error's span; and a parse without output has an error.\<close>

definition grammar_reports :: "'o grammar \<Rightarrow> bool" where
  "grammar_reports grammar \<longleftrightarrow>
     (\<forall>toks eof. (\<forall>e \<in> set (snd (grammar toks eof)). \<forall>t. rich_found e = Some t \<longrightarrow> (t, rich_span e) \<in> set toks) \<and>
        (fst (grammar toks eof) = None \<longrightarrow> snd (grammar toks eof) \<noteq> []))"


text \<open>A grammar that takes nothing: it fails at the first token.\<close>

definition failing_parser :: "Stmt Spanned list grammar" where
  "failing_parser toks eof =
     (None, [case toks of
        [] \<Rightarrow> \<lparr>rich_span = eof, rich_found = None, rich_custom = None, rich_expected = [], rich_contexts = []\<rparr>
      | (t, s) # _ \<Rightarrow>
          \<lparr>rich_span = s, rich_found = Some t, rich_custom = None, rich_expected = [], rich_contexts = []\<rparr>])"


end
