(* ===== verification/Strong_Components.thy ===== *)
theory Strong_Components
  imports Prelude
begin

section \<open>Strongly connected components\<close>

text \<open>
  Tarjan's algorithm as \<open>strongly_connected\<close> of \<open>src/util.rs\<close> runs it, over the arrays of its
  state, and \<open>cyclic_components\<close>. The recursion of \<open>visit\<close> is bounded by a fuel argument; \<open>None\<close> is
  running out of it. The number of vertices is enough, since every nested visit marks a new vertex.
\<close>

subsection \<open>The algorithm\<close>

text \<open>The top of the stack is the head of the list.\<close>

record Tarjan =
  index :: "nat option list"
  low :: "nat list"
  on_stack :: "bool list"
  stack :: "nat list"
  next_index :: nat
  components :: "nat list list"

text \<open>Entering \<open>v\<close>: it takes the next index and goes on the stack.\<close>

definition enter :: "nat \<Rightarrow> Tarjan \<Rightarrow> Tarjan" where
  "enter v t = t\<lparr>index := (index t)[v := Some (next_index t)], low := (low t)[v := next_index t],
     next_index := Suc (next_index t), stack := v # stack t, on_stack := (on_stack t)[v := True]\<rparr>"

text \<open>\<open>self.low[v] = self.low[v].min(m)\<close>\<close>

definition lower :: "nat \<Rightarrow> nat \<Rightarrow> Tarjan \<Rightarrow> Tarjan" where
  "lower v m t = t\<lparr>low := (low t)[v := min (low t ! v) m]\<rparr>"

text \<open>The loop that pops a component: the rest of the stack, the marks, and the vertices popped.\<close>

fun pop_loop :: "nat \<Rightarrow> nat list \<Rightarrow> bool list \<Rightarrow> nat list \<Rightarrow> (nat list \<times> bool list \<times> nat list) res" where
  "pop_loop v [] marks c = Inl ExpectFailed"
| "pop_loop v (w # st) marks c =
     (if w < length marks
      then if w = v then Inr (st, marks[w := False], c @ [w]) else pop_loop v st (marks[w := False]) (c @ [w])
      else Inl OutOfRange)"

definition pop_component :: "nat \<Rightarrow> Tarjan \<Rightarrow> Tarjan res" where
  "pop_component v t =
     map_ok (\<lambda>(st, marks, c). t\<lparr>stack := st, on_stack := marks, components := components t @ [c]\<rparr>)
       (pop_loop v (stack t) (on_stack t) [])"

fun visit :: "nat list list \<Rightarrow> nat \<Rightarrow> nat \<Rightarrow> Tarjan \<Rightarrow> Tarjan res option"
  and visit_successors :: "nat list list \<Rightarrow> nat \<Rightarrow> nat \<Rightarrow> nat list \<Rightarrow> Tarjan \<Rightarrow> Tarjan res option" where
  "visit g 0 v t = None"
| "visit g (Suc fuel) v t =
     (if v < length (index t)
      then bind_run (visit_successors g fuel v (g ! v) (enter v t)) (\<lambda>t.
        Some (if Some (low t ! v) = index t ! v then pop_component v t else Inr t))
      else Some (Inl OutOfRange))"
| "visit_successors g fuel v [] t = Some (Inr t)"
| "visit_successors g fuel v (w # ws) t =
     (if w < length (index t)
      then bind_run
        (case index t ! w of
           None \<Rightarrow> bind_run (visit g fuel w t) (\<lambda>t. Some (Inr (lower v (low t ! w) t)))
         | Some i \<Rightarrow> Some (Inr (if on_stack t ! w then lower v i t else t)))
        (visit_successors g fuel v ws)
      else Some (Inl OutOfRange))"

fun visit_roots :: "nat list list \<Rightarrow> nat list \<Rightarrow> Tarjan \<Rightarrow> Tarjan res option" where
  "visit_roots g [] t = Some (Inr t)"
| "visit_roots g (v # vs) t =
     bind_run (if index t ! v = None then visit g (length g) v t else Some (Inr t)) (visit_roots g vs)"

definition initial :: "nat \<Rightarrow> Tarjan" where
  "initial n = \<lparr>index = replicate n None, low = replicate n 0, on_stack = replicate n False,
     stack = [], next_index = 0, components = []\<rparr>"

definition strongly_connected :: "nat list list \<Rightarrow> nat list list res option" where
  "strongly_connected g =
     bind_run (visit_roots g [0..<length g] (initial (length g))) (\<lambda>t. Some (Inr (components t)))"

definition cyclic_components :: "nat list list \<Rightarrow> nat list list res option" where
  "cyclic_components g =
     bind_run (strongly_connected g) (\<lambda>cs.
       Some (Inr (filter (\<lambda>c. length c > 1 \<or> c ! 0 \<in> set (g ! (c ! 0))) cs)))"

lemma strongly_connected_example:
  "strongly_connected [[1], [0], [2], []] = Some (Inr [[1, 0], [2], [3]])"
  "cyclic_components [[1], [0], [2], []] = Some (Inr [[1, 0], [2]])"
  by code_simp+

subsection \<open>Reachability\<close>

definition edges :: "nat list list \<Rightarrow> (nat \<times> nat) set" where
  "edges g = {(u, w). u < length g \<and> w \<in> set (g ! u)}"

definition graph_ok :: "nat list list \<Rightarrow> bool" where
  "graph_ok g \<longleftrightarrow> list_all (list_all (\<lambda>w. w < length g)) g"

abbreviation reaches :: "nat list list \<Rightarrow> nat \<Rightarrow> nat \<Rightarrow> bool" where
  "reaches g u v \<equiv> (u, v) \<in> (edges g)\<^sup>*"

text \<open>The vertices that reach \<open>v\<close> and that \<open>v\<close> reaches.\<close>

definition scc_of :: "nat list list \<Rightarrow> nat \<Rightarrow> nat set" where
  "scc_of g v = {w. reaches g v w \<and> reaches g w v}"

definition closed :: "nat list list \<Rightarrow> nat set \<Rightarrow> bool" where
  "closed g A \<longleftrightarrow> (\<forall>u \<in> A. \<forall>w. (u, w) \<in> edges g \<longrightarrow> w \<in> A)"

lemma closed_reaches: "reaches g u w \<Longrightarrow> closed g A \<Longrightarrow> u \<in> A \<Longrightarrow> w \<in> A"
  by (induction rule: rtrancl_induct) (auto simp: closed_def)

text \<open>A path that leaves a set has an edge that leaves it.\<close>

lemma leaving_edge:
  assumes "reaches g u w" "u \<in> A" "w \<notin> A"
  obtains a b where "a \<in> A" "b \<notin> A" "(a, b) \<in> edges g" "reaches g u a" "reaches g b w"
proof -
  have "w \<in> A \<or> (\<exists>a b. a \<in> A \<and> b \<notin> A \<and> (a, b) \<in> edges g \<and> reaches g u a \<and> reaches g b w)"
    using assms(1,2)
  proof (induction rule: rtrancl_induct)
    case (step y z)
    then show ?case by (meson rtrancl.rtrancl_into_rtrancl rtrancl.rtrancl_refl)
  qed simp
  then show thesis using assms(3) that by blast
qed

lemma edge_range: "graph_ok g \<Longrightarrow> (u, w) \<in> edges g \<Longrightarrow> w < length g"
  by (auto simp: graph_ok_def edges_def list_all_iff)

subsection \<open>The invariant\<close>

definition visited :: "Tarjan \<Rightarrow> nat set" where
  "visited t = {v. v < length (index t) \<and> index t ! v \<noteq> None}"

definition num :: "Tarjan \<Rightarrow> nat \<Rightarrow> nat" where
  "num t v = the (index t ! v)"

definition finished :: "nat list list \<Rightarrow> nat set" where
  "finished cs = \<Union> (set ` set cs)"

text \<open>The arrays agree with the stack and the components found so far.\<close>

definition arrays_ok :: "nat list list \<Rightarrow> Tarjan \<Rightarrow> bool" where
  "arrays_ok g t \<longleftrightarrow>
     length (index t) = length g \<and> length (low t) = length g \<and> length (on_stack t) = length g \<and>
     visited t = finished (components t) \<union> set (stack t) \<and>
     finished (components t) \<inter> set (stack t) = {} \<and> distinct (stack t) \<and>
     (\<forall>v < length g. on_stack t ! v \<longleftrightarrow> v \<in> set (stack t)) \<and>
     sorted_wrt (\<lambda>x y. num t y < num t x) (stack t) \<and>
     (\<forall>v \<in> visited t. num t v < next_index t)"

text \<open>The components found are strongly connected components, and each prefix of their list is
  closed under edges.\<close>

definition components_ok :: "nat list list \<Rightarrow> nat list list \<Rightarrow> bool" where
  "components_ok g cs \<longleftrightarrow>
     distinct (concat cs) \<and> (\<forall>c \<in> set cs. c \<noteq> [] \<and> (\<forall>v \<in> set c. v < length g \<and> set c = scc_of g v)) \<and>
     (\<forall>k. closed g (finished (take k cs)))"

text \<open>The vertices being visited, \<open>G\<close>: each reaches what is above it on the stack, each stack
  vertex reaches one of them at or below it, and every other visited vertex has had its successors
  visited.\<close>

definition search_ok :: "nat list list \<Rightarrow> nat set \<Rightarrow> Tarjan \<Rightarrow> bool" where
  "search_ok g G t \<longleftrightarrow>
     G \<subseteq> set (stack t) \<and>
     (\<forall>x \<in> set (stack t). \<exists>y \<in> G. num t y \<le> num t x \<and> reaches g x y) \<and>
     (\<forall>x \<in> G. \<forall>y \<in> set (stack t). num t x \<le> num t y \<longrightarrow> reaches g x y) \<and>
     (\<forall>u \<in> visited t - G. \<forall>w. (u, w) \<in> edges g \<longrightarrow> w \<in> visited t)"

definition search_inv :: "nat list list \<Rightarrow> nat set \<Rightarrow> Tarjan \<Rightarrow> bool" where
  "search_inv g G t \<longleftrightarrow> arrays_ok g t \<and> components_ok g (components t) \<and> search_ok g G t"

text \<open>What a visit leaves alone: earlier indices and low marks, but those of \<open>X\<close>, and the stack it
  started with.\<close>

definition evolves :: "nat set \<Rightarrow> Tarjan \<Rightarrow> Tarjan \<Rightarrow> bool" where
  "evolves X t t' \<longleftrightarrow>
     visited t \<subseteq> visited t' \<and> (\<forall>u \<in> visited t. index t' ! u = index t ! u) \<and>
     (\<forall>u \<in> visited t - X. low t' ! u = low t ! u) \<and> (\<exists>s. stack t' = s @ stack t) \<and>
     next_index t \<le> next_index t' \<and> (\<forall>u \<in> visited t' - visited t. next_index t \<le> num t' u) \<and>
     set (stack t') \<inter> visited t \<subseteq> set (stack t)"

definition visit_pre :: "nat list list \<Rightarrow> nat set \<Rightarrow> nat \<Rightarrow> Tarjan \<Rightarrow> bool" where
  "visit_pre g G v t \<longleftrightarrow> search_inv g G t \<and> v < length g \<and> v \<notin> visited t \<and> (\<forall>x \<in> G. reaches g x v)"

definition visit_post :: "nat list list \<Rightarrow> nat set \<Rightarrow> nat \<Rightarrow> Tarjan \<Rightarrow> Tarjan \<Rightarrow> bool" where
  "visit_post g G v t t' \<longleftrightarrow>
     search_inv g G t' \<and> evolves {} t t' \<and> v \<in> visited t' \<and> low t' ! v \<le> num t' v \<and>
     (low t' ! v = num t' v \<or> (\<exists>y \<in> set (stack t). num t y = low t' ! v \<and> reaches g v y)) \<and>
     (\<forall>x \<in> set (stack t') - set (stack t). \<forall>y \<in> set (stack t). (x, y) \<in> edges g \<longrightarrow> low t' ! v \<le> num t y)"

definition loop_pre :: "nat list list \<Rightarrow> nat set \<Rightarrow> nat \<Rightarrow> nat list \<Rightarrow> Tarjan \<Rightarrow> bool" where
  "loop_pre g G v ws t \<longleftrightarrow>
     search_inv g (insert v G) t \<and> v < length g \<and> (\<forall>x \<in> G. reaches g x v \<and> num t x < num t v) \<and>
     low t ! v \<le> num t v \<and> set ws \<subseteq> set (g ! v)"

definition loop_post :: "nat list list \<Rightarrow> nat set \<Rightarrow> nat \<Rightarrow> nat list \<Rightarrow> Tarjan \<Rightarrow> Tarjan \<Rightarrow> bool" where
  "loop_post g G v ws t t' \<longleftrightarrow>
     search_inv g (insert v G) t' \<and> evolves {v} t t' \<and> set ws \<subseteq> visited t' \<and> low t' ! v \<le> low t ! v \<and>
     (low t' ! v = low t ! v \<or> (\<exists>y \<in> set (stack t'). num t' y = low t' ! v \<and> reaches g v y)) \<and>
     (\<forall>w \<in> set ws. w \<in> set (stack t') \<longrightarrow> low t' ! v \<le> num t' w) \<and>
     (\<forall>x \<in> set (stack t') - set (stack t). \<forall>y \<in> set (stack t). (x, y) \<in> edges g \<longrightarrow> low t' ! v \<le> num t y)"

lemma growsD:
  assumes "evolves X t t'"
  shows "visited t \<subseteq> visited t'" "u \<in> visited t \<Longrightarrow> num t' u = num t u"
    "u \<in> visited t \<Longrightarrow> u \<notin> X \<Longrightarrow> low t' ! u = low t ! u" "set (stack t) \<subseteq> set (stack t')"
    "next_index t \<le> next_index t'" "u \<in> visited t' \<Longrightarrow> u \<notin> visited t \<Longrightarrow> next_index t \<le> num t' u"
    "u \<in> set (stack t') \<Longrightarrow> u \<in> visited t \<Longrightarrow> u \<in> set (stack t)"
  using assms by (auto simp: evolves_def num_def)

lemma evolves_refl: "evolves X t t"
  by (auto simp: evolves_def)

lemma evolves_trans:
  assumes "evolves X t t'" "evolves Y t' t''" "X \<subseteq> Z" "Y \<subseteq> Z"
  shows "evolves Z t t''"
proof -
  have "next_index t \<le> num t'' u" if "u \<in> visited t'' - visited t" for u
  proof (cases "u \<in> visited t'")
    case True
    then show ?thesis using growsD(6) [OF assms(1), of u] growsD(2) [OF assms(2), of u] that by simp
  next
    case False
    then show ?thesis using growsD(6) [OF assms(2), of u] growsD(5) [OF assms(1)] that by simp
  qed
  moreover have "\<exists>s. stack t'' = s @ stack t" using assms(1,2) by (auto simp: evolves_def)
  moreover have "low t'' ! u = low t ! u" if "u \<in> visited t - Z" for u
  proof -
    have "u \<in> visited t" "u \<notin> X" "u \<notin> Y" "u \<in> visited t'"
      using that assms(3,4) growsD(1) [OF assms(1)] by auto
    then show ?thesis using growsD(3) [OF assms(1), of u] growsD(3) [OF assms(2), of u] by simp
  qed
  moreover have "set (stack t'') \<inter> visited t \<subseteq> set (stack t)"
    using growsD(1,7) [OF assms(1)] growsD(7) [OF assms(2)] by blast
  ultimately show ?thesis using assms(1,2) unfolding evolves_def by (metis order_trans subsetD)
qed

lemma arraysD:
  assumes "arrays_ok g t"
  shows "length (index t) = length g" "length (low t) = length g" "length (on_stack t) = length g"
    "visited t = finished (components t) \<union> set (stack t)" "finished (components t) \<inter> set (stack t) = {}"
    "distinct (stack t)" "v < length g \<Longrightarrow> on_stack t ! v \<longleftrightarrow> v \<in> set (stack t)"
    "sorted_wrt (\<lambda>x y. num t y < num t x) (stack t)" "v \<in> visited t \<Longrightarrow> num t v < next_index t"
    "set (stack t) \<subseteq> visited t"
  using assms by (auto simp: arrays_ok_def)

lemma invD:
  assumes "search_inv g G t"
  shows "arrays_ok g t" "components_ok g (components t)" "G \<subseteq> set (stack t)"
    "x \<in> set (stack t) \<Longrightarrow> \<exists>y \<in> G. num t y \<le> num t x \<and> reaches g x y"
    "x \<in> G \<Longrightarrow> y \<in> set (stack t) \<Longrightarrow> num t x \<le> num t y \<Longrightarrow> reaches g x y"
    "u \<in> visited t \<Longrightarrow> u \<notin> G \<Longrightarrow> (u, w) \<in> edges g \<Longrightarrow> w \<in> visited t"
  using assms by (auto simp: search_inv_def search_ok_def)

lemma unvisited_iff: "v < length (index t) \<Longrightarrow> v \<notin> visited t \<longleftrightarrow> index t ! v = None"
  by (simp add: visited_def)

subsection \<open>The steps\<close>

lemma enter_sel [simp]:
  "stack (enter v t) = v # stack t" "components (enter v t) = components t"
  "next_index (enter v t) = Suc (next_index t)"
  "length (index (enter v t)) = length (index t)" "length (low (enter v t)) = length (low t)"
  "length (on_stack (enter v t)) = length (on_stack t)"
  by (simp_all add: enter_def)

lemma enter_visited: "v < length (index t) \<Longrightarrow> visited (enter v t) = insert v (visited t)"
  by (auto simp: enter_def visited_def nth_list_update)

lemma enter_num:
  "u \<noteq> v \<Longrightarrow> num (enter v t) u = num t u"
  "v < length (index t) \<Longrightarrow> num (enter v t) v = next_index t"
  by (simp_all add: enter_def num_def)

lemma enter_grows:
  "v < length (index t) \<Longrightarrow> v \<notin> visited t \<Longrightarrow> evolves {} t (enter v t)"
  by (auto simp: evolves_def enter_visited enter_num) (auto simp: enter_def intro!: nth_list_update_neq)

lemma enter_arrays:
  assumes "arrays_ok g t" "v < length g" "v \<notin> visited t"
  shows "arrays_ok g (enter v t)"
proof -
  note a = arraysD [OF assms(1)]
  have v: "v \<notin> set (stack t)" "v \<notin> finished (components t)" using assms(3) a(4) by auto
  have num: "num (enter v t) u = num t u" if "u \<in> visited t" for u
    using that assms(3) by (intro enter_num(1)) auto
  have "sorted_wrt (\<lambda>x y. num (enter v t) y < num (enter v t) x) (v # stack t)"
  proof -
    have "num (enter v t) y < num (enter v t) v" if "y \<in> set (stack t)" for y
      using that a(1,9,10) assms(2) by (simp add: num enter_num(2) subsetD)
    moreover have "sorted_wrt (\<lambda>x y. num (enter v t) y < num (enter v t) x) (stack t)"
      using a(8) by (rule sorted_wrt_mono_rel [rotated]) (simp add: num [OF subsetD [OF a(10)]])
    ultimately show ?thesis by simp
  qed
  moreover have "num (enter v t) u < next_index (enter v t)" if "u \<in> visited (enter v t)" for u
    using that a(1,9) assms(2) num by (auto simp: enter_visited enter_num(2) intro: less_SucI)
  moreover have "on_stack (enter v t) ! u \<longleftrightarrow> u \<in> set (stack (enter v t))" if "u < length g" for u
    using that a(3) a(7) [of u] assms(2) by (cases "u = v") (simp_all add: enter_def)
  ultimately show ?thesis
    using a v assms(2) unfolding arrays_ok_def by (auto simp: enter_visited)
qed

lemma enter_inv:
  assumes "visit_pre g G v t"
  shows "loop_pre g G v (g ! v) (enter v t)"
proof -
  have pre: "search_inv g G t" "v < length g" "v \<notin> visited t" "\<And>x. x \<in> G \<Longrightarrow> reaches g x v"
    using assms by (auto simp: visit_pre_def)
  note i = invD [OF pre(1)] and a = arraysD [OF invD(1) [OF pre(1)]]
  have num: "num (enter v t) u = num t u" if "u \<in> visited t" for u
    using that pre(3) by (intro enter_num(1)) auto
  have numv: "num (enter v t) v = next_index t" using a(1) pre(2) by (simp add: enter_num(2))
  have G: "G \<subseteq> visited t" using i(3) a(10) by blast
  have "search_ok g (insert v G) (enter v t)"
    unfolding search_ok_def
  proof (intro conjI ballI impI allI)
    show "insert v G \<subseteq> set (stack (enter v t))" using i(3) by auto
  next
    fix x assume x: "x \<in> set (stack (enter v t))"
    show "\<exists>y \<in> insert v G. num (enter v t) y \<le> num (enter v t) x \<and> reaches g x y"
    proof (cases "x = v")
      case False
      then have "x \<in> set (stack t)" using x by simp
      with i(4) [of x] obtain y where "y \<in> G" "num t y \<le> num t x" "reaches g x y" by blast
      moreover have "num (enter v t) x = num t x" "num (enter v t) y = num t y"
        using num a(10) G \<open>x \<in> set (stack t)\<close> \<open>y \<in> G\<close> by blast+
      ultimately show ?thesis by auto
    qed auto
  next
    fix x y assume x: "x \<in> insert v G" and y: "y \<in> set (stack (enter v t))"
      and le: "num (enter v t) x \<le> num (enter v t) y"
    show "reaches g x y"
    proof (cases "y = v")
      case True then show ?thesis using x pre(4) by auto
    next
      case False
      then have y': "y \<in> set (stack t)" "y \<in> visited t" using y a(10) by auto
      then have "x \<noteq> v" using le numv num a(9) [of y] by auto
      then have "x \<in> G" "x \<in> visited t" using x G by auto
      then show ?thesis using i(5) y' le num by simp
    qed
  next
    fix u w assume "u \<in> visited (enter v t) - insert v G" "(u, w) \<in> edges g"
    then show "w \<in> visited (enter v t)" using i(6) a(1) pre(2) by (auto simp: enter_visited)
  qed
  moreover have "reaches g x v \<and> num (enter v t) x < num (enter v t) v" if "x \<in> G" for x
    using that pre(4) num numv a(9) G by auto
  moreover have "low (enter v t) ! v \<le> num (enter v t) v"
    using a(2) pre(2) numv by (simp add: enter_def)
  ultimately show ?thesis
    using enter_arrays [OF i(1) pre(2,3)] i(2) pre(2) by (simp add: loop_pre_def search_inv_def)
qed

lemma lower_sel [simp]:
  "index (lower v m t) = index t" "stack (lower v m t) = stack t" "components (lower v m t) = components t"
  "next_index (lower v m t) = next_index t" "on_stack (lower v m t) = on_stack t"
  "length (low (lower v m t)) = length (low t)" "visited (lower v m t) = visited t"
  "num (lower v m t) = num t" "search_inv g G (lower v m t) = search_inv g G t"
  by (simp_all add: lower_def visited_def num_def search_inv_def arrays_ok_def search_ok_def fun_eq_iff)

lemma lower_low: "v < length (low t) \<Longrightarrow> low (lower v m t) ! v = min (low t ! v) m"
  by (simp add: lower_def)

lemma lower_grows: "evolves {v} t (lower v m t)"
proof -
  have "low (lower v m t) ! u = low t ! u" if "u \<noteq> v" for u using that by (simp add: lower_def)
  then show ?thesis by (auto simp: evolves_def)
qed

lemma loop_preD:
  assumes "loop_pre g G v ws t"
  shows "search_inv g (insert v G) t" "v < length g" "x \<in> G \<Longrightarrow> reaches g x v" "x \<in> G \<Longrightarrow> num t x < num t v"
    "low t ! v \<le> num t v" "set ws \<subseteq> set (g ! v)" "v \<in> set (stack t)" "v \<in> visited t"
  using assms invD(3) [of g "insert v G" t] arraysD(10) [OF invD(1), of g "insert v G" t]
  by (auto simp: loop_pre_def)

lemma loop_postD:
  assumes "loop_post g G v ws t t'"
  shows "search_inv g (insert v G) t'" "evolves {v} t t'" "set ws \<subseteq> visited t'" "low t' ! v \<le> low t ! v"
    "low t' ! v \<noteq> low t ! v \<Longrightarrow> \<exists>y \<in> set (stack t'). num t' y = low t' ! v \<and> reaches g v y"
    "w \<in> set ws \<Longrightarrow> w \<in> set (stack t') \<Longrightarrow> low t' ! v \<le> num t' w"
    "x \<in> set (stack t') \<Longrightarrow> x \<notin> set (stack t) \<Longrightarrow> y \<in> set (stack t) \<Longrightarrow> (x, y) \<in> edges g \<Longrightarrow> low t' ! v \<le> num t y"
  using assms by (auto simp: loop_post_def)

lemma loop_step_pre:
  assumes "loop_pre g G v (w # ws) t" "loop_post g G v [w] t t'"
  shows "loop_pre g G v ws t'"
proof -
  note pre = loop_preD [OF assms(1)] and post = loop_postD [OF assms(2)]
  have "G \<subseteq> visited t" using invD(3) [OF pre(1)] arraysD(10) [OF invD(1) [OF pre(1)]] by blast
  then have "num t' x = num t x" if "x \<in> insert v G" for x
    using that pre(8) by (intro growsD(2) [OF post(2)]) auto
  then show ?thesis using pre(1-6) post(1,4) by (auto simp: loop_pre_def)
qed

lemma loop_trans:
  assumes "loop_pre g G v (w # ws) t" "loop_post g G v [w] t t'" "loop_post g G v ws t' t''"
  shows "loop_post g G v (w # ws) t t''"
proof -
  note p1 = loop_postD [OF assms(2)] and p2 = loop_postD [OF assms(3)]
  note g1 = growsD [OF p1(2)] and g2 = growsD [OF p2(2)]
  have a: "set (stack t) \<subseteq> visited t" "set (stack t') \<subseteq> visited t'"
    using arraysD(10) [OF invD(1) [OF loop_preD(1) [OF assms(1)]]] arraysD(10) [OF invD(1) [OF p1(1)]] by auto
  have w: "w \<in> visited t'" using p1(3) by simp
  have g: "evolves {v} t t''" using evolves_trans [OF p1(2) p2(2)] by simp
  have "low t'' ! v = low t ! v \<or> (\<exists>y \<in> set (stack t''). num t'' y = low t'' ! v \<and> reaches g v y)"
  proof (cases "low t'' ! v = low t' ! v \<and> low t' ! v \<noteq> low t ! v")
    case True
    then obtain y where "y \<in> set (stack t')" "num t' y = low t' ! v" "reaches g v y" using p1(5) by blast
    then show ?thesis using g2(2) [of y] g2(4) a(2) True by auto
  qed (metis p2(5))
  moreover have "low t'' ! v \<le> num t'' u" if u: "u \<in> set (w # ws)" "u \<in> set (stack t'')" for u
  proof (cases "u \<in> set ws")
    case False
    then have "u = w" "w \<in> set (stack t')" using u g2(7) [of w] w by auto
    then show ?thesis using p1(6) [of w] p2(4) g2(2) [OF w] by simp
  qed (use p2(6) u in blast)
  moreover have "low t'' ! v \<le> num t y"
    if "x \<in> set (stack t'')" "x \<notin> set (stack t)" "y \<in> set (stack t)" "(x, y) \<in> edges g" for x y
  proof (cases "x \<in> set (stack t')")
    case True
    then show ?thesis using p1(7) [of x y] p2(4) that by simp
  next
    case False
    moreover have "y \<in> set (stack t')" "num t' y = num t y" using that g1(4) g1(2) [of y] a(1) by blast+
    ultimately show ?thesis using p2(7) [of x y] that by simp
  qed
  ultimately show ?thesis
    using p1(3,4) p2(1,3,4) g g2(1) by (auto simp: loop_post_def)
qed

lemma loop_visit_pre:
  assumes "graph_ok g" "loop_pre g G v (w # ws) t" "index t ! w = None"
  shows "visit_pre g (insert v G) w t"
proof -
  note pre = loop_preD [OF assms(2)]
  have e: "(v, w) \<in> edges g" using pre(2,6) by (simp add: edges_def)
  then have "reaches g x w" if "x \<in> insert v G" for x using that pre(3) by (auto intro: rtrancl_into_rtrancl)
  then show ?thesis using pre(1) edge_range [OF assms(1) e] assms(3) by (simp add: visit_pre_def visited_def)
qed

lemma visit_postD:
  assumes "visit_post g G v t t'"
  shows "search_inv g G t'" "evolves {} t t'" "v \<in> visited t'" "low t' ! v \<le> num t' v"
    "low t' ! v \<noteq> num t' v \<Longrightarrow> \<exists>y \<in> set (stack t). num t y = low t' ! v \<and> reaches g v y"
    "x \<in> set (stack t') \<Longrightarrow> x \<notin> set (stack t) \<Longrightarrow> y \<in> set (stack t) \<Longrightarrow> (x, y) \<in> edges g \<Longrightarrow> low t' ! v \<le> num t y"
  using assms by (auto simp: visit_post_def)

lemma loop_step_white:
  assumes "graph_ok g" "loop_pre g G v (w # ws) t" "index t ! w = None"
    "visit_post g (insert v G) w t t'"
  shows "loop_post g G v [w] t (lower v (low t' ! w) t')"
proof -
  note pre = loop_preD [OF assms(2)] and post = visit_postD [OF assms(4)]
  note gr = growsD [OF post(2)] and a = arraysD [OF invD(1) [OF pre(1)]]
  let ?t = "lower v (low t' ! w) t'"
  have e: "(v, w) \<in> edges g" using pre(2,6) by (simp add: edges_def)
  have lv: "low t' ! v = low t ! v" using gr(3) [OF pre(8)] by simp
  have len: "v < length (low t')" using arraysD(2) [OF invD(1) [OF post(1)]] pre(2) by simp
  have low: "low ?t ! v = min (low t ! v) (low t' ! w)" using lower_low [OF len] lv by simp
  have "w \<notin> visited t" using assms(3) by (simp add: visited_def)
  then have new: "num t v < num t' w" using gr(6) [OF post(3)] a(9) [OF pre(8)] by simp
  have "low ?t ! v = low t ! v \<or> (\<exists>y \<in> set (stack ?t). num ?t y = low ?t ! v \<and> reaches g v y)"
  proof (cases "low ?t ! v = low t ! v")
    case False
    then have l: "low ?t ! v = low t' ! w" "low t' ! w < low t ! v" using low by auto
    then have "low t' ! w \<noteq> num t' w" using new pre(5) by simp
    then obtain y where y: "y \<in> set (stack t)" "num t y = low t' ! w" "reaches g w y" using post(5) by blast
    then have "num t' y = num t y" using gr(2) a(10) by blast
    moreover have "reaches g v y" using y(3) e by (rule converse_rtrancl_into_rtrancl [rotated])
    ultimately show ?thesis using y gr(4) l by auto
  qed simp
  moreover have "evolves {v} t ?t" using evolves_trans [OF post(2) lower_grows] by simp
  moreover have "\<forall>x \<in> set (stack ?t) - set (stack t). \<forall>y \<in> set (stack t).
      (x, y) \<in> edges g \<longrightarrow> low ?t ! v \<le> num t y"
    using post(6) low by (auto simp: min.coboundedI2)
  ultimately show ?thesis
    unfolding loop_post_def using post(1,3,4) low by (simp only: lower_sel) (simp add: min.coboundedI2)
qed

lemma loop_step_seen:
  assumes "loop_pre g G v (w # ws) t" "index t ! w = Some i" "w < length g"
  shows "loop_post g G v [w] t (if on_stack t ! w then lower v i t else t)"
proof -
  note pre = loop_preD [OF assms(1)] and a = arraysD [OF invD(1) [OF loop_preD(1) [OF assms(1)]]]
  have e: "reaches g v w" using pre(2,6) by (auto simp: edges_def)
  have w: "w \<in> visited t" "num t w = i" using assms(2,3) a(1) by (auto simp: visited_def num_def)
  show ?thesis
  proof (cases "w \<in> set (stack t)")
    case True
    have "v < length (low t)" using a(2) pre(2) by simp
    then have low: "low (lower v i t) ! v = min (low t ! v) i" by (rule lower_low)
    have "loop_post g G v [w] t (lower v i t)"
      unfolding loop_post_def using lower_grows [of v t i] pre(1) w e True low
      by (auto simp: min_def)
    then show ?thesis using True a(7) [OF assms(3)] by simp
  next
    case False
    then have "loop_post g G v [w] t t" using pre(1) w evolves_refl by (auto simp: loop_post_def)
    then show ?thesis using False a(7) [OF assms(3)] by simp
  qed
qed

text \<open>Where the low mark of \<open>v\<close> is its own index, what is above it on the stack is a component.\<close>

lemma loop_end:
  assumes "visit_pre g G v t" "loop_post g G v (g ! v) (enter v t) t'"
  obtains s where "stack t' = s @ v # stack t" "v \<notin> set s" "v \<notin> set (stack t)"
    "set s \<inter> set (stack t) = {}" "\<And>x. x \<in> set s \<Longrightarrow> num t' v < num t' x"
    "\<And>y. y \<in> set (stack t) \<Longrightarrow> num t' y < num t' v"
    "\<And>y. y \<in> set (stack t) \<Longrightarrow> num t' y = num t y"
    "num t' v = next_index t" "low (enter v t) ! v = next_index t" "evolves {v} t t'" "v \<in> visited t'"
proof -
  have pre: "search_inv g G t" "v < length g" "v \<notin> visited t" using assms(1) by (auto simp: visit_pre_def)
  note post = loop_postD [OF assms(2)] and a = arraysD [OF invD(1) [OF pre(1)]]
  note a' = arraysD [OF invD(1) [OF post(1)]]
  obtain s where s: "stack t' = s @ v # stack t" using post(2) by (auto simp: evolves_def)
  have d: "distinct (s @ v # stack t)" "sorted_wrt (\<lambda>x y. num t' y < num t' x) (s @ v # stack t)"
    using a'(6,8) s by simp_all
  have g: "evolves {v} t t'"
    using evolves_trans [OF enter_grows post(2)] a(1) pre(2,3) by simp
  have v: "v \<in> visited (enter v t)" using a(1) pre(2) by (simp add: enter_visited)
  show thesis
  proof (rule that [OF s])
    show "num t' v = next_index t" using growsD(2) [OF post(2) v] a(1) pre(2) by (simp add: enter_num(2))
    show "low (enter v t) ! v = next_index t" using a(2) pre(2) by (simp add: enter_def)
    show "num t' y = num t y" if "y \<in> set (stack t)" for y using growsD(2) [OF g] a(10) that by blast
    show "v \<in> visited t'" using growsD(1) [OF post(2)] v by blast
  qed (use d g in \<open>auto simp: sorted_wrt_append\<close>)
qed

lemma leaving_component:
  assumes "visit_pre g G v t" "loop_post g G v (g ! v) (enter v t) t'" "stack t' = s @ v # stack t"
    and e: "a \<in> insert v (set s)" "(a, b) \<in> edges g" "b \<notin> insert v (set s)"
  shows "b \<in> finished (components t') \<or> b \<in> set (stack t) \<and> low t' ! v \<le> num t' b"
proof -
  note post = loop_postD [OF assms(2)]
  note i = invD [OF post(1)] and a = arraysD [OF invD(1) [OF post(1)]]
  from loop_end [OF assms(1,2)] assms(3) have s: "v \<notin> set s" "v \<notin> set (stack t)"
    "set s \<inter> set (stack t) = {}" "\<And>y. y \<in> set (stack t) \<Longrightarrow> num t' y = num t y"
    by (metis same_append_eq append_same_eq)+
  have G: "G \<subseteq> set (stack t)" using assms(1) invD(3) by (auto simp: visit_pre_def)
  have "b \<in> visited t'"
  proof (cases "a = v")
    case True
    then show ?thesis using post(3) e(2) by (auto simp: edges_def)
  next
    case False
    then have "a \<in> visited t'" "a \<notin> insert v G" using e(1) a(10) assms(3) G s(3) by auto
    then show ?thesis using i(6) e(2) by blast
  qed
  then have "b \<in> finished (components t') \<or> b \<in> set (stack t)" using a(4) assms(3) e(3) by auto
  moreover have "low t' ! v \<le> num t' b" if b: "b \<in> set (stack t)"
  proof (cases "a = v")
    case True
    then show ?thesis using post(6) [of b] e(2) b assms(3) by (auto simp: edges_def)
  next
    case False
    then have "low t' ! v \<le> num (enter v t) b" using post(7) [of a b] e b assms(3) s(3) by auto
    also have "num (enter v t) b = num t' b" using s(2,4) b enter_num(1) by metis
    finally show ?thesis .
  qed
  ultimately show ?thesis by blast
qed

lemma component_closed:
  assumes "visit_pre g G v t" "loop_post g G v (g ! v) (enter v t) t'" "stack t' = s @ v # stack t"
    and root: "low t' ! v = num t' v"
  shows "closed g (insert v (set s) \<union> finished (components t'))"
proof -
  from loop_end [OF assms(1,2)] assms(3) have lt: "\<And>y. y \<in> set (stack t) \<Longrightarrow> num t' y < num t' v" by metis
  have fin: "closed g (finished (components t'))"
    using invD(2) [OF loop_postD(1) [OF assms(2)]] unfolding components_ok_def
    by (metis order_refl take_all)
  show ?thesis
    unfolding closed_def
  proof (intro ballI allI impI)
    fix a b assume a: "a \<in> insert v (set s) \<union> finished (components t')" and e: "(a, b) \<in> edges g"
    show "b \<in> insert v (set s) \<union> finished (components t')"
    proof (cases "a \<in> insert v (set s) \<and> b \<notin> insert v (set s)")
      case True
      then show ?thesis
        using leaving_component [OF assms(1-3) _ e] lt root by (metis UnCI not_less)
    next
      case False
      then show ?thesis using a e fin by (auto simp: closed_def)
    qed
  qed
qed

lemma component_scc:
  assumes "visit_pre g G v t" "loop_post g G v (g ! v) (enter v t) t'" "stack t' = s @ v # stack t"
    and root: "low t' ! v = num t' v" and x: "x \<in> insert v (set s)"
  shows "scc_of g x = insert v (set s)"
proof -
  let ?A = "insert v (set s)" and ?F = "finished (components t')"
  note i = invD [OF loop_postD(1) [OF assms(2)]]
  note a = arraysD [OF i(1)] and cl = component_closed [OF assms(1-4)]
  from loop_end [OF assms(1,2)] assms(3) have s: "v \<notin> set (stack t)" "set s \<inter> set (stack t) = {}"
    "\<And>x. x \<in> set s \<Longrightarrow> num t' v < num t' x" by (metis append_same_eq)+
  have G: "G \<subseteq> set (stack t)" using assms(1) invD(3) by (auto simp: visit_pre_def)
  have F: "?F \<inter> set (stack t') = {}" "closed g ?F" using a(5) i(2) unfolding components_ok_def
    by (auto, metis order_refl take_all)
  have A: "?A \<subseteq> set (stack t')" using assms(3) by auto
  have to_v: "reaches g y v" if y: "y \<in> ?A" for y
  proof -
    from i(4) [of y] y A obtain z where z: "z \<in> insert v G" "reaches g y z" by blast
    then have "z \<in> ?A \<union> ?F" using closed_reaches [OF z(2) cl] y by blast
    moreover have "z \<notin> set (stack t)" if "z \<noteq> v" using calculation s(1,2) F(1) assms(3) that by auto
    ultimately show ?thesis using z G by auto
  qed
  have from_v: "reaches g v y" if "y \<in> ?A" for y
    using i(5) [of v y] that A s(3) by (metis insert_iff less_imp_le rtrancl.rtrancl_refl subsetD)
  have "z \<in> ?A" if z: "reaches g x z" "reaches g z x" for z
  proof -
    have "z \<in> ?A \<union> ?F" using closed_reaches [OF z(1) cl] x by blast
    moreover have "z \<notin> ?F" using closed_reaches [OF z(2) F(2)] x A F(1) by blast
    ultimately show ?thesis by blast
  qed
  moreover have "reaches g x z" "reaches g z x" if "z \<in> ?A" for z
    using that x to_v from_v rtrancl_trans by metis+
  ultimately show ?thesis by (auto simp: scc_of_def)
qed

lemma pop_loop_ok:
  assumes "v \<notin> set s" "\<And>w. w \<in> set (s @ [v]) \<Longrightarrow> w < length marks"
  shows "\<exists>marks'. pop_loop v (s @ v # st) marks c = Inr (st, marks', c @ s @ [v]) \<and>
    length marks' = length marks \<and>
    (\<forall>u < length marks. marks' ! u \<longleftrightarrow> marks ! u \<and> u \<notin> set (s @ [v]))"
  using assms
proof (induction s arbitrary: marks c)
  case Nil
  then show ?case by (auto simp: nth_list_update)
next
  case (Cons w s)
  have "v \<notin> set s" "\<And>u. u \<in> set (s @ [v]) \<Longrightarrow> u < length (marks[w := False])" using Cons.prems by auto
  from Cons.IH [OF this, of "c @ [w]"] obtain marks' where
    m: "pop_loop v (s @ v # st) (marks[w := False]) (c @ [w]) = Inr (st, marks', (c @ [w]) @ s @ [v])"
    "length marks' = length marks"
    "\<forall>u < length marks. marks' ! u \<longleftrightarrow> marks[w := False] ! u \<and> u \<notin> set (s @ [v])" by auto
  have "w < length marks" "w \<noteq> v" using Cons.prems by auto
  with m show ?case by (auto simp: nth_list_update)
qed

lemma finished_snoc: "finished (cs @ [c]) = finished cs \<union> set c"
  by (auto simp: finished_def)

lemma components_snoc:
  assumes "components_ok g cs" "distinct c" "c \<noteq> []" "set c \<inter> finished cs = {}"
    "\<And>v. v \<in> set c \<Longrightarrow> v < length g \<and> scc_of g v = set c" "closed g (set c \<union> finished cs)"
  shows "components_ok g (cs @ [c])"
proof -
  have "closed g (finished (take k (cs @ [c])))" for k
    using assms(1,6) by (cases "k \<le> length cs") (auto simp: components_ok_def finished_snoc Un_commute)
  moreover have "distinct (concat (cs @ [c]))"
    using assms(1,2,4) by (auto simp: components_ok_def finished_def)
  moreover have "\<forall>d \<in> set (cs @ [c]). d \<noteq> [] \<and> (\<forall>v \<in> set d. v < length g \<and> set d = scc_of g v)"
    using assms(1,3,5) by (auto simp: components_ok_def)
  ultimately show ?thesis unfolding components_ok_def by blast
qed

lemma visit_end_root:
  assumes pre: "visit_pre g G v t" and post: "loop_post g G v (g ! v) (enter v t) t'"
    and root: "low t' ! v = num t' v"
  shows "\<exists>t''. pop_component v t' = Inr t'' \<and> visit_post g G v t t''"
proof -
  from loop_end [OF pre post] obtain s where s: "stack t' = s @ v # stack t" "v \<notin> set s" "v \<notin> set (stack t)"
    "set s \<inter> set (stack t) = {}" "\<And>y. y \<in> set (stack t) \<Longrightarrow> num t' y = num t y"
    and gr: "evolves {v} t t'" and v: "v \<in> visited t'" by metis
  have p: "search_inv g G t" "v \<notin> visited t" using pre by (auto simp: visit_pre_def)
  note i = invD [OF p(1)] and i' = invD [OF loop_postD(1) [OF post]]
  note a = arraysD [OF i(1)] and a' = arraysD [OF i'(1)]
  have lt: "w < length g" if "w \<in> visited t'" for w using that a'(1) by (simp add: visited_def)
  have "\<And>w. w \<in> set (s @ [v]) \<Longrightarrow> w < length (on_stack t')" using lt a'(3,10) s(1) by auto
  from pop_loop_ok [OF s(2) this, of "stack t" "[]"] obtain marks where
    m: "pop_loop v (stack t') (on_stack t') [] = Inr (stack t, marks, s @ [v])" "length marks = length g"
    "\<forall>u < length g. marks ! u \<longleftrightarrow> on_stack t' ! u \<and> u \<notin> set (s @ [v])" using a'(3) s(1) by auto
  define t'' where "t'' = t'\<lparr>stack := stack t, on_stack := marks, components := components t' @ [s @ [v]]\<rparr>"
  have sel: "stack t'' = stack t" "on_stack t'' = marks" "components t'' = components t' @ [s @ [v]]"
    "index t'' = index t'" "low t'' = low t'" "next_index t'' = next_index t'" "visited t'' = visited t'"
    "num t'' = num t'"
    by (simp_all add: t''_def visited_def num_def fun_eq_iff)
  have "arrays_ok g t''"
    unfolding arrays_ok_def sel finished_snoc
    using a' a(6) m(2,3) s(1-4) by (auto simp: sorted_wrt_append)
  moreover have "components_ok g (components t'')"
    unfolding sel
  proof (rule components_snoc [OF i'(2)])
    show "w < length g \<and> scc_of g w = set (s @ [v])" if "w \<in> set (s @ [v])" for w
      using component_scc [OF pre post s(1) root, of w] that lt a'(10) s(1) by auto
    show "closed g (set (s @ [v]) \<union> finished (components t'))"
      using component_closed [OF pre post s(1) root] by simp
  qed (use a'(5,6) s(1) in auto)
  moreover have "search_ok g G t''"
    unfolding search_ok_def sel
  proof (intro conjI ballI allI impI)
    show "G \<subseteq> set (stack t)" by (rule i(3))
    show "\<exists>y \<in> G. num t' y \<le> num t' x \<and> reaches g x y" if "x \<in> set (stack t)" for x
      using i(4) [OF that] s(5) that i(3) by (metis subsetD)
    show "reaches g x y" if "x \<in> G" "y \<in> set (stack t)" "num t' x \<le> num t' y" for x y
      using i(5) [OF that(1,2)] s(5) that i(3) by (metis subsetD)
    show "w \<in> visited t'" if "u \<in> visited t' - G" "(u, w) \<in> edges g" for u w
    proof (cases "u = v")
      case True
      then show ?thesis using loop_postD(3) [OF post] that(2) by (auto simp: edges_def)
    qed (use i'(6) that in blast)
  qed
  moreover have "evolves {} t t''"
    using gr p(2) unfolding evolves_def sel by auto
  ultimately have "visit_post g G v t t''"
    using v root by (simp add: visit_post_def search_inv_def sel)
  moreover have "pop_component v t' = Inr t''" using m(1) by (simp add: pop_component_def t''_def)
  ultimately show ?thesis by blast
qed

lemma visit_end_inner:
  assumes pre: "visit_pre g G v t" and post: "loop_post g G v (g ! v) (enter v t) t'"
    and inner: "low t' ! v \<noteq> num t' v"
  shows "visit_post g G v t t'"
proof -
  from loop_end [OF pre post] obtain s where s: "stack t' = s @ v # stack t" "v \<notin> set s" "v \<notin> set (stack t)"
    "set s \<inter> set (stack t) = {}" "\<And>x. x \<in> set s \<Longrightarrow> num t' v < num t' x"
    "\<And>y. y \<in> set (stack t) \<Longrightarrow> num t' y < num t' v" "\<And>y. y \<in> set (stack t) \<Longrightarrow> num t' y = num t y"
    and low: "low (enter v t) ! v = num t' v" and gr: "evolves {v} t t'" and v: "v \<in> visited t'" by metis
  have p: "search_inv g G t" "v \<notin> visited t" using pre by (auto simp: visit_pre_def)
  note i = invD [OF p(1)] and l = loop_postD [OF post]
  note i' = invD [OF l(1)]
  obtain b where b: "b \<in> set (stack t)" "num t b = low t' ! v" "reaches g v b"
  proof -
    from l(5) low inner obtain b where b: "b \<in> set (stack t')" "num t' b = low t' ! v" "reaches g v b" by metis
    have "num t' b < num t' v" using b(2) l(4) low inner by simp
    then have "b \<in> set (stack t)" using b(1) s(1,5) by fastforce
    with b s(7) that show thesis by metis
  qed
  have "search_ok g G t'"
    unfolding search_ok_def
  proof (intro conjI ballI allI impI)
    show "G \<subseteq> set (stack t')" using i'(3) by blast
  next
    fix x assume x: "x \<in> set (stack t')"
    from i'(4) [OF x] obtain y where y: "y \<in> insert v G" "num t' y \<le> num t' x" "reaches g x y" by blast
    show "\<exists>y \<in> G. num t' y \<le> num t' x \<and> reaches g x y"
    proof (cases "y \<in> G")
      case False
      then have yv: "y = v" using y(1) by simp
      from i(4) [OF b(1)] obtain z where z: "z \<in> G" "num t z \<le> num t b" "reaches g b z" by blast
      have "num t' z \<le> num t' b" "num t' b < num t' v" using z(1,2) i(3) b(1) s(6,7) by (metis subsetD)+
      moreover have "reaches g x z" using y(3) yv b(3) z(3) by simp
      ultimately show ?thesis using z(1) y(2) yv by (intro bexI [of _ z]) simp_all
    qed (use y in blast)
  next
    show "reaches g x y" if "x \<in> G" "y \<in> set (stack t')" "num t' x \<le> num t' y" for x y
      using i'(5) that by blast
  next
    show "w \<in> visited t'" if "u \<in> visited t' - G" "(u, w) \<in> edges g" for u w
    proof (cases "u = v")
      case True
      then show ?thesis using l(3) that(2) by (auto simp: edges_def)
    qed (use i'(6) that in blast)
  qed
  moreover have "low t' ! v \<le> num t y"
    if xy: "x \<in> set (stack t')" "x \<notin> set (stack t)" "y \<in> set (stack t)" "(x, y) \<in> edges g" for x y
  proof -
    have "x \<in> insert v (set s)" "y \<notin> insert v (set s)" using xy s(1,3,4) by auto
    then have "low t' ! v \<le> num t' y \<or> y \<in> finished (components t')"
      using leaving_component [OF pre post s(1) _ xy(4)] by blast
    then show ?thesis using arraysD(5) [OF i'(1)] xy(3) s(1,7) by auto
  qed
  moreover have "evolves {} t t'" using gr p(2) unfolding evolves_def by auto
  ultimately show ?thesis
    using i'(1,2) v l(4) low b by (auto simp: visit_post_def search_inv_def)
qed

subsection \<open>The whole search\<close>

definition unvisited :: "nat list list \<Rightarrow> Tarjan \<Rightarrow> nat" where
  "unvisited g t = card ({0..<length g} - visited t)"

lemma unvisited_mono: "visited t \<subseteq> visited t' \<Longrightarrow> unvisited g t' \<le> unvisited g t"
  unfolding unvisited_def by (intro card_mono) auto

lemma unvisited_enter:
  assumes "v < length g" "v \<notin> visited t" "length (index t) = length g"
  shows "Suc (unvisited g (enter v t)) = unvisited g t"
proof -
  have "{0..<length g} - visited (enter v t) = ({0..<length g} - visited t) - {v}"
    using assms(1,3) by (auto simp: enter_visited)
  moreover have "v \<in> {0..<length g} - visited t" using assms(1,2) by simp
  ultimately show ?thesis unfolding unvisited_def by (metis card_Suc_Diff1 finite_Diff finite_atLeastLessThan)
qed

lemma search_correct:
  assumes ok: "graph_ok g"
  shows "visit_pre g G v t \<Longrightarrow> unvisited g t \<le> fuel \<Longrightarrow>
      \<exists>t'. visit g fuel v t = Some (Inr t') \<and> visit_post g G v t t'"
    and "loop_pre g G v ws t \<Longrightarrow> unvisited g t \<le> fuel \<Longrightarrow>
      \<exists>t'. visit_successors g fuel v ws t = Some (Inr t') \<and> loop_post g G v ws t t'"
  using ok
proof (induction g fuel v t and g fuel v ws t arbitrary: G and G rule: visit_visit_successors.induct)
  case (1 g v t)
  have "v \<in> {0..<length g} - visited t" using 1(1) by (simp add: visit_pre_def)
  then have "unvisited g t \<noteq> 0" unfolding unvisited_def by (metis card_0_eq empty_iff finite_Diff finite_atLeastLessThan)
  then show ?case using 1 by simp
next
  case (2 g fuel v t)
  have p: "search_inv g G t" "v < length g" "v \<notin> visited t" using 2(2) by (auto simp: visit_pre_def)
  have len: "length (index t) = length g" using arraysD(1) [OF invD(1) [OF p(1)]] .
  have "unvisited g (enter v t) \<le> fuel" using 2(3) unvisited_enter [OF p(2,3) len] by simp
  with 2(1) [OF _ enter_inv [OF 2(2)]] 2(4) p(2) len obtain t' where
    t': "visit_successors g fuel v (g ! v) (enter v t) = Some (Inr t')" "loop_post g G v (g ! v) (enter v t) t'" by auto
  from loop_end [OF 2(2) t'(2)] have v: "v \<in> visited t'" by metis
  then have num: "index t' ! v = Some (num t' v)" by (auto simp: visited_def num_def)
  show ?case
  proof (cases "low t' ! v = num t' v")
    case True
    with visit_end_root [OF 2(2) t'(2)] obtain t'' where "pop_component v t' = Inr t''" "visit_post g G v t t''" by blast
    then show ?thesis using t'(1) num True p(2) len by simp
  next
    case False
    then show ?thesis using visit_end_inner [OF 2(2) t'(2) False] t'(1) num p(2) len by simp
  qed
next
  case (3 g fuel v t)
  then show ?case using loop_preD(1) [OF 3(1)] evolves_refl by (auto simp: loop_post_def)
next
  case (4 g fuel v w ws t)
  note pre = loop_preD [OF 4(3)]
  have w: "w < length g" using edge_range [OF 4(5), of v w] pre(2,6) by (auto simp: edges_def)
  have len: "length (index t) = length g" using arraysD(1) [OF invD(1) [OF pre(1)]] .
  obtain t1 where t1: "loop_post g G v [w] t t1"
    "(case index t ! w of None \<Rightarrow> bind_run (visit g fuel w t) (\<lambda>t. Some (Inr (lower v (low t ! w) t)))
      | Some i \<Rightarrow> Some (Inr (if on_stack t ! w then lower v i t else t))) = Some (Inr t1)"
  proof (cases "index t ! w")
    case None
    from 4(1) [OF _ None loop_visit_pre [OF 4(5,3) None] 4(4,5)] w len obtain t' where
      t': "visit g fuel w t = Some (Inr t')" "visit_post g (insert v G) w t t'" by auto
    then show thesis using that [OF loop_step_white [OF 4(5,3) None t'(2)]] None by simp
  next
    case (Some i)
    then show thesis using that [OF loop_step_seen [OF 4(3) Some w]] by simp
  qed
  have "unvisited g t1 \<le> fuel"
    using unvisited_mono [OF growsD(1) [OF loop_postD(2) [OF t1(1)]], of g] 4(4) by linarith
  from 4(2) [OF _ loop_step_pre [OF 4(3) t1(1)] this 4(5)] w len obtain t2 where
    "visit_successors g fuel v ws t1 = Some (Inr t2)" "loop_post g G v ws t1 t2" by auto
  then show ?case using loop_trans [OF 4(3) t1(1)] t1(2) w len by auto
qed

lemma initial_inv: "search_inv g {} (initial (length g))"
  by (auto simp: search_inv_def arrays_ok_def components_ok_def search_ok_def initial_def visited_def
      finished_def closed_def)

lemma no_stack: "search_inv g {} t \<Longrightarrow> stack t = []"
  using invD(4) [of g "{}" t "hd (stack t)"] by (cases "stack t") auto

lemma unvisited_le: "unvisited g t \<le> length g"
  unfolding unvisited_def by (metis Diff_subset card_atLeastLessThan card_mono diff_zero finite_atLeastLessThan)

lemma roots_correct:
  "graph_ok g \<Longrightarrow> search_inv g {} t \<Longrightarrow> (\<And>v. v \<in> set vs \<Longrightarrow> v < length g) \<Longrightarrow>
     \<exists>t'. visit_roots g vs t = Some (Inr t') \<and> search_inv g {} t' \<and> visited t \<subseteq> visited t' \<and> set vs \<subseteq> visited t'"
proof (induction vs arbitrary: t)
  case (Cons v vs)
  have v: "v < length g" "v < length (index t)"
    using Cons.prems(3) arraysD(1) [OF invD(1) [OF Cons.prems(2)]] by auto
  obtain t1 where t1: "(if index t ! v = None then visit g (length g) v t else Some (Inr t)) = Some (Inr t1)"
    "search_inv g {} t1" "visited t \<subseteq> visited t1" "v \<in> visited t1"
  proof (cases "index t ! v = None")
    case True
    then have "visit_pre g {} v t" using v Cons.prems(2) by (simp add: visit_pre_def visited_def)
    from search_correct(1) [OF Cons.prems(1) this unvisited_le] obtain t1 where
      "visit g (length g) v t = Some (Inr t1)" "visit_post g {} v t t1" by blast
    then show thesis using that True visit_postD(1,3) growsD(1) [OF visit_postD(2)] by (metis (full_types))
  next
    case False
    then show thesis using that Cons.prems(2) v by (auto simp: visited_def)
  qed
  have "\<And>v. v \<in> set vs \<Longrightarrow> v < length g" using Cons.prems(3) by simp
  from Cons.IH [OF Cons.prems(1) t1(2) this] obtain t2 where
    "visit_roots g vs t1 = Some (Inr t2)" "search_inv g {} t2" "visited t1 \<subseteq> visited t2" "set vs \<subseteq> visited t2" by blast
  then show ?case using t1 by auto
qed simp

lemma strongly_connected_ok:
  assumes "graph_ok g"
  shows "\<exists>cs. strongly_connected g = Some (Inr cs) \<and> components_ok g cs \<and> set (concat cs) = {0..<length g}"
proof -
  from roots_correct [OF assms initial_inv, of "[0..<length g]"] obtain t where
    t: "visit_roots g [0..<length g] (initial (length g)) = Some (Inr t)" "search_inv g {} t"
    "{0..<length g} \<subseteq> visited t" by auto
  note a = arraysD [OF invD(1) [OF t(2)]]
  have "visited t = {0..<length g}" using t(3) a(1) by (auto simp: visited_def)
  then have "set (concat (components t)) = {0..<length g}" using a(4) no_stack [OF t(2)] by (simp add: finished_def)
  then show ?thesis using t(1) invD(2) [OF t(2)] by (simp add: strongly_connected_def)
qed

lemma components_ordered:
  assumes "components_ok g cs" "i < length cs" "j < length cs" "u \<in> set (cs ! i)" "w \<in> set (cs ! j)" "reaches g u w"
  shows "j \<le> i"
proof (rule ccontr)
  assume "\<not> j \<le> i"
  have "u \<in> finished (take (Suc i) cs)" using assms(2,4) by (auto simp: finished_def take_Suc_conv_app_nth)
  then have "w \<in> finished (take (Suc i) cs)"
    using closed_reaches [OF assms(6)] assms(1) by (auto simp: components_ok_def)
  moreover have "w \<in> set (concat (drop (Suc i) cs))"
  proof -
    have "drop (Suc i) cs ! (j - Suc i) \<in> set (drop (Suc i) cs)" using assms(3) \<open>\<not> j \<le> i\<close> by (intro nth_mem) simp
    moreover have "drop (Suc i) cs ! (j - Suc i) = cs ! j" using assms(3) \<open>\<not> j \<le> i\<close> by simp
    ultimately show ?thesis using assms(5) by auto
  qed
  moreover have "distinct (concat (take (Suc i) cs) @ concat (drop (Suc i) cs))"
    using assms(1) unfolding components_ok_def by (metis append_take_drop_id concat_append)
  ultimately show False by (auto simp: finished_def)
qed

lemma cyclic_vertices:
  assumes "components_ok g cs" "c \<in> set cs" "v \<in> set c"
  shows "(v, v) \<in> (edges g)\<^sup>+ \<longleftrightarrow> length c > 1 \<or> c ! 0 \<in> set (g ! (c ! 0))"
proof -
  have c: "distinct c" "v < length g" "set c = scc_of g v"
    using assms by (auto simp: components_ok_def distinct_concat_iff)
  show ?thesis
  proof (cases "length c > 1")
    case True
    obtain w where w: "w \<in> set c" "w \<noteq> v"
    proof -
      have "card (set c) > 1" using True c(1) by (simp add: distinct_card)
      then have "set c \<noteq> {v}" by auto
      then show thesis using that assms(3) by auto
    qed
    then have "(v, w) \<in> (edges g)\<^sup>*" "(w, v) \<in> (edges g)\<^sup>*" using c(3) by (auto simp: scc_of_def)
    then have "(v, v) \<in> (edges g)\<^sup>+" using w(2) by (metis rtranclD rtrancl_trancl_trancl)
    then show ?thesis using True by simp
  next
    case False
    then have cv: "c = [v]" using assms(3) by (cases c; cases "tl c") auto
    have "(v, v) \<in> (edges g)\<^sup>+ \<longleftrightarrow> (v, v) \<in> edges g"
    proof
      assume "(v, v) \<in> (edges g)\<^sup>+"
      then obtain x where x: "(v, x) \<in> edges g" "reaches g x v" by (meson tranclD)
      then have "x \<in> scc_of g v" by (auto simp: scc_of_def)
      then show "(v, v) \<in> edges g" using x(1) c(3) cv by auto
    qed auto
    then show ?thesis using cv c(2) by (simp add: edges_def)
  qed
qed

subsection \<open>Properties\<close>

text \<open>C24. On every graph whose edges stay inside it, the search ends without a panic. The components
  partition the vertices, each is the set of vertices mutually reachable with any of its members, and a
  component comes out after every other component it reaches.\<close>
theorem strongly_connected_correct:
  assumes "graph_ok g"
  shows "\<exists>cs. strongly_connected g = Some (Inr cs) \<and> distinct (concat cs) \<and>
    set (concat cs) = {0..<length g} \<and>
    (\<forall>c \<in> set cs. c \<noteq> [] \<and> (\<forall>v \<in> set c. set c = {w. reaches g v w \<and> reaches g w v})) \<and>
    (\<forall>i < length cs. \<forall>j < length cs. \<forall>u \<in> set (cs ! i). \<forall>w \<in> set (cs ! j). reaches g u w \<longrightarrow> j \<le> i)"
proof -
  obtain cs where cs: "strongly_connected g = Some (Inr cs)" "components_ok g cs" "set (concat cs) = {0..<length g}"
    using strongly_connected_ok [OF assms] by blast
  moreover have "\<forall>c \<in> set cs. c \<noteq> [] \<and> (\<forall>v \<in> set c. set c = {w. reaches g v w \<and> reaches g w v})"
    using cs(2) by (simp add: components_ok_def scc_of_def)
  ultimately show ?thesis using components_ordered [OF cs(2)] by (auto simp: components_ok_def)
qed

theorem strongly_connected_correct_witness:
  "\<exists>cs. strongly_connected [[1], [0], [2], []] = Some (Inr cs) \<and> distinct (concat cs) \<and>
     set (concat cs) = {0..<length [[1], [0], [2], [] :: nat list]}"
proof -
  have "graph_ok [[1], [0], [2], []]" by code_simp
  from strongly_connected_correct [OF this] show ?thesis by blast
qed

lemma distinct_concat_filter: "distinct (concat cs) \<Longrightarrow> distinct (concat (filter P cs))"
  by (induction cs) auto

lemma cyclic_components_ok:
  assumes "graph_ok g"
  shows "\<exists>cs. cyclic_components g = Some (Inr cs) \<and> distinct (concat cs) \<and>
    (\<forall>c \<in> set cs. c \<noteq> [] \<and> (\<forall>v \<in> set c. set c = {w. reaches g v w \<and> reaches g w v})) \<and>
    set (concat cs) = {v. (v, v) \<in> (edges g)\<^sup>+}"
proof -
  obtain cs where cs: "strongly_connected g = Some (Inr cs)" "components_ok g cs" "set (concat cs) = {0..<length g}"
    using strongly_connected_ok [OF assms] by blast
  let ?ds = "filter (\<lambda>c. length c > 1 \<or> c ! 0 \<in> set (g ! (c ! 0))) cs"
  have "v \<in> set (concat ?ds) \<longleftrightarrow> (v, v) \<in> (edges g)\<^sup>+" for v
  proof
    assume "v \<in> set (concat ?ds)"
    then obtain c where "c \<in> set cs" "v \<in> set c" "length c > 1 \<or> c ! 0 \<in> set (g ! (c ! 0))" by auto
    then show "(v, v) \<in> (edges g)\<^sup>+" using cyclic_vertices [OF cs(2)] by blast
  next
    assume v: "(v, v) \<in> (edges g)\<^sup>+"
    then have "v < length g" by (auto dest: tranclD simp: edges_def)
    then have "v \<in> set (concat cs)" using cs(3) by simp
    then obtain c where "c \<in> set cs" "v \<in> set c" by auto
    then show "v \<in> set (concat ?ds)" using cyclic_vertices [OF cs(2), of c v] v by auto
  qed
  then have "set (concat ?ds) = {v. (v, v) \<in> (edges g)\<^sup>+}" by blast
  moreover have "distinct (concat ?ds)"
    using cs(2) by (simp add: components_ok_def distinct_concat_filter)
  moreover have "\<forall>c \<in> set ?ds. c \<noteq> [] \<and> (\<forall>v \<in> set c. set c = {w. reaches g v w \<and> reaches g w v})"
    using cs(2) by (simp add: components_ok_def scc_of_def)
  moreover have "cyclic_components g = Some (Inr ?ds)" using cs(1) by (simp add: cyclic_components_def)
  ultimately show ?thesis by blast
qed

end
