(* ===== verification/Module_Graph.thy ===== *)
theory Module_Graph
  imports Strong_Components Tag_Maps
begin

section \<open>The module graph\<close>

text \<open>
  \<open>cycles\<close> and \<open>link_order\<close> of \<open>src/ccl/load/graph.rs\<close>, over the modules and edges of
  \<open>src/ccl/load/mod.rs\<close>. The tree of a module and its parse errors are not read here; their types are
  parameters. A \<open>BTreeMap\<close> that is iterated is an entry list in key order, one that is only looked up is
  an association list, and a \<open>BTreeSet\<close> is an ascending list.
\<close>

subsection \<open>Modules\<close>

datatype EdgeKind = Import | Run

record Edge =
  e_kind :: EdgeKind
  e_span :: Span
  e_target :: FileId

record ('a, 'p) LoadedModule =
  lm_file :: FileId
  lm_ast :: "'a option"
  lm_parse_errors :: "'p list"
  lm_edges :: "Edge list"

record CycleStep =
  cs_span :: Span
  cs_kind :: EdgeKind
  cs_from :: utext
  cs_to :: utext

datatype MissingModule =
    NoFile utext
  | CaseMismatch utext utext
  | SameFile utext ModulePath
  | Unreadable utext utext

datatype LoadError =
    Missing Span ModulePath MissingModule
  | NoStdModule Span ModulePath
  | Cycle "CycleStep list"

definition name_of_module :: "SourceMap \<Rightarrow> FileId \<Rightarrow> utext res" where
  "name_of_module sources f =
     bind_res (file_module f sources) (\<lambda>m. case m of
       Some p \<Rightarrow> Inr (ModulePath_display p)
     | None \<Rightarrow> file_path f sources)"

text \<open>\<open>key\<close>: \<open>None\<close>, a root that no path names, is below every path.\<close>

definition key :: "SourceMap \<Rightarrow> FileId \<Rightarrow> ModulePath option res" where
  "key sources f = file_module f sources"

text \<open>The position of a file's module; a later module with the same file replaces an earlier one.\<close>

definition index_of :: "('a, 'p) LoadedModule list \<Rightarrow> FileId \<Rightarrow> nat res" where
  "index_of modules f =
     (case rposition (\<lambda>m. lm_file m = f) modules of Some i \<Rightarrow> Inr i | None \<Rightarrow> Inl OutOfRange)"

definition successors :: "('a, 'p) LoadedModule list \<Rightarrow> nat list list res" where
  "successors modules = map_res (\<lambda>m. map_res (\<lambda>e. index_of modules (e_target e)) (lm_edges m)) modules"

text \<open>\<open>sort_by_key\<close>, which is stable.\<close>

definition sort_by_res :: "('a \<Rightarrow> 'k::linorder res) \<Rightarrow> 'a list \<Rightarrow> 'a list res" where
  "sort_by_res f xs =
     map_ok (\<lambda>ks. map snd (sort_key fst ks)) (map_res (\<lambda>x. map_ok (\<lambda>k. (k, x)) (f x)) xs)"

definition key_at :: "SourceMap \<Rightarrow> ('a, 'p) LoadedModule list \<Rightarrow> nat \<Rightarrow> ModulePath option res" where
  "key_at sources modules i = bind_res (nth_res modules i) (\<lambda>m. key sources (lm_file m))"

subsection \<open>Cycles\<close>

text \<open>The edges of one module, in order: the edge that closes the cycle, or what was newly reached.
  \<open>via\<close> holds for a vertex the vertex and the edge it was first reached by.\<close>

type_synonym via = "(nat \<times> nat \<times> nat) list"

fun search_edges :: "('a, 'p) LoadedModule list \<Rightarrow> nat \<Rightarrow> nat list \<Rightarrow> nat \<Rightarrow> (nat \<times> Edge) list \<Rightarrow> via \<Rightarrow> nat list \<Rightarrow>
    ((nat \<times> nat) option \<times> via \<times> nat list) res" where
  "search_edges modules start inside v [] via queue = Inr (None, via, queue)"
| "search_edges modules start inside v ((e, edge) # es) via queue =
     bind_res (index_of modules (e_target edge)) (\<lambda>w.
       if w = start then Inr (Some (v, e), via, queue)
       else if w \<in> set inside \<and> map_of via w = None
       then search_edges modules start inside v es ((w, v, e) # via) (queue @ [w])
       else search_edges modules start inside v es via queue)"

text \<open>The breadth-first search, with a bound on the vertices it takes from the queue.\<close>

fun search :: "('a, 'p) LoadedModule list \<Rightarrow> nat \<Rightarrow> nat list \<Rightarrow> nat \<Rightarrow> via \<Rightarrow> nat list \<Rightarrow>
    ((nat \<times> nat) option \<times> via) res option" where
  "search modules start inside fuel via [] = Some (Inr (None, via))"
| "search modules start inside 0 via (v # queue) = None"
| "search modules start inside (Suc fuel) via (v # queue) =
     bind_run (Some (nth_res modules v)) (\<lambda>m.
     bind_run (Some (search_edges modules start inside v (enumerate 0 (lm_edges m)) via queue)) (\<lambda>(closing, via, queue).
       case closing of
         Some c \<Rightarrow> Some (Inr (Some c, via))
       | None \<Rightarrow> search modules start inside fuel via queue))"

text \<open>Back from a vertex to the start, along \<open>via\<close>.\<close>

fun walk_back :: "nat \<Rightarrow> nat \<Rightarrow> via \<Rightarrow> nat \<Rightarrow> (nat \<times> nat) list \<Rightarrow> (nat \<times> nat) list res option" where
  "walk_back start fuel via v path =
     (if v = start then Some (Inr path)
      else case fuel of
        0 \<Rightarrow> None
      | Suc fuel \<Rightarrow>
          (case map_of via v of
             None \<Rightarrow> Some (Inl OutOfRange)
           | Some (u, e) \<Rightarrow> walk_back start fuel via u (path @ [(u, e)])))"

declare walk_back.simps [simp del]

definition cycle_step :: "('a, 'p) LoadedModule list \<Rightarrow> SourceMap \<Rightarrow> nat \<times> nat \<Rightarrow> CycleStep res" where
  "cycle_step modules sources p =
     bind_res (nth_res modules (fst p)) (\<lambda>m.
     bind_res (nth_res (lm_edges m) (snd p)) (\<lambda>edge.
     bind_res (name_of_module sources (lm_file m)) (\<lambda>from.
     bind_res (name_of_module sources (e_target edge)) (\<lambda>to.
       Inr \<lparr>cs_span = e_span edge, cs_kind = e_kind edge, cs_from = from, cs_to = to\<rparr>))))"

definition component_path :: "('a, 'p) LoadedModule list \<Rightarrow> nat list \<Rightarrow> (nat \<times> nat) list res option" where
  "component_path modules component =
     bind_run (Some (nth_res component 0)) (\<lambda>start.
     bind_run (search modules start component (length component) [] [start]) (\<lambda>(closing, via).
     bind_run (Some (case closing of Some c \<Rightarrow> Inr c | None \<Rightarrow> Inl ExpectFailed)) (\<lambda>(v, e).
     bind_run (walk_back start (length component) via v [(v, e)]) (\<lambda>path. Some (Inr (rev path))))))"

fun map_run :: "('a \<Rightarrow> 'b res option) \<Rightarrow> 'a list \<Rightarrow> 'b list res option" where
  "map_run f [] = Some (Inr [])"
| "map_run f (x # xs) = bind_run (f x) (\<lambda>y. bind_run (map_run f xs) (\<lambda>ys. Some (Inr (y # ys))))"

definition cycles :: "('a, 'p) LoadedModule list \<Rightarrow> SourceMap \<Rightarrow> LoadError list res option" where
  "cycles modules sources =
     bind_run (Some (successors modules)) (\<lambda>g.
     bind_run (cyclic_components g) (\<lambda>components.
     bind_run (Some (map_res (sort_by_res (key_at sources modules)) components)) (\<lambda>components.
     bind_run (Some (sort_by_res (\<lambda>c. bind_res (nth_res c 0) (key_at sources modules)) components)) (\<lambda>components.
       map_run (\<lambda>component.
         bind_run (component_path modules component) (\<lambda>path.
         bind_run (Some (map_res (cycle_step modules sources) path)) (\<lambda>steps. Some (Inr (Cycle steps))))) components))))"

subsection \<open>Link order\<close>

text \<open>\<open>BTreeMap::insert\<close>, and an ascending list from an iterator.\<close>

fun bt_insert :: "'k::linorder \<Rightarrow> 'v \<Rightarrow> ('k \<times> 'v) list \<Rightarrow> ('k \<times> 'v) list" where
  "bt_insert k v [] = [(k, v)]"
| "bt_insert k v ((l, w) # m) =
     (if k < l then (k, v) # (l, w) # m else if k = l then (k, v) # m else (l, w) # bt_insert k v m)"

definition bt_set :: "'a::linorder list \<Rightarrow> 'a list" where
  "bt_set xs = sort (remdups xs)"

definition bs_insert :: "'a::linorder \<Rightarrow> 'a list \<Rightarrow> 'a list" where
  "bs_insert x xs = (if x \<in> set xs then xs else insort x xs)"

type_synonym waiting = "(FileId \<times> FileId list) list"

definition waiting_of :: "('a, 'p) LoadedModule list \<Rightarrow> waiting" where
  "waiting_of modules =
     fold (\<lambda>m. bt_insert (lm_file m) (bt_set (map e_target (lm_edges m)))) modules []"

text \<open>\<open>entry(target).or_default().push(file)\<close>\<close>

definition push_dependent :: "FileId \<Rightarrow> FileId \<Rightarrow> (FileId \<times> FileId list) list \<Rightarrow> (FileId \<times> FileId list) list" where
  "push_dependent f target m =
     bt_insert target ((case map_of m target of Some fs \<Rightarrow> fs | None \<Rightarrow> []) @ [f]) m"

definition dependents_of :: "waiting \<Rightarrow> (FileId \<times> FileId list) list" where
  "dependents_of waiting = fold (\<lambda>(f, targets). fold (push_dependent f) targets) waiting []"

definition ready_of :: "SourceMap \<Rightarrow> waiting \<Rightarrow> (ModulePath option \<times> FileId) list res" where
  "ready_of sources waiting =
     map_ok bt_set (map_res (\<lambda>(f, _). map_ok (\<lambda>k. (k, f)) (key sources f))
       (filter (\<lambda>(f, targets). targets = []) waiting))"

fun release_dependents :: "SourceMap \<Rightarrow> FileId \<Rightarrow> FileId list \<Rightarrow> waiting \<Rightarrow>
    (ModulePath option \<times> FileId) list \<Rightarrow> (waiting \<times> (ModulePath option \<times> FileId) list) res" where
  "release_dependents sources f [] waiting ready = Inr (waiting, ready)"
| "release_dependents sources f (d # ds) waiting ready =
     (case map_of waiting d of
        None \<Rightarrow> Inl ExpectFailed
      | Some targets \<Rightarrow>
          let targets = removeAll f targets; waiting = bt_insert d targets waiting in
          if targets = []
          then bind_res (key sources d) (\<lambda>k. release_dependents sources f ds waiting (bs_insert (k, d) ready))
          else release_dependents sources f ds waiting ready)"

fun link_loop :: "SourceMap \<Rightarrow> (FileId \<times> FileId list) list \<Rightarrow> nat \<Rightarrow> waiting \<Rightarrow>
    (ModulePath option \<times> FileId) list \<Rightarrow> FileId list \<Rightarrow> FileId list res option" where
  "link_loop sources dependents fuel waiting [] order = Some (Inr order)"
| "link_loop sources dependents 0 waiting ((k, f) # ready) order = None"
| "link_loop sources dependents (Suc fuel) waiting ((k, f) # ready) order =
     bind_run (Some (release_dependents sources f
         (case map_of dependents f of Some ds \<Rightarrow> ds | None \<Rightarrow> []) waiting ready)) (\<lambda>(waiting, ready).
       link_loop sources dependents fuel waiting ready (order @ [f]))"

definition link_order :: "('a, 'p) LoadedModule list \<Rightarrow> SourceMap \<Rightarrow> FileId list res option" where
  "link_order modules sources =
     (let waiting = waiting_of modules; dependents = dependents_of waiting in
      bind_run (Some (ready_of sources waiting)) (\<lambda>ready.
      bind_run (link_loop sources dependents (length modules) waiting ready []) (\<lambda>order.
        Some (if length order = length modules then Inr order else Inl AssertFailed))))"

end
