(* ===== verification/Link_Order.thy ===== *)
theory Link_Order
  imports Module_Graph
begin

section \<open>The link order\<close>

text \<open>
  \<open>link_order\<close> returns the one order in which every module stands after the modules it has an edge to
  and, among those that could come next, the one with the least module path comes first. On a cyclic
  graph its assertion fails.
\<close>

definition module_files :: "('a, 'p) LoadedModule list \<Rightarrow> FileId set" where
  "module_files modules = lm_file ` set modules"

text \<open>The edges between files.\<close>

definition depends :: "('a, 'p) LoadedModule list \<Rightarrow> (FileId \<times> FileId) set" where
  "depends modules = {(f, t). \<exists>m \<in> set modules. lm_file m = f \<and> t \<in> e_target ` set (lm_edges m)}"

text \<open>One module per file, every file in the source map, and every edge to a file that is loaded.\<close>

definition modules_ok :: "SourceMap \<Rightarrow> ('a, 'p) LoadedModule list \<Rightarrow> bool" where
  "modules_ok sources modules \<longleftrightarrow>
     distinct (map lm_file modules) \<and>
     list_all (\<lambda>m. FileId_index (lm_file m) < length (sm_files sources) \<and>
       list_all (\<lambda>e. e_target e \<in> set (map lm_file modules)) (lm_edges m)) modules"

definition targets :: "('a, 'p) LoadedModule list \<Rightarrow> FileId \<Rightarrow> FileId set" where
  "targets modules f = {t. (f, t) \<in> depends modules}"

text \<open>The key of a file that is in the map.\<close>

definition key_of :: "SourceMap \<Rightarrow> FileId \<Rightarrow> ModulePath option" where
  "key_of sources f = sf_module (sm_files sources ! FileId_index f)"

lemma key_ok: "modules_ok sources modules \<Longrightarrow> f \<in> module_files modules \<Longrightarrow> key sources f = Inr (key_of sources f)"
  by (auto simp: modules_ok_def module_files_def list_all_iff key_def key_of_def file_module_def source_file_def)

lemma targets_files: "modules_ok sources modules \<Longrightarrow> targets modules f \<subseteq> module_files modules"
  by (auto simp: targets_def depends_def modules_ok_def module_files_def list_all_iff)

subsection \<open>Sorted maps\<close>

lemma map_of_bt_insert: "map_of (bt_insert k v m) = (map_of m)(k \<mapsto> v)"
  by (induction k v m rule: bt_insert.induct) auto

lemma keys_bt_insert: "fst ` set (bt_insert k v m) = insert k (fst ` set m)"
  by (induction k v m rule: bt_insert.induct) auto

lemma sorted_bt_insert:
  "sorted_wrt (<) (map fst m) \<Longrightarrow> sorted_wrt (<) (map fst (bt_insert k v m))"
proof (induction k v m rule: bt_insert.induct)
  case (2 k v l w m)
  have tl: "sorted_wrt (<) (map fst m)" "\<And>x. x \<in> fst ` set m \<Longrightarrow> l < x" using 2(2) by auto
  consider "k < l" | "k = l" | "l < k" by fastforce
  then show ?case
  proof cases
    case 1
    then have "k < x" if "x \<in> fst ` set m" for x using tl(2) [OF that] by simp
    then show ?thesis using 1 2(2) by simp
  next
    case 2
    then show ?thesis using tl by simp
  next
    case 3
    then have "\<forall>x \<in> fst ` set (bt_insert k v m). l < x" using tl(2) by (simp only: keys_bt_insert) blast
    moreover have "sorted_wrt (<) (map fst (bt_insert k v m))" using 2(1) tl(1) 3 by simp
    ultimately show ?thesis using 3 by auto
  qed
qed simp

lemma set_bt_set [simp]: "set (bt_set xs) = set xs" "sorted_wrt (<) (bt_set xs)" "distinct (bt_set xs)"
  by (simp_all add: bt_set_def strict_sorted_iff)

lemma bs_insert_set [simp]: "set (bs_insert x xs) = insert x (set xs)"
  by (auto simp: bs_insert_def set_insort_key)

lemma bs_insert_sorted: "sorted_wrt (<) xs \<Longrightarrow> sorted_wrt (<) (bs_insert x xs)"
  by (auto simp: bs_insert_def strict_sorted_iff sorted_insort distinct_insort)

subsection \<open>The maps of the loop\<close>

definition waits :: "('a, 'p) LoadedModule list \<Rightarrow> FileId set \<Rightarrow> waiting \<Rightarrow> bool" where
  "waits modules seen w \<longleftrightarrow>
     dom (map_of w) = module_files modules \<and>
     (\<forall>f \<in> module_files modules. set (the (map_of w f)) = targets modules f - seen)"

lemma waiting_lookup:
  "distinct (map lm_file ms) \<Longrightarrow>
     map_of (fold (\<lambda>m. bt_insert (lm_file m) (bt_set (map e_target (lm_edges m)))) ms w) f =
     (case find (\<lambda>m. lm_file m = f) ms of Some m \<Rightarrow> Some (bt_set (map e_target (lm_edges m))) | None \<Rightarrow> map_of w f)"
proof (induction ms arbitrary: w)
  case (Cons m ms)
  have "find (\<lambda>x. lm_file x = f) ms = None" if "lm_file m = f"
    using Cons.prems that by (auto simp: find_None_iff image_iff)
  then show ?case using Cons by (auto simp: map_of_bt_insert split: option.splits)
qed simp

lemma find_file:
  assumes "distinct (map lm_file ms)" "m \<in> set ms"
  shows "find (\<lambda>x. lm_file x = lm_file m) ms = Some m"
  using assms by (induction ms) (auto simp: image_iff)

lemma targets_module:
  assumes "distinct (map lm_file ms)" "m \<in> set ms"
  shows "targets ms (lm_file m) = e_target ` set (lm_edges m)"
  using assms by (auto simp: targets_def depends_def dest: inj_onD simp: distinct_map)

lemma waiting_of_module:
  assumes "distinct (map lm_file ms)" "m \<in> set ms"
  shows "map_of (waiting_of ms) (lm_file m) = Some (bt_set (map e_target (lm_edges m)))"
  using waiting_lookup [OF assms(1)] find_file [OF assms] by (simp add: waiting_of_def)

lemma waiting_of_other: "distinct (map lm_file ms) \<Longrightarrow> f \<notin> module_files ms \<Longrightarrow> map_of (waiting_of ms) f = None"
proof -
  assume "distinct (map lm_file ms)" "f \<notin> module_files ms"
  moreover from this have "find (\<lambda>m. lm_file m = f) ms = None" by (auto simp: find_None_iff module_files_def)
  ultimately show ?thesis using waiting_lookup [of ms "[]" f] by (simp add: waiting_of_def)
qed

lemma waiting_of_waits:
  assumes "distinct (map lm_file ms)"
  shows "waits ms {} (waiting_of ms)"
proof -
  have "map_of (waiting_of ms) f \<noteq> None \<longleftrightarrow> f \<in> module_files ms" for f
    using waiting_of_other [OF assms, of f] waiting_of_module [OF assms]
    by (cases "f \<in> module_files ms") (auto simp: module_files_def)
  then have "dom (map_of (waiting_of ms)) = module_files ms" by auto
  moreover have "set (the (map_of (waiting_of ms) f)) = targets ms f" if "f \<in> module_files ms" for f
    using that waiting_of_module [OF assms] targets_module [OF assms] by (auto simp: module_files_def)
  ultimately show ?thesis by (simp add: waits_def)
qed

lemma waiting_of_sorted: "sorted_wrt (<) (map fst (waiting_of ms))"
proof -
  have "sorted_wrt (<) (map fst (fold (\<lambda>m. bt_insert (lm_file m) (bt_set (map e_target (lm_edges m)))) ms w))"
    if "sorted_wrt (<) (map fst w)" for w
    using that by (induction ms arbitrary: w) (auto intro: sorted_bt_insert)
  then show ?thesis by (simp add: waiting_of_def)
qed

definition listed :: "(FileId \<times> FileId list) list \<Rightarrow> FileId \<Rightarrow> FileId list" where
  "listed m t = (case map_of m t of Some fs \<Rightarrow> fs | None \<Rightarrow> [])"

lemma listed_push: "listed (push_dependent f t m) u = listed m u @ (if u = t then [f] else [])"
  by (simp add: listed_def push_dependent_def map_of_bt_insert)

lemma listed_fold:
  "distinct ts \<Longrightarrow> listed (fold (push_dependent f) ts m) u = listed m u @ (if u \<in> set ts then [f] else [])"
  by (induction ts arbitrary: m) (auto simp: listed_push)

lemma listed_dependents:
  assumes "\<And>f ts. (f, ts) \<in> set w \<Longrightarrow> distinct ts"
  shows "listed (dependents_of w) u = map fst (filter (\<lambda>(f, ts). u \<in> set ts) w)"
proof -
  have "listed (fold (\<lambda>(f, ts). fold (push_dependent f) ts) w m) u =
      listed m u @ map fst (filter (\<lambda>(f, ts). u \<in> set ts) w)" for m
    using assms
  proof (induction w arbitrary: m)
    case (Cons x w)
    obtain f ts where x: "x = (f, ts)" by force
    have "distinct ts" using Cons.prems [of f ts] x by simp
    moreover have "\<And>f ts. (f, ts) \<in> set w \<Longrightarrow> distinct ts" using Cons.prems by (meson list.set_intros(2))
    ultimately show ?case using Cons.IH x by (simp add: listed_fold)
  qed simp
  then show ?thesis by (simp add: dependents_of_def listed_def)
qed

lemma dependents_set:
  assumes ok: "distinct (map lm_file ms)"
  shows "set (listed (dependents_of (waiting_of ms)) t) = {f \<in> module_files ms. t \<in> targets ms f}"
proof -
  have d: "distinct (map fst (waiting_of ms))" using waiting_of_sorted strict_sorted_iff by blast
  have entry: "(f, ts) \<in> set (waiting_of ms) \<longleftrightarrow> map_of (waiting_of ms) f = Some ts" for f ts
    using d by simp
  have "distinct ts" if "(f, ts) \<in> set (waiting_of ms)" for f ts
  proof -
    have "f \<in> module_files ms" using that entry waiting_of_other [OF ok] by force
    then show ?thesis using that entry waiting_of_module [OF ok] by (auto simp: module_files_def)
  qed
  then have "listed (dependents_of (waiting_of ms)) t = map fst (filter (\<lambda>(f, ts). t \<in> set ts) (waiting_of ms))"
    by (rule listed_dependents)
  also have "set \<dots> = {f. \<exists>ts. (f, ts) \<in> set (waiting_of ms) \<and> t \<in> set ts}" by force
  finally have "f \<in> set (listed (dependents_of (waiting_of ms)) t) \<longleftrightarrow>
      (\<exists>ts. map_of (waiting_of ms) f = Some ts \<and> t \<in> set ts)" for f
    using entry by blast
  moreover have "(\<exists>ts. map_of (waiting_of ms) f = Some ts \<and> t \<in> set ts) \<longleftrightarrow> f \<in> module_files ms \<and> t \<in> targets ms f" for f
  proof (cases "f \<in> module_files ms")
    case True
    then obtain m where "m \<in> set ms" "f = lm_file m" by (auto simp: module_files_def)
    then show ?thesis using True waiting_of_module [OF ok] targets_module [OF ok] by simp
  qed (simp add: waiting_of_other [OF ok])
  ultimately show ?thesis by blast
qed

subsection \<open>The loop\<close>

lemma release_dependents_ok:
  assumes "sorted_wrt (<) ready" "set ds \<subseteq> dom (map_of w)" "\<And>d. d \<in> set ds \<Longrightarrow> key sources d = Inr (k d)"
  shows "\<exists>w' ready'. release_dependents sources f ds w ready = Inr (w', ready') \<and> sorted_wrt (<) ready' \<and>
    (\<forall>x. map_of w' x = (if x \<in> set ds then map_option (removeAll f) (map_of w x) else map_of w x)) \<and>
    set ready' = set ready \<union> {(k d, d) | d. d \<in> set ds \<and> removeAll f (the (map_of w d)) = []}"
  using assms
proof (induction ds arbitrary: w ready)
  case (Cons d ds)
  obtain ts where ts: "map_of w d = Some ts" using Cons.prems(2) by auto
  let ?w = "bt_insert d (removeAll f ts) w"
  let ?r = "if removeAll f ts = [] then bs_insert (k d, d) ready else ready"
  have look: "map_of ?w x = (if x = d then map_option (removeAll f) (map_of w x) else map_of w x)" for x
    using ts by (simp add: map_of_bt_insert)
  have "sorted_wrt (<) ?r" using Cons.prems(1) by (simp add: bs_insert_sorted)
  moreover have "set ds \<subseteq> dom (map_of ?w)" using Cons.prems(2) by (auto simp: map_of_bt_insert)
  moreover have "\<And>x. x \<in> set ds \<Longrightarrow> key sources x = Inr (k x)" using Cons.prems(3) by simp
  ultimately obtain w' ready' where r: "release_dependents sources f ds ?w ?r = Inr (w', ready')"
    "sorted_wrt (<) ready'"
    "\<forall>x. map_of w' x = (if x \<in> set ds then map_option (removeAll f) (map_of ?w x) else map_of ?w x)"
    "set ready' = set ?r \<union> {(k x, x) | x. x \<in> set ds \<and> removeAll f (the (map_of ?w x)) = []}"
    using Cons.IH [of ?r ?w] by blast
  have "key sources d = Inr (k d)" using Cons.prems(3) by simp
  then have run: "release_dependents sources f (d # ds) w ready = Inr (w', ready')"
    using r(1) ts by (cases "removeAll f ts = []") (simp_all add: Let_def)
  have m: "map_of w' x = (if x \<in> set (d # ds) then map_option (removeAll f) (map_of w x) else map_of w x)" for x
    using r(3) look [of x] by (cases "map_of w x") auto
  have same: "removeAll f (the (map_of ?w x)) = removeAll f (the (map_of w x))" for x
    using look [of x] ts by (cases "x = d") simp_all
  have "set ready' = set ready \<union> {(k x, x) | x. x \<in> set (d # ds) \<and> removeAll f (the (map_of w x)) = []}"
    unfolding r(4) same using ts by auto
  then show ?case using run r(2) m by blast
qed simp

text \<open>What holds each time around: the order so far, who waits for what, and who is ready.\<close>

definition link_inv :: "SourceMap \<Rightarrow> ('a, 'p) LoadedModule list \<Rightarrow> waiting \<Rightarrow>
    (ModulePath option \<times> FileId) list \<Rightarrow> FileId list \<Rightarrow> bool" where
  "link_inv sources ms w ready order \<longleftrightarrow>
     distinct order \<and> set order \<subseteq> module_files ms \<and> waits ms (set order) w \<and> sorted_wrt (<) ready \<and>
     set ready = {(key_of sources f, f) | f. f \<in> module_files ms - set order \<and> targets ms f \<subseteq> set order} \<and>
     (\<forall>i < length order. targets ms (order ! i) \<subseteq> set (take i order) \<and>
        (\<forall>f \<in> module_files ms - set (take i order). targets ms f \<subseteq> set (take i order) \<longrightarrow>
           (key_of sources (order ! i), order ! i) \<le> (key_of sources f, f)))"

lemma link_inv_closed:
  assumes "link_inv sources ms w ready order" "d \<in> set order"
  shows "targets ms d \<subseteq> set order"
proof -
  obtain i where "i < length order" "order ! i = d" using assms(2) by (metis in_set_conv_nth)
  then show ?thesis using assms(1) set_take_subset [of i order] unfolding link_inv_def by blast
qed

lemma link_step:
  assumes ok: "modules_ok sources ms" and inv: "link_inv sources ms w ((k, f) # ready) order"
  shows "\<exists>w' ready'. release_dependents sources f (listed (dependents_of (waiting_of ms)) f) w ready = Inr (w', ready') \<and>
    link_inv sources ms w' ready' (order @ [f])"
proof -
  let ?F = "module_files ms" and ?T = "targets ms" and ?k = "key_of sources"
  let ?ds = "listed (dependents_of (waiting_of ms)) f"
  have dist: "distinct (map lm_file ms)" using ok by (simp add: modules_ok_def)
  have i: "distinct order" "set order \<subseteq> ?F" "waits ms (set order) w" "sorted_wrt (<) ((k, f) # ready)"
    "set ((k, f) # ready) = {(?k f, f) | f. f \<in> ?F - set order \<and> ?T f \<subseteq> set order}"
    using inv by (auto simp: link_inv_def)
  have "(k, f) \<in> set ((k, f) # ready)" by simp
  then have f: "f \<in> ?F" "f \<notin> set order" "?T f \<subseteq> set order" "k = ?k f" unfolding i(5) by auto
  have ds: "set ?ds = {d \<in> ?F. f \<in> ?T d}" by (rule dependents_set [OF dist])
  have lookup: "\<exists>ts. map_of w d = Some ts \<and> set ts = ?T d - set order" if "d \<in> ?F" for d
    using i(3) that unfolding waits_def by (metis domD option.sel)
  have "set ?ds \<subseteq> dom (map_of w)" using i(3) ds by (auto simp: waits_def)
  moreover have "\<And>d. d \<in> set ?ds \<Longrightarrow> key sources d = Inr (?k d)" using key_ok [OF ok] ds by auto
  moreover have "sorted_wrt (<) ready" using i(4) by simp
  ultimately obtain w' ready' where r: "release_dependents sources f ?ds w ready = Inr (w', ready')"
    "sorted_wrt (<) ready'"
    "\<forall>x. map_of w' x = (if x \<in> set ?ds then map_option (removeAll f) (map_of w x) else map_of w x)"
    "set ready' = set ready \<union> {(?k d, d) | d. d \<in> set ?ds \<and> removeAll f (the (map_of w d)) = []}"
    using release_dependents_ok [of ready ?ds w sources ?k f] by blast
  have "waits ms (set (order @ [f])) w'"
  proof -
    have "dom (map_of w') = ?F" using r(3) i(3) by (auto simp: waits_def dom_def)
    moreover have "set (the (map_of w' d)) = ?T d - set (order @ [f])" if "d \<in> ?F" for d
      using lookup [OF that] r(3) ds that by auto
    ultimately show ?thesis by (simp add: waits_def)
  qed
  moreover have "set ready' = {(?k d, d) | d. d \<in> ?F - set (order @ [f]) \<and> ?T d \<subseteq> set (order @ [f])}"
  proof -
    have rest: "set ready = {(?k d, d) | d. d \<in> ?F - set (order @ [f]) \<and> ?T d \<subseteq> set order}"
    proof -
      have "(k, f) \<notin> set ready" using i(4) by auto
      then have "set ready = set ((k, f) # ready) - {(k, f)}" by auto
      also note i(5)
      also have "{(?k d, d) | d. d \<in> ?F - set order \<and> ?T d \<subseteq> set order} - {(k, f)} =
          {(?k d, d) | d. d \<in> ?F - set (order @ [f]) \<and> ?T d \<subseteq> set order}"
        unfolding f(4) by auto
      finally show ?thesis .
    qed
    have "removeAll f (the (map_of w d)) = [] \<longleftrightarrow> ?T d \<subseteq> set (order @ [f])" if d: "d \<in> ?F" for d
    proof -
      obtain ts where "map_of w d = Some ts" "set ts = ?T d - set order" using lookup [OF d] by blast
      moreover have "removeAll f ts = [] \<longleftrightarrow> set ts - {f} = {}" by (metis set_empty set_removeAll)
      ultimately show ?thesis by auto
    qed
    then have new: "{(?k d, d) | d. d \<in> set ?ds \<and> removeAll f (the (map_of w d)) = []} =
        {(?k d, d) | d. d \<in> ?F \<and> f \<in> ?T d \<and> ?T d \<subseteq> set (order @ [f])}" unfolding ds by auto
    have "d \<notin> set (order @ [f])" if "f \<in> ?T d" for d
      using link_inv_closed [OF inv, of d] that f(2,3) by auto
    then show ?thesis unfolding r(4) rest new by auto
  qed
  moreover have "?T ((order @ [f]) ! j) \<subseteq> set (take j (order @ [f])) \<and>
      (\<forall>d \<in> ?F - set (take j (order @ [f])). ?T d \<subseteq> set (take j (order @ [f])) \<longrightarrow>
         (?k ((order @ [f]) ! j), (order @ [f]) ! j) \<le> (?k d, d))" if j: "j < length (order @ [f])" for j
  proof (cases "j < length order")
    case True
    then show ?thesis using inv unfolding link_inv_def by (simp add: nth_append)
  next
    case False
    have "\<forall>p \<in> set ready. (k, f) < p" using i(4) by simp
    then have "\<forall>p \<in> set ((k, f) # ready). (k, f) \<le> p" by (metis order.strict_implies_order order_refl set_ConsD)
    then have "\<forall>d \<in> ?F - set order. ?T d \<subseteq> set order \<longrightarrow> (k, f) \<le> (?k d, d)" unfolding i(5) by blast
    then show ?thesis using False j f(3,4) by (simp add: less_Suc_eq)
  qed
  ultimately have "link_inv sources ms w' ready' (order @ [f])"
    using i(1,2) f(1,2) r(2) unfolding link_inv_def by simp
  then show ?thesis using r(1) by blast
qed

lemma link_loop_ok:
  "modules_ok sources ms \<Longrightarrow> link_inv sources ms w ready order \<Longrightarrow> length order + fuel = length ms \<Longrightarrow>
     \<exists>w' order'. link_loop sources (dependents_of (waiting_of ms)) fuel w ready order = Some (Inr order') \<and>
       link_inv sources ms w' [] order'"
proof (induction sources "dependents_of (waiting_of ms)" fuel w ready order rule: link_loop.induct)
  case (2 sources w k f ready order)
  have "insert f (set order) \<subseteq> module_files ms" "f \<notin> set order"
  proof -
    have "(k, f) \<in> {(key_of sources f, f) | f. f \<in> module_files ms - set order \<and> targets ms f \<subseteq> set order}"
      using 2(2) unfolding link_inv_def by (metis list.set_intros(1))
    then show "insert f (set order) \<subseteq> module_files ms" "f \<notin> set order"
      using 2(2) by (auto simp: link_inv_def)
  qed
  then have "card (insert f (set order)) \<le> card (module_files ms)" by (intro card_mono) (simp_all add: module_files_def)
  moreover have "card (module_files ms) \<le> length ms"
    unfolding module_files_def using card_image_le [of "set ms" lm_file] card_length [of ms] by simp
  moreover have "card (insert f (set order)) = Suc (length order)"
    using 2(2) \<open>f \<notin> set order\<close> by (simp add: link_inv_def distinct_card)
  ultimately show ?case using 2(3) by simp
next
  case (3 sources fuel w k f ready order)
  from link_step [OF 3(2,3)] obtain w' ready' where
    r: "release_dependents sources f (listed (dependents_of (waiting_of ms)) f) w ready = Inr (w', ready')"
    "link_inv sources ms w' ready' (order @ [f])" by blast
  from 3(1) [OF 3(2) r(2)] 3(4) show ?case using r(1) by (simp add: listed_def)
qed auto

lemma link_inv_initial:
  assumes ok: "modules_ok sources ms"
  shows "\<exists>ready. ready_of sources (waiting_of ms) = Inr ready \<and> link_inv sources ms (waiting_of ms) ready []"
proof -
  have dist: "distinct (map lm_file ms)" using ok by (simp add: modules_ok_def)
  note w = waiting_of_waits [OF dist]
  have d: "distinct (map fst (waiting_of ms))" using waiting_of_sorted strict_sorted_iff by blast
  let ?free = "filter (\<lambda>(f, ts). ts = []) (waiting_of ms)"
  have dom: "f \<in> module_files ms" if "(f, ts) \<in> set (waiting_of ms)" for f ts
    using w that unfolding waits_def by (metis d domI map_of_eq_Some_iff)
  have "map_res (\<lambda>(f, _). map_ok (\<lambda>k. (k, f)) (key sources f)) ?free = Inr (map (\<lambda>(f, _). (key_of sources f, f)) ?free)"
    by (rule map_res_ok) (use key_ok [OF ok] dom in auto)
  then have run: "ready_of sources (waiting_of ms) = Inr (bt_set (map (\<lambda>(f, _). (key_of sources f, f)) ?free))"
    by (simp add: ready_of_def)
  have "(f, []) \<in> set (waiting_of ms) \<longleftrightarrow> f \<in> module_files ms \<and> targets ms f = {}" for f
  proof -
    have "(f, []) \<in> set (waiting_of ms) \<longleftrightarrow> map_of (waiting_of ms) f = Some []" using d by simp
    also have "\<dots> \<longleftrightarrow> f \<in> module_files ms \<and> targets ms f = {}"
    proof (cases "f \<in> module_files ms")
      case True
      then obtain ts where "map_of (waiting_of ms) f = Some ts" "set ts = targets ms f"
        using w unfolding waits_def by (metis Diff_empty domD option.sel)
      then show ?thesis using True by (cases ts) auto
    next
      case False
      then show ?thesis using waiting_of_other [OF dist False] by simp
    qed
    finally show ?thesis .
  qed
  then have "set (map (\<lambda>(f, _). (key_of sources f, f)) ?free) =
      {(key_of sources f, f) | f. f \<in> module_files ms \<and> targets ms f = {}}"
    by (force simp: image_iff)
  then have "link_inv sources ms (waiting_of ms) (bt_set (map (\<lambda>(f, _). (key_of sources f, f)) ?free)) []"
    using w by (simp add: link_inv_def)
  with run show ?thesis by blast
qed

subsection \<open>What is left at the end\<close>

lemma depends_finite: "finite (depends ms)"
proof -
  have "depends ms \<subseteq> (\<Union>m \<in> set ms. {lm_file m} \<times> e_target ` set (lm_edges m))" by (auto simp: depends_def)
  then show ?thesis by (rule finite_subset) simp
qed

lemma acyclic_links_all:
  assumes "modules_ok sources ms" "link_inv sources ms w [] order" "acyclic (depends ms)"
  shows "set order = module_files ms"
proof (rule ccontr)
  assume "set order \<noteq> module_files ms"
  then obtain g where "g \<in> module_files ms - set order" using assms(2) by (auto simp: link_inv_def)
  moreover have "wf ((depends ms)\<inverse>)" by (rule finite_acyclic_wf_converse [OF depends_finite assms(3)])
  ultimately obtain f where f: "f \<in> module_files ms - set order"
    "\<And>t. (t, f) \<in> (depends ms)\<inverse> \<Longrightarrow> t \<notin> module_files ms - set order" by (metis wfE_min)
  have "targets ms f \<subseteq> set order"
    using f(2) targets_files [OF assms(1), of f] by (auto simp: targets_def)
  then show False using assms(2) f(1) by (auto simp: link_inv_def)
qed

lemma linked_acyclic:
  assumes ok: "modules_ok sources ms" and inv: "link_inv sources ms w [] order" and all: "set order = module_files ms"
  shows "acyclic (depends ms)"
proof -
  have d: "distinct order" using inv by (simp add: link_inv_def)
  have "\<exists>i. i < length order \<and> order ! i = f" if "f \<in> module_files ms" for f
    using that all by (metis in_set_conv_nth)
  then obtain p where p: "\<And>f. f \<in> module_files ms \<Longrightarrow> p f < length order \<and> order ! p f = f" by metis
  have "p t < p f" if e: "(f, t) \<in> depends ms" for f t
  proof -
    have ft: "f \<in> module_files ms" "t \<in> module_files ms"
      using e targets_files [OF ok, of f] by (auto simp: depends_def module_files_def targets_def)
    have "targets ms (order ! p f) \<subseteq> set (take (p f) order)"
      using inv p [OF ft(1)] unfolding link_inv_def by blast
    then have "t \<in> set (take (p f) order)" using e p [OF ft(1)] by (auto simp: targets_def)
    then obtain i where "i < p f" "i < length order" "order ! i = t" by (auto simp: in_set_conv_nth)
    then show ?thesis using p [OF ft(2)] d nth_eq_iff_index_eq by metis
  qed
  then have "depends ms \<subseteq> (measure p)\<inverse>" by auto
  then show ?thesis by (metis acyclic_converse acyclic_subset wf_acyclic wf_measure)
qed

lemma files_card: "distinct (map lm_file ms) \<Longrightarrow> card (module_files ms) = length ms"
  unfolding module_files_def by (metis distinct_card length_map set_map)

lemma link_order_ok:
  assumes ok: "modules_ok sources ms"
  shows "if acyclic (depends ms)
    then \<exists>w order. link_order ms sources = Some (Inr order) \<and> link_inv sources ms w [] order \<and> set order = module_files ms
    else link_order ms sources = Some (Inl AssertFailed)"
proof -
  from link_inv_initial [OF ok] obtain ready where
    r: "ready_of sources (waiting_of ms) = Inr ready" "link_inv sources ms (waiting_of ms) ready []" by blast
  from link_loop_ok [OF ok r(2), of "length ms"] obtain w order where
    l: "link_loop sources (dependents_of (waiting_of ms)) (length ms) (waiting_of ms) ready [] = Some (Inr order)"
    "link_inv sources ms w [] order" by auto
  have card: "length order = card (set order)" "set order \<subseteq> module_files ms" "card (module_files ms) = length ms"
    using l(2) ok files_card by (auto simp: link_inv_def modules_ok_def distinct_card)
  have "finite (module_files ms)" by (simp add: module_files_def)
  then have all: "length order = length ms \<longleftrightarrow> set order = module_files ms"
    using card by (metis card_subset_eq)
  show ?thesis
    using r(1) l all acyclic_links_all [OF ok l(2)] linked_acyclic [OF ok l(2)]
    by (auto simp: link_order_def Let_def)
qed

subsection \<open>Properties\<close>

text \<open>C25. On an acyclic graph \<open>link_order\<close> returns every module once, each after every module it has
  an edge to. The module at each place is the least, by module path and then file, of those not yet
  placed whose targets are all placed, so the order depends on the graph and the paths alone.\<close>
theorem link_order_correct:
  assumes "modules_ok sources ms" "acyclic (depends ms)"
  shows "\<exists>order. link_order ms sources = Some (Inr order) \<and> distinct order \<and> set order = lm_file ` set ms \<and>
    (\<forall>i < length order. targets ms (order ! i) \<subseteq> set (take i order) \<and>
       (\<forall>f \<in> lm_file ` set ms - set (take i order). targets ms f \<subseteq> set (take i order) \<longrightarrow>
          (key_of sources (order ! i), order ! i) \<le> (key_of sources f, f)))"
  using link_order_ok [OF assms(1)] assms(2) unfolding link_inv_def module_files_def by (auto simp only: if_True)

definition sample_sources :: SourceMap where
  "sample_sources = \<lparr>sm_files =
     [\<lparr>sf_path = lit ''main'', sf_module = None, sf_text = []\<rparr>,
      \<lparr>sf_path = lit ''a'', sf_module = Some (ModulePath [lit ''a'']), sf_text = []\<rparr>]\<rparr>"

definition sample_modules :: "(unit, unit) LoadedModule list" where
  "sample_modules =
     [\<lparr>lm_file = FileId 0, lm_ast = None, lm_parse_errors = [],
        lm_edges = [\<lparr>e_kind = Import, e_span = Span_new (FileId 0) 7 8, e_target = FileId 1\<rparr>]\<rparr>,
      \<lparr>lm_file = FileId 1, lm_ast = None, lm_parse_errors = [], lm_edges = []\<rparr>]"

lemma sample_modules_ok: "modules_ok sample_sources sample_modules" "acyclic (depends sample_modules)"
proof -
  show "modules_ok sample_sources sample_modules" by code_simp
  have "depends sample_modules = {(FileId 0, FileId 1)}" by (auto simp: depends_def sample_modules_def)
  then show "acyclic (depends sample_modules)" by (simp add: acyclic_insert) (simp add: acyclic_def)
qed

theorem link_order_correct_witness:
  "\<exists>order. link_order sample_modules sample_sources = Some (Inr order) \<and> distinct order \<and>
     set order = lm_file ` set sample_modules"
  using link_order_correct [OF sample_modules_ok] by blast

end
