(* ===== verification/Module_Cycles.thy ===== *)
theory Module_Cycles
  imports Link_Order "HOL-Library.Multiset"
begin

section \<open>The cycles of the module graph\<close>

text \<open>
  The errors of \<open>cycles\<close>: one per strongly connected component that has a cycle, each the shortest
  cycle through the least module of its component.
\<close>

subsection \<open>Positions and edges\<close>

definition idx :: "('a, 'p) LoadedModule list \<Rightarrow> FileId \<Rightarrow> nat" where
  "idx ms f = projr (index_of ms f)"

definition graph_of :: "('a, 'p) LoadedModule list \<Rightarrow> nat list list" where
  "graph_of ms = map (\<lambda>m. map (\<lambda>e. idx ms (e_target e)) (lm_edges m)) ms"

lemma rposition_file:
  "distinct (map lm_file ms) \<Longrightarrow> i < length ms \<Longrightarrow> rposition (\<lambda>m. lm_file m = lm_file (ms ! i)) ms = Some i"
proof (induction ms arbitrary: i)
  case (Cons m ms)
  show ?case
  proof (cases i)
    case 0
    then have "rposition (\<lambda>x. lm_file x = lm_file m) ms = None"
      using Cons.prems(1) by (auto simp: rposition_None image_iff)
    then show ?thesis using 0 by simp
  next
    case (Suc j)
    then show ?thesis using Cons by simp
  qed
qed simp

lemma index_of_nth:
  assumes "distinct (map lm_file ms)" "i < length ms"
  shows "index_of ms (lm_file (ms ! i)) = Inr i" "idx ms (lm_file (ms ! i)) = i"
  using rposition_file [OF assms] by (simp_all add: index_of_def idx_def)

lemma index_of_file:
  assumes "distinct (map lm_file ms)" "f \<in> module_files ms"
  shows "index_of ms f = Inr (idx ms f)" "idx ms f < length ms" "lm_file (ms ! idx ms f) = f"
proof -
  from assms(2) obtain i where "i < length ms" "f = lm_file (ms ! i)"
    unfolding module_files_def by (metis imageE in_set_conv_nth)
  then show "index_of ms f = Inr (idx ms f)" "idx ms f < length ms" "lm_file (ms ! idx ms f) = f"
    using index_of_nth [OF assms(1)] by simp_all
qed

lemma modules_okD:
  assumes "modules_ok sources ms"
  shows "distinct (map lm_file ms)"
    "v < length ms \<Longrightarrow> edge \<in> set (lm_edges (ms ! v)) \<Longrightarrow> e_target edge \<in> module_files ms"
    "v < length ms \<Longrightarrow> FileId_index (lm_file (ms ! v)) < length (sm_files sources)"
  using assms by (auto simp: modules_ok_def list_all_iff module_files_def)

lemma successors_ok:
  assumes "modules_ok sources ms"
  shows "successors ms = Inr (graph_of ms)"
  unfolding successors_def graph_of_def
proof (rule map_res_ok)
  fix m assume "m \<in> set ms"
  then obtain v where v: "v < length ms" "m = ms ! v" by (metis in_set_conv_nth)
  show "map_res (\<lambda>e. index_of ms (e_target e)) (lm_edges m) = Inr (map (\<lambda>e. idx ms (e_target e)) (lm_edges m))"
    using modules_okD [OF assms] index_of_file(1) v by (intro map_res_ok) blast
qed

lemma graph_of_ok:
  assumes "modules_ok sources ms"
  shows "graph_ok (graph_of ms)" "length (graph_of ms) = length ms"
proof -
  have "idx ms (e_target e) < length ms" if m: "m \<in> set ms" "e \<in> set (lm_edges m)" for m e
  proof -
    obtain v where "v < length ms" "m = ms ! v" using m(1) by (metis in_set_conv_nth)
    then show ?thesis using modules_okD(1,2) [OF assms] index_of_file(2) m(2) by blast
  qed
  then show "graph_ok (graph_of ms)" "length (graph_of ms) = length ms"
    by (auto simp: graph_ok_def graph_of_def list_all_iff)
qed

text \<open>Edge \<open>e\<close> of the module at \<open>v\<close> goes to the module at \<open>w\<close>.\<close>

definition edge_at :: "('a, 'p) LoadedModule list \<Rightarrow> nat \<Rightarrow> nat \<Rightarrow> nat \<Rightarrow> bool" where
  "edge_at ms v e w \<longleftrightarrow>
     v < length ms \<and> e < length (lm_edges (ms ! v)) \<and> idx ms (e_target (lm_edges (ms ! v) ! e)) = w"

lemma edges_edge_at: "(v, w) \<in> edges (graph_of ms) \<longleftrightarrow> (\<exists>e. edge_at ms v e w)"
  by (auto simp: edges_def graph_of_def edge_at_def in_set_conv_nth)

lemma edges_depends:
  assumes "modules_ok sources ms"
  shows "(v, w) \<in> edges (graph_of ms) \<longleftrightarrow>
    v < length ms \<and> w < length ms \<and> (lm_file (ms ! v), lm_file (ms ! w)) \<in> depends ms"
proof -
  note ok = modules_okD [OF assms]
  have "(v, w) \<in> edges (graph_of ms) \<longleftrightarrow> v < length ms \<and> (\<exists>edge \<in> set (lm_edges (ms ! v)). idx ms (e_target edge) = w)"
    by (auto simp: edges_def graph_of_def)
  moreover have "(lm_file (ms ! v), lm_file (ms ! w)) \<in> depends ms \<longleftrightarrow>
      (\<exists>edge \<in> set (lm_edges (ms ! v)). e_target edge = lm_file (ms ! w))" if "v < length ms" for v w
  proof -
    have "(lm_file (ms ! v), lm_file (ms ! w)) \<in> depends ms \<longleftrightarrow> lm_file (ms ! w) \<in> targets ms (lm_file (ms ! v))"
      by (simp add: targets_def)
    also have "targets ms (lm_file (ms ! v)) = e_target ` set (lm_edges (ms ! v))"
      using targets_module [OF ok(1)] that by simp
    finally show ?thesis unfolding image_iff by metis
  qed
  ultimately show ?thesis
    using index_of_file(2,3) [OF ok(1)] index_of_nth(2) [OF ok(1)] ok(2) by metis
qed

subsection \<open>Walks\<close>

fun walk :: "('a, 'p) LoadedModule list \<Rightarrow> nat \<Rightarrow> (nat \<times> nat) list \<Rightarrow> nat \<Rightarrow> bool" where
  "walk ms a [] b \<longleftrightarrow> a = b"
| "walk ms a ((v, e) # ps) b \<longleftrightarrow> v = a \<and> (\<exists>w. edge_at ms v e w \<and> walk ms w ps b)"

lemma walk_append: "walk ms a (ps @ qs) c \<longleftrightarrow> (\<exists>b. walk ms a ps b \<and> walk ms b qs c)"
  by (induction ps arbitrary: a) (auto, blast+)

lemma walk_reaches: "walk ms a ps b \<Longrightarrow> reaches (graph_of ms) a b"
proof (induction ms a ps b rule: walk.induct)
  case (2 ms a v e ps b)
  then obtain w where "edge_at ms v e w" "reaches (graph_of ms) w b" "v = a" by auto
  then show ?case using edges_edge_at converse_rtrancl_into_rtrancl by metis
qed simp

subsection \<open>The breadth-first search\<close>

abbreviation seen :: "nat \<Rightarrow> via \<Rightarrow> nat set" where
  "seen start via \<equiv> insert start (fst ` set via)"

fun via_ok :: "('a, 'p) LoadedModule list \<Rightarrow> nat \<Rightarrow> via \<Rightarrow> bool" where
  "via_ok ms start [] \<longleftrightarrow> True"
| "via_ok ms start ((w, v, e) # via) \<longleftrightarrow>
     v \<in> seen start via \<and> w \<notin> seen start via \<and> edge_at ms v e w \<and> via_ok ms start via"

lemma via_distinct: "via_ok ms start via \<Longrightarrow> distinct (map fst via)"
  by (induction ms start via rule: via_ok.induct) simp_all

text \<open>How many edges from the start a vertex was found.\<close>

fun depth :: "via \<Rightarrow> nat \<Rightarrow> nat" where
  "depth [] n = 0"
| "depth ((w, v, e) # via) n = (if n = w then Suc (depth via v) else depth via n)"

lemma depth_le: "depth via v \<le> length via"
  by (induction via v rule: depth.induct) auto

lemma depth_start: "via_ok ms start via \<Longrightarrow> depth via start = 0"
  by (induction via) auto

text \<open>A vertex whose edges were all followed: none closes a cycle, and inside the component each leads
  to a vertex found at most one edge further.\<close>

definition followed :: "('a, 'p) LoadedModule list \<Rightarrow> nat set \<Rightarrow> nat \<Rightarrow> via \<Rightarrow> nat \<Rightarrow> bool" where
  "followed ms C start via u \<longleftrightarrow>
     (\<forall>w. (u, w) \<in> edges (graph_of ms) \<longrightarrow>
        w \<noteq> start \<and> (w \<in> C \<longrightarrow> w \<in> seen start via \<and> depth via w \<le> Suc (depth via u)))"

definition at_inv :: "('a, 'p) LoadedModule list \<Rightarrow> nat set \<Rightarrow> nat \<Rightarrow> nat \<Rightarrow> via \<Rightarrow> nat list \<Rightarrow> bool" where
  "at_inv ms C start v via q \<longleftrightarrow>
     via_ok ms start via \<and> seen start via \<subseteq> C \<and> distinct (v # q) \<and> set (v # q) \<subseteq> seen start via \<and>
     sorted (map (depth via) q) \<and> (\<forall>x \<in> set q. depth via v \<le> depth via x \<and> depth via x \<le> Suc (depth via v)) \<and>
     (\<forall>u \<in> seen start via - set (v # q). followed ms C start via u \<and> depth via u \<le> depth via v)"

definition queue_inv :: "('a, 'p) LoadedModule list \<Rightarrow> nat set \<Rightarrow> nat \<Rightarrow> via \<Rightarrow> nat list \<Rightarrow> bool" where
  "queue_inv ms C start via q \<longleftrightarrow>
     via_ok ms start via \<and> seen start via \<subseteq> C \<and> distinct q \<and> set q \<subseteq> seen start via \<and>
     sorted (map (depth via) q) \<and> (\<forall>x \<in> set q. depth via x \<le> Suc (depth via (hd q))) \<and>
     (\<forall>u \<in> seen start via - set q. followed ms C start via u \<and> (\<forall>x \<in> set q. depth via u \<le> depth via x))"

lemma queue_at: "queue_inv ms C start via (v # q) \<Longrightarrow> at_inv ms C start v via q"
  by (auto simp: queue_inv_def at_inv_def)

lemma at_queue:
  assumes "at_inv ms C start v via q" "followed ms C start via v"
  shows "queue_inv ms C start via q"
proof -
  have "depth via x \<le> Suc (depth via (hd q))" if "x \<in> set q" for x
  proof -
    have "hd q \<in> set q" using that by (cases q) auto
    then have "depth via x \<le> Suc (depth via v)" "depth via v \<le> depth via (hd q)"
      using assms(1) that unfolding at_inv_def by blast+
    then show ?thesis by simp
  qed
  moreover have "followed ms C start via u \<and> (\<forall>x \<in> set q. depth via u \<le> depth via x)"
    if u: "u \<in> seen start via - set q" for u
  proof (cases "u = v")
    case True
    then show ?thesis using assms by (simp add: at_inv_def)
  next
    case False
    then have "followed ms C start via u" "depth via u \<le> depth via v" using assms(1) u by (auto simp: at_inv_def)
    then show ?thesis using assms(1) unfolding at_inv_def by (meson order_trans)
  qed
  ultimately show ?thesis using assms by (simp add: queue_inv_def at_inv_def)
qed

lemma push_inv:
  assumes inv: "at_inv ms C start v via q" and e: "edge_at ms v e w" "w \<noteq> start" "w \<in> C" "w \<notin> fst ` set via"
  shows "at_inv ms C start v ((w, v, e) # via) (q @ [w])"
proof -
  let ?via = "(w, v, e) # via"
  have i: "via_ok ms start via" "seen start via \<subseteq> C" "distinct (v # q)" "set (v # q) \<subseteq> seen start via"
    "sorted (map (depth via) q)" "\<And>x. x \<in> set q \<Longrightarrow> depth via v \<le> depth via x \<and> depth via x \<le> Suc (depth via v)"
    "\<And>u. u \<in> seen start via - set (v # q) \<Longrightarrow> followed ms C start via u \<and> depth via u \<le> depth via v"
    using inv unfolding at_inv_def by blast+
  have w: "w \<notin> seen start via" using e by simp
  have d: "depth ?via x = depth via x" if "x \<in> seen start via" for x using that w by auto
  have dq: "map (depth ?via) q = map (depth via) q" "depth ?via v = depth via v" "depth ?via w = Suc (depth via v)"
    using d [OF subsetD [OF i(4)]] by (simp_all del: depth.simps) simp
  have "sorted (map (depth ?via) (q @ [w]))" unfolding map_append dq(1) using i(5,6) dq(3) by (simp add: sorted_append)
  moreover have "followed ms C start ?via u \<and> depth ?via u \<le> depth ?via v" if u: "u \<in> seen start ?via - set (v # q @ [w])" for u
  proof -
    have u': "u \<in> seen start via - set (v # q)" using u by auto
    have "depth ?via u = depth via u" using d u' by blast
    moreover have "x \<noteq> start \<and> (x \<in> C \<longrightarrow> x \<in> seen start ?via \<and> depth ?via x \<le> Suc (depth via u))"
      if e: "(u, x) \<in> edges (graph_of ms)" for x
    proof -
      have "x \<noteq> start" "x \<in> C \<Longrightarrow> x \<in> seen start via" "x \<in> C \<Longrightarrow> depth via x \<le> Suc (depth via u)"
        using i(7) [OF u'] e unfolding followed_def by blast+
      then show ?thesis using d [of x] by auto
    qed
    ultimately have "followed ms C start ?via u" unfolding followed_def by metis
    then show ?thesis using \<open>depth ?via u = depth via u\<close> dq(2) i(7) [OF u'] by simp
  qed
  moreover have "depth ?via v \<le> depth ?via x \<and> depth ?via x \<le> Suc (depth ?via v)" if "x \<in> set (q @ [w])" for x
  proof (cases "x = w")
    case True
    then show ?thesis using dq by simp
  next
    case False
    then have "x \<in> set q" using that by simp
    moreover from this have "depth ?via x = depth via x" using d [OF subsetD [OF i(4)], of x] by simp
    ultimately show ?thesis using i(6) [of x] dq(2) by simp
  qed
  moreover have "via_ok ms start ?via" "seen start ?via \<subseteq> C" "distinct (v # q @ [w])" "set (v # q @ [w]) \<subseteq> seen start ?via"
    using i(1-4) w e by auto
  ultimately show ?thesis unfolding at_inv_def by blast
qed

text \<open>The edges of one vertex.\<close>

lemma search_edges_ok:
  assumes "at_inv ms C start v via q" "set C' = C"
    and "\<And>e edge. (e, edge) \<in> set es \<Longrightarrow>
      index_of ms (e_target edge) = Inr (idx ms (e_target edge)) \<and> edge_at ms v e (idx ms (e_target edge))"
  shows "\<exists>c via' q'. search_edges ms start C' v es via q = Inr (c, via', q') \<and> at_inv ms C start v via' q' \<and>
    seen start via - set (v # q) = seen start via' - set (v # q') \<and>
    seen start via \<subseteq> seen start via' \<and> (\<forall>x \<in> seen start via. depth via' x = depth via x) \<and>
    (case c of
       Some (a, e) \<Rightarrow> a = v \<and> edge_at ms v e start
     | None \<Rightarrow> \<forall>(e, edge) \<in> set es. idx ms (e_target edge) \<noteq> start \<and>
         (idx ms (e_target edge) \<in> C \<longrightarrow> idx ms (e_target edge) \<in> seen start via' \<and>
            depth via' (idx ms (e_target edge)) \<le> Suc (depth via' v)))"
  using assms
proof (induction es arbitrary: via q)
  case (Cons x es)
  obtain e edge where x: "x = (e, edge)" by force
  let ?w = "idx ms (e_target edge)"
  have w: "index_of ms (e_target edge) = Inr ?w" "edge_at ms v e ?w" using Cons.prems(3) [of e edge] x by auto
  have tl: "\<And>e edge. (e, edge) \<in> set es \<Longrightarrow>
      index_of ms (e_target edge) = Inr (idx ms (e_target edge)) \<and> edge_at ms v e (idx ms (e_target edge))"
    using Cons.prems(3) by (meson list.set_intros(2))
  have vs: "v \<in> seen start via" using Cons.prems(1) by (simp add: at_inv_def)
  consider (closing) "?w = start" | (new) "?w \<noteq> start" "?w \<in> C" "?w \<notin> fst ` set via"
    | (old) "?w \<noteq> start" "?w \<in> C \<Longrightarrow> ?w \<in> fst ` set via" by blast
  then show ?case
  proof cases
    case closing
    then show ?thesis using Cons.prems(1) w x by (simp add: subset_insertI)
  next
    case new
    have run: "search_edges ms start C' v (x # es) via q = search_edges ms start C' v es ((?w, v, e) # via) (q @ [?w])"
      using new w(1) x Cons.prems(2) by (simp add: map_of_eq_None_iff)
    from Cons.IH [OF push_inv [OF Cons.prems(1) w(2) new] Cons.prems(2) tl] obtain c via' q' where
      r: "search_edges ms start C' v es ((?w, v, e) # via) (q @ [?w]) = Inr (c, via', q')" "at_inv ms C start v via' q'"
      "seen start ((?w, v, e) # via) - set (v # q @ [?w]) = seen start via' - set (v # q')"
      "seen start ((?w, v, e) # via) \<subseteq> seen start via'"
      "\<forall>x \<in> seen start ((?w, v, e) # via). depth via' x = depth ((?w, v, e) # via) x"
      "case c of Some (a, e) \<Rightarrow> a = v \<and> edge_at ms v e start
        | None \<Rightarrow> \<forall>(e, edge) \<in> set es. idx ms (e_target edge) \<noteq> start \<and>
            (idx ms (e_target edge) \<in> C \<longrightarrow> idx ms (e_target edge) \<in> seen start via' \<and>
               depth via' (idx ms (e_target edge)) \<le> Suc (depth via' v))" by blast
    have nw: "?w \<notin> seen start via" using new by simp
    have d: "depth via' y = depth via y" if y: "y \<in> seen start via" for y
    proof -
      have "y \<in> seen start ((?w, v, e) # via)" "y \<noteq> ?w" using y nw by auto
      then show ?thesis using r(5) by (metis depth.simps(2))
    qed
    have dw: "depth via' ?w = Suc (depth via' v)" using r(5) d [OF vs] by simp
    have "seen start via - set (v # q) = seen start via' - set (v # q')"
    proof -
      have eq: "seen start ((?w, v, e) # via) = insert ?w (seen start via)" "set (v # q @ [?w]) = insert ?w (set (v # q))"
        by auto
      show ?thesis unfolding r(3) [symmetric] eq using nw by blast
    qed
    moreover have "case c of Some (a, e) \<Rightarrow> a = v \<and> edge_at ms v e start
        | None \<Rightarrow> \<forall>(e, edge) \<in> set (x # es). idx ms (e_target edge) \<noteq> start \<and>
            (idx ms (e_target edge) \<in> C \<longrightarrow> idx ms (e_target edge) \<in> seen start via' \<and>
               depth via' (idx ms (e_target edge)) \<le> Suc (depth via' v))"
      using r(4,6) dw new x by (auto split: option.splits)
    ultimately show ?thesis using run r(1,2,4) d by auto
  next
    case old
    have run: "search_edges ms start C' v (x # es) via q = search_edges ms start C' v es via q"
      using old w(1) x Cons.prems(2) by (auto simp: map_of_eq_None_iff)
    from Cons.IH [OF Cons.prems(1,2) tl] obtain c via' q' where
      r: "search_edges ms start C' v es via q = Inr (c, via', q')" "at_inv ms C start v via' q'"
      "seen start via - set (v # q) = seen start via' - set (v # q')"
      "seen start via \<subseteq> seen start via'" "\<forall>x \<in> seen start via. depth via' x = depth via x"
      "case c of Some (a, e) \<Rightarrow> a = v \<and> edge_at ms v e start
        | None \<Rightarrow> \<forall>(e, edge) \<in> set es. idx ms (e_target edge) \<noteq> start \<and>
            (idx ms (e_target edge) \<in> C \<longrightarrow> idx ms (e_target edge) \<in> seen start via' \<and>
               depth via' (idx ms (e_target edge)) \<le> Suc (depth via' v))" by blast
    have "?w \<in> seen start via' \<and> depth via' ?w \<le> Suc (depth via' v)" if C: "?w \<in> C"
    proof -
      have s: "?w \<in> seen start via" using old C by simp
      have "depth via ?w \<le> Suc (depth via v)"
      proof (cases "?w \<in> set (v # q)")
        case True
        then show ?thesis using Cons.prems(1) by (auto simp: at_inv_def)
      next
        case False
        then have "depth via ?w \<le> depth via v" using Cons.prems(1) s unfolding at_inv_def by blast
        then show ?thesis by simp
      qed
      then show ?thesis using r(4,5) s vs by (metis subsetD)
    qed
    then show ?thesis using run r old(1) x by (auto split: option.splits)
  qed
qed auto

lemma edges_enumerated:
  assumes "modules_ok sources ms" "v < length ms" "(e, edge) \<in> set (enumerate 0 (lm_edges (ms ! v)))"
  shows "index_of ms (e_target edge) = Inr (idx ms (e_target edge)) \<and> edge_at ms v e (idx ms (e_target edge))"
proof -
  have e: "e < length (lm_edges (ms ! v))" "edge = lm_edges (ms ! v) ! e"
    using assms(3) by (auto simp: in_set_enumerate_eq)
  then have "e_target edge \<in> module_files ms" using modules_okD(2) [OF assms(1,2)] by simp
  then show ?thesis using index_of_file(1) [OF modules_okD(1) [OF assms(1)]] assms(2) e by (simp add: edge_at_def)
qed

text \<open>When nothing is left to follow, no cycle goes through the start.\<close>

lemma exhausted:
  assumes "queue_inv ms C start via []" "C = scc_of (graph_of ms) start"
  shows "(start, start) \<notin> (edges (graph_of ms))\<^sup>+"
proof
  let ?g = "graph_of ms"
  have fol: "followed ms C start via u" if "u \<in> seen start via" for u
    using assms(1) that unfolding queue_inv_def by (metis Diff_empty empty_set)
  assume "(start, start) \<in> (edges ?g)\<^sup>+"
  then obtain u where u: "reaches ?g start u" "(u, start) \<in> edges ?g" by (meson tranclD2)
  have "u \<in> seen start via"
  proof (rule ccontr)
    assume "u \<notin> seen start via"
    then obtain a b where ab: "a \<in> seen start via" "b \<notin> seen start via" "(a, b) \<in> edges ?g"
      "reaches ?g start a" "reaches ?g b u" using leaving_edge [OF u(1), of "seen start via"] by blast
    have "b \<in> C" using ab(3-5) u(2) assms(2) by (auto simp: scc_of_def intro: rtrancl_into_rtrancl)
    then show False using fol [OF ab(1)] ab(2,3) unfolding followed_def by blast
  qed
  then show False using fol [of u] u(2) unfolding followed_def by blast
qed

lemma search_ok:
  assumes ok: "modules_ok sources ms" and C: "C = scc_of (graph_of ms) start" "set C' = C" "distinct C'"
    and cyc: "(start, start) \<in> (edges (graph_of ms))\<^sup>+"
  shows "queue_inv ms C start via q \<Longrightarrow> card (seen start via - set q) + fuel = length C' \<Longrightarrow>
    \<exists>v e via' q'. search ms start C' fuel via q = Some (Inr (Some (v, e), via')) \<and>
      at_inv ms C start v via' q' \<and> edge_at ms v e start"
proof (induction fuel arbitrary: via q)
  case 0
  show ?case
  proof (cases q)
    case Nil
    then show ?thesis using exhausted 0(1) C(1) cyc by blast
  next
    case (Cons v r)
    have i: "seen start via \<subseteq> C" "set q \<subseteq> seen start via" using 0(1) by (auto simp: queue_inv_def)
    have "seen start via - set q \<subset> C" using i Cons by auto
    then have "card (seen start via - set q) < card C" using C(2) by (metis finite_set psubset_card_mono)
    then show ?thesis using 0(2) C(2,3) by (auto simp: distinct_card)
  qed
next
  case (Suc fuel)
  show ?case
  proof (cases q)
    case Nil
    then show ?thesis using exhausted Suc.prems(1) C(1) cyc by blast
  next
    case (Cons v r)
    note at = queue_at [OF Suc.prems(1) [unfolded Cons]]
    have "v \<in> C" using at by (auto simp: at_inv_def)
    then have v: "v < length ms"
    proof -
      have "reaches (graph_of ms) v start" using \<open>v \<in> C\<close> C(1) by (simp add: scc_of_def)
      moreover have "start < length ms" using cyc graph_of_ok(2) [OF ok] by (auto dest: tranclD simp: edges_def)
      ultimately show ?thesis using graph_of_ok(2) [OF ok] by (auto elim: converse_rtranclE simp: edges_def)
    qed
    from search_edges_ok [OF at C(2) edges_enumerated [OF ok v]] obtain c via' q' where
      r: "search_edges ms start C' v (enumerate 0 (lm_edges (ms ! v))) via r = Inr (c, via', q')"
      "at_inv ms C start v via' q'" "seen start via - set (v # r) = seen start via' - set (v # q')"
      and out: "case c of Some (a, e) \<Rightarrow> a = v \<and> edge_at ms v e start
        | None \<Rightarrow> \<forall>(e, edge) \<in> set (enumerate 0 (lm_edges (ms ! v))). idx ms (e_target edge) \<noteq> start \<and>
            (idx ms (e_target edge) \<in> C \<longrightarrow> idx ms (e_target edge) \<in> seen start via' \<and>
               depth via' (idx ms (e_target edge)) \<le> Suc (depth via' v))" by blast
    show ?thesis
    proof (cases c)
      case (Some p)
      then show ?thesis using r(1,2) out v Cons by (cases p) auto
    next
      case None
      have "followed ms C start via' v"
        unfolding followed_def edges_edge_at
      proof (intro allI impI)
        fix w assume "\<exists>e. edge_at ms v e w"
        then obtain e where "e < length (lm_edges (ms ! v))" "w = idx ms (e_target (lm_edges (ms ! v) ! e))"
          by (auto simp: edge_at_def)
        moreover from this have "(e, lm_edges (ms ! v) ! e) \<in> set (enumerate 0 (lm_edges (ms ! v)))"
          by (simp add: in_set_enumerate_eq)
        ultimately show "w \<noteq> start \<and> (w \<in> C \<longrightarrow> w \<in> seen start via' \<and> depth via' w \<le> Suc (depth via' v))"
          using out None by auto
      qed
      note q' = at_queue [OF r(2) this]
      have "v \<in> seen start via' - set q'" using r(2) by (auto simp: at_inv_def)
      then have "seen start via' - set q' = insert v (seen start via - set q)"
        using r(3) Cons by auto
      moreover have "v \<notin> seen start via - set q" using Cons by simp
      ultimately have "card (seen start via' - set q') = Suc (card (seen start via - set q))"
        by simp
      then have "card (seen start via' - set q') + fuel = length C'" using Suc.prems(2) by simp
      from Suc.IH [OF q' this] show ?thesis using r(1) v Cons None by simp
    qed
  qed
qed

subsection \<open>The cycle\<close>

fun trail :: "via \<Rightarrow> nat \<Rightarrow> (nat \<times> nat) list" where
  "trail [] v = []"
| "trail ((w, u, e) # via) v = (if v = w then (u, e) # trail via u else trail via v)"

lemma length_trail: "via_ok ms start via \<Longrightarrow> length (trail via v) = depth via v"
  by (induction via arbitrary: v) auto

lemma trail_walk: "via_ok ms start via \<Longrightarrow> v \<in> seen start via \<Longrightarrow> walk ms start (rev (trail via v)) v"
proof (induction via arbitrary: v)
  case (Cons x via)
  obtain w u e where x: "x = (w, u, e)" by (metis prod_cases3)
  show ?case
  proof (cases "v = w")
    case True
    then show ?thesis using Cons x by (auto simp: walk_append)
  next
    case False
    then show ?thesis using Cons x by auto
  qed
qed simp

lemma walk_back_tail:
  "via_ok ms start ((w, u, e) # via) \<Longrightarrow> v \<in> seen start via \<Longrightarrow>
     walk_back start fuel ((w, u, e) # via) v path = walk_back start fuel via v path"
proof (induction fuel arbitrary: v path)
  case 0
  then show ?case by (simp add: walk_back.simps)
next
  case (Suc fuel)
  have "v \<noteq> w" using Suc.prems by auto
  have "via_ok ms start via" using Suc.prems(1) by simp
  then have "t \<in> seen start via" if "map_of via v = Some (t, d)" for t d
    using that by (induction via) (auto split: if_splits)
  then show ?case
    using Suc.IH [OF Suc.prems(1)] \<open>v \<noteq> w\<close>
    by (subst (1 2) walk_back.simps) (auto split: option.splits)
qed

lemma walk_back_ok:
  "via_ok ms start via \<Longrightarrow> v \<in> seen start via \<Longrightarrow> depth via v \<le> fuel \<Longrightarrow>
     walk_back start fuel via v path = Some (Inr (path @ trail via v))"
proof (induction via arbitrary: v fuel path)
  case Nil
  then show ?case by (simp add: walk_back.simps)
next
  case (Cons x via)
  obtain w u e where x: "x = (w, u, e)" by (metis prod_cases3)
  have ok: "via_ok ms start ((w, u, e) # via)" "via_ok ms start via" "u \<in> seen start via" using Cons.prems(1) x by auto
  show ?case
  proof (cases "v = w")
    case True
    then obtain f where f: "fuel = Suc f" "depth via u \<le> f" using Cons.prems(3) x by (cases fuel) auto
    have "v \<noteq> start" using ok(1) True by simp
    then have "walk_back start fuel (x # via) v path = walk_back start f ((w, u, e) # via) u (path @ [(u, e)])"
      using True x f(1) by (simp add: walk_back.simps [of start "Suc f"])
    then show ?thesis using walk_back_tail [OF ok(1,3)] Cons.IH [OF ok(2,3) f(2)] True x by simp
  next
    case False
    then have "v \<in> seen start via" using Cons.prems(2) x by auto
    then show ?thesis using walk_back_tail [OF ok(1)] Cons.IH [OF ok(2)] Cons.prems(3) False x by simp
  qed
qed

lemma shortest:
  assumes at: "at_inv ms C start v via q" and C: "C = scc_of (graph_of ms) start"
  shows "walk ms a qs start \<Longrightarrow> qs \<noteq> [] \<Longrightarrow> a \<in> seen start via \<Longrightarrow> Suc (depth via v) \<le> depth via a + length qs"
proof (induction qs arbitrary: a)
  case (Cons x qs)
  obtain e w where x: "x = (a, e)" "edge_at ms a e w" "walk ms w qs start" using Cons.prems(1) by (cases x) auto
  show ?case
  proof (cases "a \<in> set (v # q)")
    case True
    then have "depth via v \<le> depth via a" using at by (auto simp: at_inv_def)
    then show ?thesis by simp
  next
    case False
    then have "followed ms C start via a" using at Cons.prems(3) unfolding at_inv_def by blast
    moreover have e: "(a, w) \<in> edges (graph_of ms)" using x(2) edges_edge_at by metis
    moreover have "w \<in> C"
    proof -
      have "a \<in> C" using at Cons.prems(3) by (auto simp: at_inv_def)
      then have "reaches (graph_of ms) start w" using C e by (auto simp: scc_of_def intro: rtrancl_into_rtrancl)
      then show ?thesis using walk_reaches [OF x(3)] C by (simp add: scc_of_def)
    qed
    ultimately have w: "w \<noteq> start" "w \<in> seen start via" "depth via w \<le> Suc (depth via a)"
      by (auto simp: followed_def)
    have "qs \<noteq> []" using x(3) w(1) by auto
    then show ?thesis using Cons.IH [OF x(3) _ w(2)] w(3) by simp
  qed
qed simp

text \<open>A shortest cycle through \<open>start\<close>, as the edges it takes.\<close>

definition shortest_cycle :: "('a, 'p) LoadedModule list \<Rightarrow> nat \<Rightarrow> (nat \<times> nat) list \<Rightarrow> bool" where
  "shortest_cycle ms start ps \<longleftrightarrow>
     ps \<noteq> [] \<and> walk ms start ps start \<and> (\<forall>qs. qs \<noteq> [] \<and> walk ms start qs start \<longrightarrow> length ps \<le> length qs)"

lemma component_path_ok:
  assumes ok: "modules_ok sources ms" and c: "c \<noteq> []" "distinct c" "set c = scc_of (graph_of ms) (hd c)"
    and cyc: "(hd c, hd c) \<in> (edges (graph_of ms))\<^sup>+"
  shows "\<exists>ps. component_path ms c = Some (Inr ps) \<and> shortest_cycle ms (hd c) ps"
proof -
  let ?s = "hd c"
  have s: "nth_res c 0 = Inr ?s" "?s \<in> set c" using c(1) by (simp_all add: hd_conv_nth)
  have "queue_inv ms (set c) ?s [] [?s]" using s(2) by (simp add: queue_inv_def)
  moreover have "card (seen ?s [] - set [?s]) + length c = length c" by simp
  ultimately obtain v e via q where r: "search ms ?s c (length c) [] [?s] = Some (Inr (Some (v, e), via))"
    "at_inv ms (set c) ?s v via q" "edge_at ms v e ?s"
    using search_ok [OF ok c(3) refl c(2) cyc] by blast
  have via: "via_ok ms ?s via" "v \<in> seen ?s via" "seen ?s via \<subseteq> set c" using r(2) by (auto simp: at_inv_def)
  have "depth via v \<le> length via" by (rule depth_le)
  moreover have "length via \<le> length c"
  proof -
    have "distinct (map fst via)" by (rule via_distinct [OF via(1)])
    then have "length via = card (fst ` set via)" by (metis distinct_card length_map set_map)
    also have "\<dots> \<le> card (set c)" using via(3) by (intro card_mono) auto
    finally show ?thesis using card_length [of c] by simp
  qed
  ultimately have wb: "walk_back ?s (length c) via v [(v, e)] = Some (Inr ([(v, e)] @ trail via v))"
    using walk_back_ok [OF via(1,2)] by simp
  let ?ps = "rev (trail via v) @ [(v, e)]"
  have "component_path ms c = Some (Inr ?ps)"
    unfolding component_path_def s(1) using r(1) wb by simp
  moreover have "walk ms ?s ?ps ?s" using trail_walk [OF via(1,2)] r(3) by (auto simp: walk_append)
  moreover have "length ?ps \<le> length qs" if "qs \<noteq> []" "walk ms ?s qs ?s" for qs
    using shortest [OF r(2) c(3) that(2,1)] depth_start [OF via(1)] length_trail [OF via(1)] by simp
  ultimately show ?thesis by (auto simp: shortest_cycle_def)
qed

subsection \<open>Sorting by a key\<close>

lemma sort_by_res_ok:
  assumes "\<And>x. x \<in> set xs \<Longrightarrow> f x = Inr (k x)"
  shows "\<exists>ys. sort_by_res f xs = Inr ys \<and> mset ys = mset xs \<and> sorted (map k ys)"
proof -
  let ?ks = "map (\<lambda>x. (k x, x)) xs"
  have "map_res (\<lambda>x. map_ok (\<lambda>k. (k, x)) (f x)) xs = Inr ?ks"
    by (rule map_res_ok) (use assms in simp)
  then have run: "sort_by_res f xs = Inr (map snd (sort_key fst ?ks))" by (simp add: sort_by_res_def)
  have "mset (map snd (sort_key fst ?ks)) = mset xs" by (simp only: mset_map mset_sort) (simp add: multiset.map_comp comp_def)
  moreover have "map k (map snd (sort_key fst ?ks)) = map fst (sort_key fst ?ks)" by auto
  then have "sorted (map k (map snd (sort_key fst ?ks)))" by (simp only: sorted_sort_key)
  ultimately show ?thesis using run by blast
qed

lemma map_run_ok:
  "(\<And>x. x \<in> set xs \<Longrightarrow> \<exists>y. f x = Some (Inr y) \<and> R x y) \<Longrightarrow> \<exists>ys. map_run f xs = Some (Inr ys) \<and> list_all2 R xs ys"
proof (induction xs)
  case (Cons x xs)
  obtain y where "f x = Some (Inr y)" "R x y" using Cons.prems [of x] by auto
  moreover obtain ys where "map_run f xs = Some (Inr ys)" "list_all2 R xs ys" using Cons by auto
  ultimately show ?case by auto
qed simp

definition key_idx :: "SourceMap \<Rightarrow> ('a, 'p) LoadedModule list \<Rightarrow> nat \<Rightarrow> ModulePath option" where
  "key_idx sources ms i = key_of sources (lm_file (ms ! i))"

lemma key_at_ok: "modules_ok sources ms \<Longrightarrow> i < length ms \<Longrightarrow> key_at sources ms i = Inr (key_idx sources ms i)"
  using key_ok [of sources ms "lm_file (ms ! i)"] by (simp add: key_at_def key_idx_def module_files_def)

lemma cycle_step_ok:
  assumes "modules_ok sources ms" "edge_at ms v e w"
  shows "\<exists>st. cycle_step ms sources (v, e) = Inr st"
proof -
  have v: "v < length ms" "e < length (lm_edges (ms ! v))" using assms(2) by (auto simp: edge_at_def)
  have "e_target (lm_edges (ms ! v) ! e) \<in> module_files ms" using modules_okD(2) [OF assms(1) v(1)] v(2) by simp
  moreover have "lm_file (ms ! v) \<in> module_files ms" using v(1) by (simp add: module_files_def)
  moreover have "\<exists>n. name_of_module sources f = Inr n" if "f \<in> module_files ms" for f
  proof -
    have "FileId_index f < length (sm_files sources)"
      using assms(1) that by (auto simp: modules_ok_def list_all_iff module_files_def)
    then show ?thesis
      by (auto simp: name_of_module_def file_module_def file_path_def source_file_def split: option.splits)
  qed
  ultimately obtain m n where "name_of_module sources (lm_file (ms ! v)) = Inr m"
    "name_of_module sources (e_target (lm_edges (ms ! v) ! e)) = Inr n" by metis
  then show ?thesis using v by (simp add: cycle_step_def)
qed

lemma walk_edges: "walk ms a ps b \<Longrightarrow> (v, e) \<in> set ps \<Longrightarrow> \<exists>w. edge_at ms v e w"
  by (induction ms a ps b rule: walk.induct) auto

text \<open>What an error says of its component: it lists, step by step, a shortest cycle through the
  component's first module.\<close>

definition reports_cycle :: "('a, 'p) LoadedModule list \<Rightarrow> SourceMap \<Rightarrow> nat list \<Rightarrow> LoadError \<Rightarrow> bool" where
  "reports_cycle ms sources c err \<longleftrightarrow>
     (\<exists>ps steps. err = Cycle steps \<and> shortest_cycle ms (hd c) ps \<and>
        list_all2 (\<lambda>p st. cycle_step ms sources p = Inr st) ps steps)"

lemma component_reported:
  assumes ok: "modules_ok sources ms" and c: "c \<noteq> []" "distinct c" "set c = scc_of (graph_of ms) (hd c)"
    and cyc: "(hd c, hd c) \<in> (edges (graph_of ms))\<^sup>+"
  shows "\<exists>err. bind_run (component_path ms c) (\<lambda>path.
         bind_run (Some (map_res (cycle_step ms sources) path)) (\<lambda>steps. Some (Inr (Cycle steps)))) = Some (Inr err) \<and>
      reports_cycle ms sources c err"
proof -
  from component_path_ok [OF assms] obtain ps where ps: "component_path ms c = Some (Inr ps)" "shortest_cycle ms (hd c) ps"
    by blast
  have "\<exists>st. cycle_step ms sources p = Inr st" if "p \<in> set ps" for p
    using walk_edges [of ms "hd c" ps "hd c" "fst p" "snd p"] ps(2) that cycle_step_ok [OF ok, of "fst p" "snd p"]
    by (auto simp: shortest_cycle_def)
  then obtain steps where "map_res (cycle_step ms sources) ps = Inr steps"
    using map_res_exists [of ps "cycle_step ms sources" "\<lambda>_ _. True"] by blast
  moreover from this have "list_all2 (\<lambda>p st. cycle_step ms sources p = Inr st) ps steps" by (simp add: map_res_Inr)
  ultimately show ?thesis using ps by (auto simp: reports_cycle_def)
qed

lemma sorted_component:
  assumes ok: "modules_ok sources ms" and c: "c \<noteq> []" "distinct c" "\<And>i. i \<in> set c \<Longrightarrow> i < length ms \<and> set c = scc_of (graph_of ms) i"
  shows "\<exists>d. sort_by_res (key_at sources ms) c = Inr d \<and> mset d = mset c \<and>
    (\<forall>i \<in> set d. key_idx sources ms (hd d) \<le> key_idx sources ms i)"
proof -
  from sort_by_res_ok [of c "key_at sources ms" "key_idx sources ms"] key_at_ok [OF ok] c(3) obtain d where
    d: "sort_by_res (key_at sources ms) c = Inr d" "mset d = mset c" "sorted (map (key_idx sources ms) d)" by auto
  have "d \<noteq> []" using d(2) c(1) by auto
  then have "key_idx sources ms (hd d) \<le> key_idx sources ms i" if "i \<in> set d" for i
    using d(3) that by (cases d) auto
  then show ?thesis using d by blast
qed

lemma mset_concat_cong: "mset xs = mset ys \<Longrightarrow> mset (concat xs) = mset (concat ys)"
proof -
  assume "mset xs = mset ys"
  moreover have "mset (concat zs) = \<Sum>\<^sub># (image_mset mset (mset zs))" for zs :: "'a list list"
    by (induction zs) auto
  ultimately show ?thesis by simp
qed

text \<open>A component that is reported: its members in the order of their keys.\<close>

definition reported_component :: "('a, 'p) LoadedModule list \<Rightarrow> SourceMap \<Rightarrow> nat list \<Rightarrow> bool" where
  "reported_component ms sources c \<longleftrightarrow>
     c \<noteq> [] \<and> distinct c \<and> hd c < length ms \<and> set c = scc_of (graph_of ms) (hd c) \<and>
     (hd c, hd c) \<in> (edges (graph_of ms))\<^sup>+ \<and>
     (\<forall>i \<in> set c. key_idx sources ms (hd c) \<le> key_idx sources ms i)"

lemma sorted_components:
  assumes ok: "modules_ok sources ms"
  shows "\<exists>as bs. cyclic_components (graph_of ms) = Some (Inr as) \<and>
    map_res (sort_by_res (key_at sources ms)) as = Inr bs \<and> (\<forall>b \<in> set bs. reported_component ms sources b) \<and>
    distinct (concat bs) \<and> set (concat bs) = {i. (i, i) \<in> (edges (graph_of ms))\<^sup>+}"
proof -
  let ?g = "graph_of ms"
  from cyclic_components_ok [OF graph_of_ok(1) [OF ok]] obtain as where
    as: "cyclic_components ?g = Some (Inr as)" "distinct (concat as)"
    "\<And>c. c \<in> set as \<Longrightarrow> c \<noteq> []" "\<And>c v. c \<in> set as \<Longrightarrow> v \<in> set c \<Longrightarrow> set c = scc_of ?g v"
    "set (concat as) = {v. (v, v) \<in> (edges ?g)\<^sup>+}" by (auto simp: scc_of_def)
  have lt: "i < length ms" if "i \<in> set (concat as)" for i
    using that unfolding as(5) using graph_of_ok(2) [OF ok] by (auto dest: tranclD simp: edges_def)
  let ?R = "\<lambda>c d. mset d = mset c \<and> (\<forall>i \<in> set d. key_idx sources ms (hd d) \<le> key_idx sources ms i)"
  have "\<exists>d. sort_by_res (key_at sources ms) c = Inr d \<and> ?R c d" if "c \<in> set as" for c
  proof (rule sorted_component [OF ok as(3) [OF that]])
    show "distinct c" using as(2) that by (simp add: distinct_concat_iff)
    fix i assume i: "i \<in> set c"
    then have "i \<in> set (concat as)" using that by auto
    then show "i < length ms \<and> set c = scc_of ?g i" using lt as(4) [OF that i] by blast
  qed
  from map_res_exists [of as "sort_by_res (key_at sources ms)" ?R, OF this] obtain bs
    where bs: "map_res (sort_by_res (key_at sources ms)) as = Inr bs" "list_all2 ?R as bs" by blast
  have "reported_component ms sources b" if b: "b \<in> set bs" for b
  proof -
    obtain j where j: "j < length bs" "bs ! j = b" using b by (metis in_set_conv_nth)
    obtain a where a: "a \<in> set as" "?R a b"
      using list_all2_nthD2 [OF bs(2) j(1)] list_all2_lengthD [OF bs(2)] j by (metis nth_mem)
    then have eq: "set b = set a" by (metis mset_eq_setD)
    have ne: "b \<noteq> []" using as(3) a eq by (metis set_empty)
    then have h: "hd b \<in> set a" using eq by (metis hd_in_set)
    then have "set b = scc_of ?g (hd b)" using as(4) a(1) eq by simp
    moreover have "distinct b" using as(2) a by (metis distinct_concat_iff mset_eq_imp_distinct_iff)
    moreover have "hd b \<in> set (concat as)" using h a(1) by auto
    ultimately show ?thesis using ne a(2) lt as(5) by (auto simp: reported_component_def)
  qed
  moreover have "mset (concat bs) = mset (concat as)" using bs(2) by (induction rule: list_all2_induct) auto
  then have "set (concat bs) = set (concat as)" "distinct (concat bs)"
    using as(2) by (metis mset_eq_setD, metis mset_eq_imp_distinct_iff)
  ultimately show ?thesis using as(1,5) bs(1) by blast
qed

lemma cycles_ok:
  assumes ok: "modules_ok sources ms"
  shows "\<exists>cs errs. cycles ms sources = Some (Inr errs) \<and> list_all2 (reports_cycle ms sources) cs errs \<and>
    distinct (concat cs) \<and> set (concat cs) = {i. (i, i) \<in> (edges (graph_of ms))\<^sup>+} \<and>
    sorted (map (\<lambda>c. key_idx sources ms (hd c)) cs) \<and> (\<forall>c \<in> set cs. reported_component ms sources c)"
proof -
  from sorted_components [OF ok] obtain as bs where b: "cyclic_components (graph_of ms) = Some (Inr as)"
    "map_res (sort_by_res (key_at sources ms)) as = Inr bs" "\<forall>b \<in> set bs. reported_component ms sources b"
    "distinct (concat bs)" "set (concat bs) = {i. (i, i) \<in> (edges (graph_of ms))\<^sup>+}" by blast
  have "bind_res (nth_res c 0) (key_at sources ms) = Inr (key_idx sources ms (hd c))" if "c \<in> set bs" for c
  proof -
    have "c \<noteq> []" "hd c < length ms" using b(3) that by (auto simp: reported_component_def)
    then show ?thesis using key_at_ok [OF ok, of "hd c"] by (simp add: hd_conv_nth)
  qed
  from sort_by_res_ok [of bs "\<lambda>c. bind_res (nth_res c 0) (key_at sources ms)" "\<lambda>c. key_idx sources ms (hd c)", OF this]
  obtain cs where cs: "sort_by_res (\<lambda>c. bind_res (nth_res c 0) (key_at sources ms)) bs = Inr cs" "mset cs = mset bs"
    "sorted (map (\<lambda>c. key_idx sources ms (hd c)) cs)" by blast
  have mem: "reported_component ms sources c" if "c \<in> set cs" for c using that cs(2) b(3) by (metis mset_eq_setD)
  let ?f = "\<lambda>c. bind_run (component_path ms c) (\<lambda>path.
      bind_run (Some (map_res (cycle_step ms sources) path)) (\<lambda>steps. Some (Inr (Cycle steps))))"
  have "\<exists>err. ?f c = Some (Inr err) \<and> reports_cycle ms sources c err" if "c \<in> set cs" for c
    using mem [OF that] component_reported [OF ok, of c] by (simp add: reported_component_def)
  from map_run_ok [of cs ?f "reports_cycle ms sources", OF this] obtain errs where
    errs: "map_run ?f cs = Some (Inr errs)" "list_all2 (reports_cycle ms sources) cs errs" by blast
  have "mset (concat cs) = mset (concat bs)" using cs(2) by (rule mset_concat_cong)
  then have "set (concat cs) = {i. (i, i) \<in> (edges (graph_of ms))\<^sup>+}" "distinct (concat cs)"
    using b(4,5) by (metis mset_eq_setD, metis mset_eq_imp_distinct_iff)
  moreover have "cycles ms sources = Some (Inr errs)"
    using successors_ok [OF ok] b(1,2) cs(1) errs(1) by (simp add: cycles_def)
  ultimately show ?thesis using errs(2) cs(3) mem by blast
qed

lemma acyclic_graph_of:
  assumes ok: "modules_ok sources ms"
  shows "acyclic (depends ms) \<longleftrightarrow> {i. (i, i) \<in> (edges (graph_of ms))\<^sup>+} = {}"
proof -
  note d = modules_okD(1) [OF ok]
  have to: "(lm_file (ms ! v), lm_file (ms ! w)) \<in> (depends ms)\<^sup>+" if "(v, w) \<in> (edges (graph_of ms))\<^sup>+" for v w
    using that by (induction rule: trancl_induct) (auto simp: edges_depends [OF ok] intro: trancl_into_trancl)
  have fro: "(idx ms f, idx ms t) \<in> (edges (graph_of ms))\<^sup>+" if "(f, t) \<in> (depends ms)\<^sup>+" for f t
  proof -
    have step: "(idx ms f, idx ms t) \<in> edges (graph_of ms)" if "(f, t) \<in> depends ms" for f t
    proof -
      have "f \<in> module_files ms" "t \<in> module_files ms"
        using that targets_files [OF ok, of f] by (auto simp: depends_def module_files_def targets_def)
      then show ?thesis using index_of_file(2,3) [OF d] that edges_depends [OF ok] by simp
    qed
    show ?thesis using that by (induction rule: trancl_induct) (use step in \<open>blast intro: trancl_into_trancl\<close>)+
  qed
  show ?thesis using to fro unfolding acyclic_def by blast
qed

subsection \<open>Properties\<close>

text \<open>C26. Every cyclic component of the module graph is reported once, in the order of their least
  modules. The error's steps are the edges of a cycle through that least module, and no cycle through it
  is shorter. The search for the cycle always finds one, and no index is out of range.\<close>
theorem cycles_shortest:
  assumes "modules_ok sources ms"
  shows "\<exists>cs errs. cycles ms sources = Some (Inr errs) \<and> distinct (concat cs) \<and>
    set (concat cs) = {i. (i, i) \<in> (edges (graph_of ms))\<^sup>+} \<and>
    sorted (map (\<lambda>c. key_idx sources ms (hd c)) cs) \<and>
    (\<forall>c \<in> set cs. c \<noteq> [] \<and> set c = scc_of (graph_of ms) (hd c) \<and>
       (\<forall>i \<in> set c. key_idx sources ms (hd c) \<le> key_idx sources ms i)) \<and>
    list_all2 (\<lambda>c err. \<exists>ps steps. err = Cycle steps \<and> ps \<noteq> [] \<and> walk ms (hd c) ps (hd c) \<and>
       (\<forall>qs. qs \<noteq> [] \<and> walk ms (hd c) qs (hd c) \<longrightarrow> length ps \<le> length qs) \<and>
       list_all2 (\<lambda>p st. cycle_step ms sources p = Inr st) ps steps) cs errs"
proof -
  from cycles_ok [OF assms] obtain cs errs where c: "cycles ms sources = Some (Inr errs)"
    "list_all2 (reports_cycle ms sources) cs errs" "distinct (concat cs)"
    "set (concat cs) = {i. (i, i) \<in> (edges (graph_of ms))\<^sup>+}"
    "sorted (map (\<lambda>c. key_idx sources ms (hd c)) cs)" "\<forall>c \<in> set cs. reported_component ms sources c" by blast
  have "list_all2 (\<lambda>c err. \<exists>ps steps. err = Cycle steps \<and> ps \<noteq> [] \<and> walk ms (hd c) ps (hd c) \<and>
       (\<forall>qs. qs \<noteq> [] \<and> walk ms (hd c) qs (hd c) \<longrightarrow> length ps \<le> length qs) \<and>
       list_all2 (\<lambda>p st. cycle_step ms sources p = Inr st) ps steps) cs errs"
    using c(2) by (rule list_all2_mono) (simp add: reports_cycle_def shortest_cycle_def)
  then show ?thesis using c(1,3-6) unfolding reported_component_def by blast
qed

definition sample_cyclic :: "(unit, unit) LoadedModule list" where
  "sample_cyclic =
     [\<lparr>lm_file = FileId 0, lm_ast = None, lm_parse_errors = [],
        lm_edges = [\<lparr>e_kind = Import, e_span = Span_new (FileId 0) 7 8, e_target = FileId 1\<rparr>]\<rparr>,
      \<lparr>lm_file = FileId 1, lm_ast = None, lm_parse_errors = [],
        lm_edges = [\<lparr>e_kind = Run, e_span = Span_new (FileId 1) 4 5, e_target = FileId 1\<rparr>,
          \<lparr>e_kind = Import, e_span = Span_new (FileId 1) 7 8, e_target = FileId 0\<rparr>]\<rparr>]"

theorem cycles_shortest_witness:
  "\<exists>cs errs. cycles sample_cyclic sample_sources = Some (Inr errs) \<and> distinct (concat cs) \<and>
     set (concat cs) = {i. (i, i) \<in> (edges (graph_of sample_cyclic))\<^sup>+}"
proof -
  have "modules_ok sample_sources sample_cyclic" by code_simp
  from cycles_shortest [OF this] show ?thesis by blast
qed

end
