(* ===== verification/Module_Loading.thy ===== *)
theory Module_Loading
  imports Parse_Errors Module_Cycles Labels
begin

section \<open>Loading a program\<close>

text \<open>
  \<open>src/ccl/load/mod.rs\<close>: the files of a program, found from its root by following each top-level
  \<open>import\<close> and \<open>run\<close>, then the cycles and the link order of the module graph. The token rules, the
  grammar, the std root and the implementation of \<open>ModuleFiles\<close> are parameters; \<open>fetch\<close> takes the state
  of the last and returns it updated. The result type is that of a loop with fuel only because the lexer's
  is: the loop over the files has none.
\<close>

subsection \<open>Data\<close>

record RootFile =
  root_path :: utext
  root_module :: "ModulePath option"
  root_text :: utext

record ModuleFile =
  mf_path :: utext
  mf_text :: utext

type_synonym 's fetcher = "'s \<Rightarrow> ModulePath \<Rightarrow> (MissingModule + ModuleFile) \<times> 's"

type_synonym module_ast = "(Module, ParseError) LoadedModule"

record LoadedProgram =
  lp_sources :: SourceMap
  lp_modules :: "module_ast list"
  lp_link_order :: "FileId list option"
  lp_errors :: "LoadError list"

fun EdgeKind_verb :: "EdgeKind \<Rightarrow> utext" where
  "EdgeKind_verb Import = lit ''imports''"
| "EdgeKind_verb Run = lit ''runs''"

definition CycleStep_display :: "CycleStep \<Rightarrow> utext" where
  "CycleStep_display st =
     [96] @ cs_from st @ [96] @ lit '' '' @ EdgeKind_verb (cs_kind st) @ lit '' '' @ [96] @ cs_to st @ [96]"

fun LoadError_span :: "LoadError \<Rightarrow> Span res" where
  "LoadError_span (Missing span _ _) = Inr span"
| "LoadError_span (NoStdModule span _) = Inr span"
| "LoadError_span (Cycle steps) = map_ok cs_span (nth_res steps 0)"

definition no_module :: "ModulePath \<Rightarrow> utext" where
  "no_module m = lit ''no module '' @ [96] @ ModulePath_display m @ [96] @ lit '': ''"

fun missing_display :: "ModulePath \<Rightarrow> MissingModule \<Rightarrow> utext" where
  "missing_display m (NoFile f) = no_module m @ lit ''there is no file '' @ [96] @ f @ [96]"
| "missing_display m (CaseMismatch f found) =
     no_module m @ lit ''there is no file '' @ [96] @ f @ [96] @ lit '', and '' @ [96] @ found @ [96] @
     lit '' differs from it in case''"
| "missing_display m (SameFile f other) =
     lit ''module '' @ [96] @ ModulePath_display m @ [96] @ lit '' is the file '' @ [96] @ f @ [96] @
     lit '', which is already module '' @ [96] @ ModulePath_display other @ [96] @ lit ''; a file is one module''"
| "missing_display m (Unreadable f why) =
     lit ''cannot read '' @ [96] @ f @ [96] @ lit '', the file of module '' @ [96] @ ModulePath_display m @ [96] @
     lit '': '' @ why"

fun LoadError_display :: "LoadError \<Rightarrow> utext res" where
  "LoadError_display (Missing _ m why) = Inr (missing_display m why)"
| "LoadError_display (NoStdModule _ m) =
     (case segments m of
        [] \<Rightarrow> Inl Explicit
      | [_] \<Rightarrow> Inr ([96] @ ModulePath_display m @ [96] @ lit '' is the std root, not a module'')
      | _ # rest \<Rightarrow> Inr (no_module m @ lit ''the std root has no module '' @ [96] @ join (lit ''::'') rest @ [96]))"
| "LoadError_display (Cycle steps) =
     Inr (lit ''the module graph has a cycle: '' @ join (lit '', '') (map CycleStep_display steps))"

subsection \<open>Module files in memory\<close>

type_synonym InMemory = "(ModulePath \<times> utext) list"

definition InMemory_with :: "lexer \<Rightarrow> bool \<Rightarrow> utext \<Rightarrow> utext \<Rightarrow> InMemory \<Rightarrow> InMemory res" where
  "InMemory_with next_tok dbg m source held =
     (let segs = split_colons [] m in
      if list_all (\<lambda>s. segment_error next_tok s = None) segs
      then map_ok (\<lambda>p. bt_insert p source held) (ModulePath_new next_tok dbg segs)
      else Inl Explicit)"

definition InMemory_fetch :: "InMemory fetcher" where
  "InMemory_fetch held m =
     (case map_of held m of
        Some source \<Rightarrow> Inr \<lparr>mf_path = relative_file m, mf_text = source\<rparr>
      | None \<Rightarrow> Inl (NoFile (relative_file m)), held)"

subsection \<open>Statements that name modules\<close>

fun statement_edge :: "Stmt \<Rightarrow> (EdgeKind \<times> WrittenPath) option" where
  "statement_edge (S_Import path _ _ _) = Some (Import, path)"
| "statement_edge (S_Run path _ _ _ _) = Some (Run, path)"
| "statement_edge (S_Pub _ stmt) = statement_edge (spn_node stmt)"
| "statement_edge _ = None"

definition statement_edges :: "Module \<Rightarrow> (EdgeKind \<times> WrittenPath) list" where
  "statement_edges m = List.map_filter (\<lambda>stmt. statement_edge (spn_node stmt)) (md_body m)"

subsection \<open>Resolving a module path\<close>

type_synonym stdlib = "(utext \<times> utext) list"

definition std_file :: "ModulePath \<Rightarrow> stdlib \<Rightarrow> ModuleFile option res" where
  "std_file m std =
     (case find (\<lambda>(path, _). path = ModulePath_display m) std of
        None \<Rightarrow> Inr None
      | Some (_, source) \<Rightarrow>
          (case segments m of
             [] \<Rightarrow> Inl OutOfRange
           | _ # rest \<Rightarrow>
               Inr (Some \<lparr>mf_path = lit ''<std>/'' @ join (lit ''/'') rest @ lit ''.cambra'', mf_text = source\<rparr>)))"

text \<open>The variables of the loop: the files so far, what each path resolved to, the state of the module
  files, the queue, and the edges and errors found.\<close>

record 's Loading =
  ld_sources :: SourceMap
  ld_resolved :: "(ModulePath \<times> (MissingModule option + FileId)) list"
  ld_files :: 's
  ld_pending :: "FileId list"
  ld_edges :: "Edge list"
  ld_errors :: "LoadError list"

definition add_found ::
  "ModulePath \<Rightarrow> MissingModule option + ModuleFile \<Rightarrow> 's Loading \<Rightarrow> ((MissingModule option + FileId) \<times> 's Loading) res" where
  "add_found m found st =
     (case found of
        Inl why \<Rightarrow> Inr (Inl why, st\<lparr>ld_resolved := bt_insert m (Inl why) (ld_resolved st)\<rparr>)
      | Inr f \<Rightarrow>
          bind_res (add_module m (mf_path f) (mf_text f) (ld_sources st)) (\<lambda>(added, sources).
            Inr (Inr added, st\<lparr>ld_sources := sources, ld_pending := ld_pending st @ [added],
              ld_resolved := bt_insert m (Inr added) (ld_resolved st)\<rparr>)))"

definition resolve ::
  "stdlib \<Rightarrow> 's fetcher \<Rightarrow> ModulePath \<Rightarrow> 's Loading \<Rightarrow> ((MissingModule option + FileId) \<times> 's Loading) res" where
  "resolve std fetch m st =
     (case map_of (ld_resolved st) m of
        Some target \<Rightarrow> Inr (target, st)
      | None \<Rightarrow>
          bind_res (is_std m) (\<lambda>under_std.
            if under_std
            then bind_res (std_file m std) (\<lambda>f.
              add_found m (case f of None \<Rightarrow> Inl None | Some f \<Rightarrow> Inr f) st)
            else (case fetch (ld_files st) m of
              (found, held) \<Rightarrow>
                add_found m (case found of Inl why \<Rightarrow> Inl (Some why) | Inr f \<Rightarrow> Inr f) (st\<lparr>ld_files := held\<rparr>))))"

subsection \<open>The loop over the files\<close>

definition record_target ::
  "EdgeKind \<Rightarrow> Span \<Rightarrow> ModulePath \<Rightarrow> MissingModule option + FileId \<Rightarrow> 's Loading \<Rightarrow> 's Loading" where
  "record_target kind span m target st =
     (case target of
        Inr t \<Rightarrow> st\<lparr>ld_edges := ld_edges st @ [\<lparr>e_kind = kind, e_span = span, e_target = t\<rparr>]\<rparr>
      | Inl (Some why) \<Rightarrow> st\<lparr>ld_errors := ld_errors st @ [Missing span m why]\<rparr>
      | Inl None \<Rightarrow> st\<lparr>ld_errors := ld_errors st @ [NoStdModule span m]\<rparr>)"

definition load_edge ::
  "lexer \<Rightarrow> bool \<Rightarrow> stdlib \<Rightarrow> 's fetcher \<Rightarrow> EdgeKind \<times> WrittenPath \<Rightarrow> 's Loading \<Rightarrow> 's Loading res" where
  "load_edge next_tok dbg std fetch edge st =
     bind_res (to_path next_tok dbg (snd edge)) (\<lambda>m. case m of
       None \<Rightarrow> Inr st
     | Some m \<Rightarrow>
         bind_res (written_span dbg (snd edge)) (\<lambda>span.
         bind_res (resolve std fetch m st) (\<lambda>(target, st).
           Inr (record_target (fst edge) span m target st))))"

fun load_edges ::
  "lexer \<Rightarrow> bool \<Rightarrow> stdlib \<Rightarrow> 's fetcher \<Rightarrow> (EdgeKind \<times> WrittenPath) list \<Rightarrow> 's Loading \<Rightarrow> 's Loading res" where
  "load_edges next_tok dbg std fetch [] st = Inr st"
| "load_edges next_tok dbg std fetch (edge # es) st =
     bind_res (load_edge next_tok dbg std fetch edge st) (load_edges next_tok dbg std fetch es)"

text \<open>The body of the loop, for the file at the front of the queue.\<close>

definition load_file ::
  "lexer \<Rightarrow> Stmt Spanned list grammar \<Rightarrow> bool \<Rightarrow> stdlib \<Rightarrow> 's fetcher \<Rightarrow> FileId \<Rightarrow> 's Loading \<Rightarrow>
     ('s Loading \<times> module_ast) res option" where
  "load_file next_tok module_parser dbg std fetch f st =
     bind_run (Some (file_text f (ld_sources st))) (\<lambda>source.
     bind_run (parse_module next_tok module_parser dbg f source) (\<lambda>parse.
     bind_run (Some (load_edges next_tok dbg std fetch
         (case pr_value parse of None \<Rightarrow> [] | Some m \<Rightarrow> statement_edges m) (st\<lparr>ld_edges := []\<rparr>))) (\<lambda>st.
       Some (Inr (st, \<lparr>lm_file = f, lm_ast = pr_value parse, lm_parse_errors = pr_errors parse,
                       lm_edges = ld_edges st\<rparr>)))))"

text \<open>Every file added takes a slot of the source map, which has at most \<open>2\<^sup>3\<^sup>2\<close>.\<close>

definition slots_left :: "'s Loading \<Rightarrow> nat" where
  "slots_left st = 2 * (2 ^ 32 - length (sm_files (ld_sources st))) + length (ld_pending st)"

definition slots_ok :: "'s Loading \<Rightarrow> 's Loading \<Rightarrow> bool" where
  "slots_ok st st' \<longleftrightarrow>
     (\<exists>k. length (sm_files (ld_sources st')) = length (sm_files (ld_sources st)) + k \<and>
        length (ld_pending st') = length (ld_pending st) + k \<and>
        (0 < k \<longrightarrow> length (sm_files (ld_sources st')) \<le> 2 ^ 32))"

lemma slots_ok_refl [simp]: "slots_ok st st"
  by (auto simp: slots_ok_def)

lemma slots_ok_trans: "slots_ok a b \<Longrightarrow> slots_ok b c \<Longrightarrow> slots_ok a c"
proof -
  assume "slots_ok a b" "slots_ok b c"
  then obtain j k where "length (sm_files (ld_sources b)) = length (sm_files (ld_sources a)) + j"
    "length (ld_pending b) = length (ld_pending a) + j" "0 < j \<longrightarrow> length (sm_files (ld_sources b)) \<le> 2 ^ 32"
    "length (sm_files (ld_sources c)) = length (sm_files (ld_sources b)) + k"
    "length (ld_pending c) = length (ld_pending b) + k" "0 < k \<longrightarrow> length (sm_files (ld_sources c)) \<le> 2 ^ 32"
    unfolding slots_ok_def by blast
  then show ?thesis unfolding slots_ok_def by (intro exI [of _ "j + k"]) auto
qed

lemma slots_ok_update [simp]:
  "slots_ok (st\<lparr>ld_edges := es\<rparr>) st' = slots_ok st st'" "slots_ok (st\<lparr>ld_files := fs\<rparr>) st' = slots_ok st st'"
  "slots_ok st (st'\<lparr>ld_edges := es\<rparr>) = slots_ok st st'" "slots_ok st (st'\<lparr>ld_errors := er\<rparr>) = slots_ok st st'"
  "slots_ok st (st'\<lparr>ld_resolved := r\<rparr>) = slots_ok st st'"
  by (simp_all add: slots_ok_def)

lemma add_found_cases:
  assumes "add_found m found st = Inr (t, st')"
  obtains (missing) why where "found = Inl why" "t = Inl why" "st' = st\<lparr>ld_resolved := bt_insert m (Inl why) (ld_resolved st)\<rparr>"
  | (added) f added where "found = Inr f" "t = Inr added" "added = FileId (length (sm_files (ld_sources st)))"
      "length (sm_files (ld_sources st)) < 2 ^ 32"
      "st' = st\<lparr>ld_sources := (ld_sources st)\<lparr>sm_files := sm_files (ld_sources st) @
           [\<lparr>sf_path = mf_path f, sf_module = Some m, sf_text = mf_text f\<rparr>]\<rparr>,
         ld_pending := ld_pending st @ [added], ld_resolved := bt_insert m (Inr added) (ld_resolved st)\<rparr>"
proof (cases found)
  case (Inl why)
  then show ?thesis by (rule missing) (use assms Inl in \<open>auto simp: add_found_def\<close>)
next
  case (Inr f)
  show ?thesis
    by (rule added [OF Inr]) (use assms Inr in \<open>auto simp: add_found_def add_module_def push_file_def split: if_splits\<close>)
qed

lemma resolve_cases:
  assumes "resolve std fetch m st = Inr (t, st')"
  obtains (known) "map_of (ld_resolved st) m = Some t" "st' = st"
  | (under_std) f where "map_of (ld_resolved st) m = None" "is_std m = Inr True" "std_file m std = Inr f"
      "add_found m (case f of None \<Rightarrow> Inl None | Some f \<Rightarrow> Inr f) st = Inr (t, st')"
  | (fetched) found held where "map_of (ld_resolved st) m = None" "is_std m = Inr False"
      "fetch (ld_files st) m = (found, held)"
      "add_found m (case found of Inl why \<Rightarrow> Inl (Some why) | Inr f \<Rightarrow> Inr f) (st\<lparr>ld_files := held\<rparr>) = Inr (t, st')"
proof (cases "map_of (ld_resolved st) m")
  case None
  obtain found held where f: "fetch (ld_files st) m = (found, held)" by fastforce
  obtain b where b: "is_std m = Inr b" using assms None by (cases "is_std m") (simp_all add: resolve_def)
  show ?thesis
  proof (cases b)
    case True
    then obtain g where g: "std_file m std = Inr g"
      "add_found m (case g of None \<Rightarrow> Inl None | Some f \<Rightarrow> Inr f) st = Inr (t, st')"
      using assms None b by (cases "std_file m std") (simp_all add: resolve_def)
    show ?thesis by (rule under_std [OF None _ g]) (use b True in simp)
  next
    case False
    show ?thesis
      by (rule fetched [OF None _ f]) (use assms None b f False in \<open>simp_all add: resolve_def\<close>)
  qed
next
  case (Some u)
  then show ?thesis by (intro known) (use assms in \<open>simp_all add: resolve_def\<close>)
qed

lemma load_edge_cases:
  assumes "load_edge next_tok dbg std fetch edge st = Inr st'"
  obtains (refused) "to_path next_tok dbg (snd edge) = Inr None" "st' = st"
  | (named) m span t mid where "to_path next_tok dbg (snd edge) = Inr (Some m)"
      "written_span dbg (snd edge) = Inr span" "resolve std fetch m st = Inr (t, mid)"
      "st' = record_target (fst edge) span m t mid"
proof -
  obtain v where v: "to_path next_tok dbg (snd edge) = Inr v"
    using assms by (auto simp: load_edge_def bind_res_Inr)
  show thesis
  proof (cases v)
    case None
    then show thesis using assms v by (intro refused) (simp_all add: load_edge_def)
  next
    case (Some m)
    obtain span where span: "written_span dbg (snd edge) = Inr span"
      using assms v Some by (auto simp: load_edge_def bind_res_Inr)
    moreover obtain t mid where "resolve std fetch m st = Inr (t, mid)" "st' = record_target (fst edge) span m t mid"
      using assms v Some span by (auto simp: load_edge_def bind_res_Inr)
    ultimately show thesis using named v Some by blast
  qed
qed

lemma add_found_slots:
  assumes "add_found m found st = Inr (t, st')"
  shows "slots_ok st st'"
  using assms by (cases rule: add_found_cases) (simp_all add: slots_ok_def)

lemma resolve_slots:
  assumes "resolve std fetch m st = Inr (t, st')"
  shows "slots_ok st st'"
  using assms
proof (cases rule: resolve_cases)
  case (fetched found held)
  then show ?thesis using add_found_slots [OF fetched(4)] by simp
qed (simp_all add: add_found_slots)

lemma record_target_slots [simp]: "slots_ok st (record_target kind span m t mid) = slots_ok st mid"
  by (simp add: record_target_def split: sum.splits option.splits)

lemma load_edge_slots:
  assumes "load_edge next_tok dbg std fetch edge st = Inr st'"
  shows "slots_ok st st'"
  using assms by (cases rule: load_edge_cases) (simp_all add: resolve_slots)

lemma load_edges_slots: "load_edges next_tok dbg std fetch es st = Inr st' \<Longrightarrow> slots_ok st st'"
proof (induction es arbitrary: st)
  case (Cons edge es)
  then obtain mid where "load_edge next_tok dbg std fetch edge st = Inr mid"
    "load_edges next_tok dbg std fetch es mid = Inr st'" by (auto simp: bind_res_Inr)
  then show ?case using load_edge_slots Cons.IH slots_ok_trans by blast
qed simp

lemma bind_run_Inr: "bind_run r f = Some (Inr w) \<longleftrightarrow> (\<exists>v. r = Some (Inr v) \<and> f v = Some (Inr w))"
  by (cases "(r, f)" rule: bind_run.cases) auto

lemma load_file_Inr:
  "load_file next_tok module_parser dbg std fetch f st = Some (Inr (st', m)) \<longleftrightarrow>
     (\<exists>source parse. file_text f (ld_sources st) = Inr source \<and>
        parse_module next_tok module_parser dbg f source = Some (Inr parse) \<and>
        load_edges next_tok dbg std fetch (case pr_value parse of None \<Rightarrow> [] | Some m \<Rightarrow> statement_edges m)
          (st\<lparr>ld_edges := []\<rparr>) = Inr st' \<and>
        m = \<lparr>lm_file = f, lm_ast = pr_value parse, lm_parse_errors = pr_errors parse, lm_edges = ld_edges st'\<rparr>)"
  by (auto simp: load_file_def bind_run_Inr)

lemma load_file_slots:
  assumes "ld_pending st = f # pending"
    "load_file next_tok module_parser dbg std fetch f (st\<lparr>ld_pending := pending\<rparr>) = Some (Inr (st', m))"
  shows "slots_left st' < slots_left st"
proof -
  have "slots_ok (st\<lparr>ld_pending := pending\<rparr>) st'"
    using assms(2) load_edges_slots by (fastforce simp: load_file_Inr)
  then show ?thesis using assms(1) by (auto simp: slots_ok_def slots_left_def)
qed

function load_loop ::
  "lexer \<Rightarrow> Stmt Spanned list grammar \<Rightarrow> bool \<Rightarrow> stdlib \<Rightarrow> 's fetcher \<Rightarrow> 's Loading \<Rightarrow> module_ast list \<Rightarrow>
     ('s Loading \<times> module_ast list) res option" where
  "load_loop next_tok module_parser dbg std fetch st modules =
     (case ld_pending st of
        [] \<Rightarrow> Some (Inr (st, modules))
      | f # pending \<Rightarrow>
          (case load_file next_tok module_parser dbg std fetch f (st\<lparr>ld_pending := pending\<rparr>) of
             None \<Rightarrow> None
           | Some (Inl panic) \<Rightarrow> Some (Inl panic)
           | Some (Inr (st', m)) \<Rightarrow> load_loop next_tok module_parser dbg std fetch st' (modules @ [m])))"
  by pat_completeness auto
termination
  by (relation "measure (\<lambda>(_, _, _, _, _, st, _). slots_left st)") (auto intro: load_file_slots)

declare load_loop.simps [simp del]

subsection \<open>The program\<close>

definition start_loading :: "RootFile \<Rightarrow> 's \<Rightarrow> 's Loading res" where
  "start_loading root held =
     bind_res (case root_module root of
         Some m \<Rightarrow> add_module m (root_path root) (root_text root) SourceMap_default
       | None \<Rightarrow> add_file (root_path root) (root_text root) SourceMap_default) (\<lambda>(root_file, sources).
       Inr \<lparr>ld_sources = sources,
            ld_resolved = (case root_module root of Some m \<Rightarrow> [(m, Inr root_file)] | None \<Rightarrow> []),
            ld_files = held, ld_pending = [root_file], ld_edges = [], ld_errors = []\<rparr>)"

definition link_program :: "SourceMap \<Rightarrow> module_ast list \<Rightarrow> LoadError list \<Rightarrow> LoadedProgram res option" where
  "link_program sources modules errors =
     bind_run (cycles modules sources) (\<lambda>found.
     bind_run (if found = [] then map_option (map_ok Some) (link_order modules sources) else Some (Inr None)) (\<lambda>order.
       Some (Inr \<lparr>lp_sources = sources, lp_modules = modules, lp_link_order = order, lp_errors = errors @ found\<rparr>)))"

definition load_with ::
  "lexer \<Rightarrow> Stmt Spanned list grammar \<Rightarrow> bool \<Rightarrow> 's fetcher \<Rightarrow> RootFile \<Rightarrow> 's \<Rightarrow> stdlib \<Rightarrow>
     (LoadedProgram \<times> 's) res option" where
  "load_with next_tok module_parser dbg fetch root held std =
     bind_run (Some (start_loading root held)) (\<lambda>st.
     bind_run (load_loop next_tok module_parser dbg std fetch st []) (\<lambda>(st, modules).
     bind_run (link_program (ld_sources st) modules (ld_errors st)) (\<lambda>p. Some (Inr (p, ld_files st)))))"

definition STD_MODULES :: stdlib where
  "STD_MODULES = []"

definition LoadedProgram_load ::
  "lexer \<Rightarrow> Stmt Spanned list grammar \<Rightarrow> bool \<Rightarrow> 's fetcher \<Rightarrow> RootFile \<Rightarrow> 's \<Rightarrow> (LoadedProgram \<times> 's) res option" where
  "LoadedProgram_load next_tok module_parser dbg fetch root held =
     load_with next_tok module_parser dbg fetch root held STD_MODULES"

definition from_text ::
  "lexer \<Rightarrow> Stmt Spanned list grammar \<Rightarrow> bool \<Rightarrow> utext \<Rightarrow> utext \<Rightarrow> LoadedProgram res option" where
  "from_text next_tok module_parser dbg path source =
     bind_run (LoadedProgram_load next_tok module_parser dbg InMemory_fetch
         \<lparr>root_path = path, root_module = None, root_text = source\<rparr> []) (\<lambda>(p, _). Some (Inr p))"

definition find_module :: "LoadedProgram \<Rightarrow> FileId \<Rightarrow> module_ast res" where
  "find_module p f = (case find (\<lambda>m. lm_file m = f) (lp_modules p) of Some m \<Rightarrow> Inr m | None \<Rightarrow> Inl Explicit)"

definition program_root :: "LoadedProgram \<Rightarrow> Module option res" where
  "program_root p = map_ok lm_ast (nth_res (lp_modules p) 0)"

definition program_ast :: "LoadedProgram \<Rightarrow> FileId \<Rightarrow> Module option res" where
  "program_ast p f = map_ok lm_ast (find_module p f)"

definition parsed_cleanly :: "LoadedProgram \<Rightarrow> FileId \<Rightarrow> bool res" where
  "parsed_cleanly p f = map_ok (\<lambda>m. lm_parse_errors m = []) (find_module p f)"

text \<open>\<open>find\<close> stops at the first file of the module, so a later file is not looked up.\<close>

fun file_of_loop :: "SourceMap \<Rightarrow> ModulePath \<Rightarrow> FileId list \<Rightarrow> FileId option res" where
  "file_of_loop sources path [] = Inr None"
| "file_of_loop sources path (f # fs) =
     bind_res (file_module f sources) (\<lambda>m. if m = Some path then Inr (Some f) else file_of_loop sources path fs)"

definition file_of :: "LoadedProgram \<Rightarrow> ModulePath \<Rightarrow> FileId option res" where
  "file_of p path = file_of_loop (lp_sources p) path (map lm_file (lp_modules p))"

definition program_edges :: "LoadedProgram \<Rightarrow> FileId \<Rightarrow> (EdgeKind \<times> FileId) list res" where
  "program_edges p f = map_ok (\<lambda>m. map (\<lambda>e. (e_kind e, e_target e)) (lm_edges m)) (find_module p f)"

text \<open>The two kinds of \<open>CompileError\<close> that loading reports; the others are those of later passes.\<close>

datatype CompileError = CE_Parse ParseError | CE_Load LoadError

definition compile_errors :: "LoadedProgram \<Rightarrow> CompileError list" where
  "compile_errors p = map CE_Parse (concat (map lm_parse_errors (lp_modules p))) @ map CE_Load (lp_errors p)"

subsection \<open>What the loop keeps\<close>

abbreviation file_count :: "'s Loading \<Rightarrow> nat" where
  "file_count st \<equiv> length (sm_files (ld_sources st))"

abbreviation module_at :: "SourceMap \<Rightarrow> FileId \<Rightarrow> ModulePath option" where
  "module_at sources f \<equiv> sf_module (sm_files sources ! FileId_index f)"

definition loaded :: "SourceMap \<Rightarrow> FileId \<Rightarrow> ModulePath \<Rightarrow> bool" where
  "loaded sources f m \<longleftrightarrow> FileId_index f < length (sm_files sources) \<and> module_at sources f = Some m"

text \<open>The files taken from the queue and those still in it are the files of the source map, in order; a
  path resolves to a file exactly when the file is the module of that path.\<close>

definition loading_inv :: "'s Loading \<Rightarrow> FileId list \<Rightarrow> bool" where
  "loading_inv st taken \<longleftrightarrow>
     taken @ ld_pending st = map FileId [0..<file_count st] \<and>
     (\<forall>m f. map_of (ld_resolved st) m = Some (Inr f) \<longleftrightarrow> loaded (ld_sources st) f m) \<and>
     (\<forall>e \<in> set (ld_edges st). FileId_index (e_target e) < file_count st)"

definition extends :: "'s Loading \<Rightarrow> 's Loading \<Rightarrow> bool" where
  "extends st st' \<longleftrightarrow>
     (\<exists>new. sm_files (ld_sources st') = sm_files (ld_sources st) @ new) \<and>
     (\<exists>new. ld_errors st' = ld_errors st @ new)"

lemma extends_refl [simp]: "extends st st"
  by (simp add: extends_def)

lemma extends_trans: "extends a b \<Longrightarrow> extends b c \<Longrightarrow> extends a c"
  by (fastforce simp: extends_def)

lemma loaded_extends: "extends st st' \<Longrightarrow> loaded (ld_sources st) f m \<Longrightarrow> loaded (ld_sources st') f m"
  by (auto simp: extends_def loaded_def nth_append)

lemma add_found_inv:
  assumes "loading_inv st taken" "map_of (ld_resolved st) m = None" "add_found m found st = Inr (t, st')"
  shows "loading_inv st' taken \<and> extends st st' \<and> ld_edges st' = ld_edges st \<and> map_of (ld_resolved st') m = Some t"
proof -
  have none: "\<not> loaded (ld_sources st) g m" for g
    using assms(1,2) unfolding loading_inv_def by (metis option.distinct(1))
  from assms(3) show ?thesis
  proof (cases rule: add_found_cases)
    case (missing why)
    then show ?thesis
      using assms(1) none by (auto simp: loading_inv_def extends_def map_of_bt_insert)
  next
    case (added f new)
    have "loaded (ld_sources st') g k \<longleftrightarrow> loaded (ld_sources st) g k \<or> g = new \<and> k = m" for g k
      using added(3,5) by (cases g) (auto simp: loaded_def nth_append less_Suc_eq)
    then have "map_of (ld_resolved st') k = Some (Inr g) \<longleftrightarrow> loaded (ld_sources st') g k" for g k
      using assms(1) none added(5) by (auto simp: loading_inv_def map_of_bt_insert)
    then show ?thesis using assms(1) added by (auto simp: loading_inv_def extends_def map_of_bt_insert)
  qed
qed

lemma loading_inv_files [simp]: "loading_inv (st\<lparr>ld_files := held\<rparr>) taken = loading_inv st taken"
  by (simp add: loading_inv_def)

lemma extends_files [simp]: "extends (st\<lparr>ld_files := held\<rparr>) st' = extends st st'"
  by (simp add: extends_def)

lemma resolve_inv:
  assumes "loading_inv st taken" "resolve std fetch m st = Inr (t, st')"
  shows "loading_inv st' taken \<and> extends st st' \<and> ld_edges st' = ld_edges st \<and> map_of (ld_resolved st') m = Some t"
  using assms(2)
proof (cases rule: resolve_cases)
  case (fetched found held)
  then show ?thesis using add_found_inv [OF _ _ fetched(4), of taken] assms(1) by simp
next
  case (under_std f)
  then show ?thesis using add_found_inv [OF assms(1) under_std(1,4)] by simp
next
  case known
  then show ?thesis using assms(1) by simp
qed

text \<open>A statement that names a module has an edge to the module's file or an error at its path.\<close>

definition accounted ::
  "lexer \<Rightarrow> bool \<Rightarrow> SourceMap \<Rightarrow> Edge list \<Rightarrow> LoadError list \<Rightarrow> EdgeKind \<times> WrittenPath \<Rightarrow> bool" where
  "accounted next_tok dbg sources es errors stmt \<longleftrightarrow>
     (\<forall>m. to_path next_tok dbg (snd stmt) = Inr (Some m) \<longrightarrow>
        (\<exists>span. written_span dbg (snd stmt) = Inr span \<and>
           ((\<exists>t. \<lparr>e_kind = fst stmt, e_span = span, e_target = t\<rparr> \<in> set es \<and> loaded sources t m) \<or>
            (\<exists>why. Missing span m why \<in> set errors) \<or> NoStdModule span m \<in> set errors)))"

lemma accounted_extends:
  assumes "extends st st'" "set es \<subseteq> set es'" "accounted next_tok dbg (ld_sources st) es (ld_errors st) stmt"
  shows "accounted next_tok dbg (ld_sources st') es' (ld_errors st') stmt"
proof -
  have "set (ld_errors st) \<subseteq> set (ld_errors st')" using assms(1) by (auto simp: extends_def)
  then show ?thesis
    using assms(2,3) loaded_extends [OF assms(1)] unfolding accounted_def by (meson subsetD)
qed

lemma load_edge_inv:
  assumes "loading_inv st taken" "load_edge next_tok dbg std fetch stmt st = Inr st'"
  shows "loading_inv st' taken \<and> extends st st' \<and> (\<exists>new. ld_edges st' = ld_edges st @ new) \<and>
    accounted next_tok dbg (ld_sources st') (ld_edges st') (ld_errors st') stmt"
  using assms(2)
proof (cases rule: load_edge_cases)
  case (named m span t mid)
  have mid: "loading_inv mid taken" "extends st mid" "ld_edges mid = ld_edges st" "map_of (ld_resolved mid) m = Some t"
    using resolve_inv [OF assms(1) named(3)] by auto
  show ?thesis
  proof (cases t)
    case (Inl why)
    then show ?thesis
      using mid named(1,2,4)
      by (cases why) (auto simp: record_target_def loading_inv_def extends_def accounted_def)
  next
    case (Inr f)
    then have "loaded (ld_sources mid) f m" using mid(1,4) by (auto simp: loading_inv_def)
    then show ?thesis
      using mid named(1,2,4) Inr by (auto simp: record_target_def loading_inv_def extends_def accounted_def loaded_def)
  qed
qed (use assms in \<open>auto simp: accounted_def\<close>)

lemma load_edges_inv:
  assumes "loading_inv st taken" "load_edges next_tok dbg std fetch stmts st = Inr st'"
  shows "loading_inv st' taken \<and> extends st st' \<and> (\<exists>new. ld_edges st' = ld_edges st @ new) \<and>
    (\<forall>stmt \<in> set stmts. accounted next_tok dbg (ld_sources st') (ld_edges st') (ld_errors st') stmt)"
  using assms
proof (induction stmts arbitrary: st)
  case (Cons stmt stmts)
  then obtain mid where mid: "load_edge next_tok dbg std fetch stmt st = Inr mid"
    "load_edges next_tok dbg std fetch stmts mid = Inr st'" by (auto simp: bind_res_Inr)
  note step = load_edge_inv [OF Cons.prems(1) mid(1)]
  note rest = Cons.IH [OF conjunct1 [OF step] mid(2)]
  have "accounted next_tok dbg (ld_sources st') (ld_edges st') (ld_errors st') stmt"
    by (rule accounted_extends [of mid st' "ld_edges mid"]) (use step rest in auto)
  then show ?case using step rest extends_trans [of st mid st'] by auto
qed simp

definition modules_inv :: "lexer \<Rightarrow> bool \<Rightarrow> 's Loading \<Rightarrow> module_ast list \<Rightarrow> bool" where
  "modules_inv next_tok dbg st modules \<longleftrightarrow>
     (\<forall>m \<in> set modules.
        (\<forall>e \<in> set (lm_edges m). FileId_index (e_target e) < file_count st) \<and>
        (\<forall>a. lm_ast m = Some a \<longrightarrow>
           (\<forall>stmt \<in> set (statement_edges a).
              accounted next_tok dbg (ld_sources st) (lm_edges m) (ld_errors st) stmt)))"

lemma modules_inv_extends:
  assumes "extends st st'" "modules_inv next_tok dbg st modules"
  shows "modules_inv next_tok dbg st' modules"
proof -
  have "file_count st \<le> file_count st'" using assms(1) by (auto simp: extends_def)
  then show ?thesis
    using assms(2) accounted_extends [OF assms(1) subset_refl] unfolding modules_inv_def by (meson less_le_trans)
qed

lemma loading_inv_pop:
  "ld_pending st = f # pending \<Longrightarrow> loading_inv st taken \<Longrightarrow>
     loading_inv (st\<lparr>ld_pending := pending\<rparr>) (taken @ [f])"
  by (simp add: loading_inv_def)

lemma load_file_inv:
  assumes "loading_inv st taken" "load_file next_tok module_parser dbg std fetch f st = Some (Inr (st', m))"
  shows "loading_inv st' taken \<and> extends st st' \<and> lm_file m = f \<and> modules_inv next_tok dbg st' [m]"
proof -
  obtain parse :: "Module ParseResult" where p:
    "load_edges next_tok dbg std fetch (case pr_value parse of None \<Rightarrow> [] | Some m \<Rightarrow> statement_edges m)
       (st\<lparr>ld_edges := []\<rparr>) = Inr st'"
    "m = \<lparr>lm_file = f, lm_ast = pr_value parse, lm_parse_errors = pr_errors parse, lm_edges = ld_edges st'\<rparr>"
    using assms(2) unfolding load_file_Inr by blast
  have "loading_inv (st\<lparr>ld_edges := []\<rparr>) taken" using assms(1) by (simp add: loading_inv_def)
  note run = load_edges_inv [OF this p(1)]
  then have "extends st st'" by (simp add: extends_def)
  moreover have "modules_inv next_tok dbg st' [m]"
    using run by (auto simp: p(2) modules_inv_def loading_inv_def)
  ultimately show ?thesis using run p(2) by simp
qed

lemma load_loop_inv:
  assumes "loading_inv st (map lm_file modules)" "modules_inv next_tok dbg st modules"
    "load_loop next_tok module_parser dbg std fetch st modules = Some (Inr (st', modules'))"
  shows "loading_inv st' (map lm_file modules') \<and> modules_inv next_tok dbg st' modules' \<and> ld_pending st' = []"
  using assms
proof (induction next_tok module_parser dbg std fetch st modules rule: load_loop.induct)
  case (1 next_tok module_parser dbg std fetch st modules)
  show ?case
  proof (cases "ld_pending st")
    case Nil
    then show ?thesis using 1(2-4) by (simp add: load_loop.simps [of _ _ _ _ _ st])
  next
    case (Cons f pending)
    let ?st = "st\<lparr>ld_pending := pending\<rparr>"
    obtain mid m where run: "load_file next_tok module_parser dbg std fetch f ?st = Some (Inr (mid, m))"
      using 1(4) Cons by (auto simp: load_loop.simps [of _ _ _ _ _ st] split: option.splits sum.splits)
    note step = load_file_inv [OF loading_inv_pop [OF Cons 1(2)] run]
    have "modules_inv next_tok dbg mid (modules @ [m])"
      using modules_inv_extends [of ?st mid next_tok dbg modules] 1(3) step by (auto simp: modules_inv_def)
    moreover have "load_loop next_tok module_parser dbg std fetch mid (modules @ [m]) = Some (Inr (st', modules'))"
      using 1(4) Cons run by (simp add: load_loop.simps [of _ _ _ _ _ st])
    ultimately show ?thesis using 1(1) [OF Cons run refl refl] step by simp
  qed
qed

lemma parse_module_total:
  assumes "logos_lexer next_tok"
  shows "\<exists>parse. parse_module next_tok module_parser dbg f source = Some (Inr parse) \<and>
    (\<forall>a. pr_value parse = Some a \<longrightarrow> (\<exists>toks eof. sp_file eof = f \<and> fst (module_parser toks eof) = Some (md_body a)))"
proof -
  obtain lx where lx: "tokenize next_tok dbg f source = Some (Inr lx)"
    using logos_lexer.tokenize_result [OF assms, of f source dbg] by blast
  let ?eof = "Span_new f (str_len source) (str_len source)"
  obtain out errs where run: "module_parser (lx_tokens lx) ?eof = (out, errs)" by fastforce
  let ?r = "\<lparr>pr_value = map_option (\<lambda>body. \<lparr>md_file = f, md_body = body\<rparr>) out,
             pr_errors = lex_then_grammar_errors (lx_errors lx) errs\<rparr>"
  have "parse_module next_tok module_parser dbg f source = Some (Inr ?r)"
    using lx run by (simp add: parse_module_def parse_with_def)
  moreover have "\<exists>toks eof. sp_file eof = f \<and> fst (module_parser toks eof) = Some (md_body a)" if "pr_value ?r = Some a" for a
    using that run by (intro exI [of _ "lx_tokens lx"] exI [of _ ?eof]) auto
  ultimately show ?thesis by blast
qed

subsection \<open>Loading returns\<close>

lemma bind_run_Some: "(\<exists>v. r = Some v) \<Longrightarrow> (\<And>a. r = Some (Inr a) \<Longrightarrow> \<exists>v. f a = Some v) \<Longrightarrow> \<exists>v. bind_run r f = Some v"
  by (cases "(r, f)" rule: bind_run.cases) auto

lemma load_file_returns:
  assumes "logos_lexer next_tok"
  shows "\<exists>r. load_file next_tok module_parser dbg std fetch f st = Some r"
  unfolding load_file_def using parse_module_total [OF assms] by (intro bind_run_Some) blast+

lemma load_loop_returns:
  assumes "logos_lexer next_tok"
  shows "\<exists>r. load_loop next_tok module_parser dbg std fetch st modules = Some r"
  using assms
proof (induction next_tok module_parser dbg std fetch st modules rule: load_loop.induct)
  case (1 next_tok module_parser dbg std fetch st modules)
  show ?case
  proof (cases "ld_pending st")
    case (Cons f pending)
    obtain r where r: "load_file next_tok module_parser dbg std fetch f (st\<lparr>ld_pending := pending\<rparr>) = Some r"
      using load_file_returns [OF 1(2)] by blast
    show ?thesis
    proof (cases r)
      case (Inr b)
      obtain mid m where b: "(mid, m) = b" by (cases b) blast
      show ?thesis using 1(1) [OF Cons r Inr b 1(2)] Cons r Inr b [symmetric] by (simp add: load_loop.simps [of _ _ _ _ _ st])
    qed (simp add: load_loop.simps [of _ _ _ _ _ st] Cons r)
  qed (simp add: load_loop.simps [of _ _ _ _ _ st])
qed

lemma start_loading_ok:
  "\<exists>st. start_loading root held = Inr st \<and> loading_inv st [] \<and> ld_files st = held \<and> file_count st = 1 \<and>
     ld_resolved st = (case root_module root of Some m \<Rightarrow> [(m, Inr (FileId 0))] | None \<Rightarrow> [])"
proof -
  have "FileId_index f < Suc 0 \<longleftrightarrow> f = FileId 0" for f by (cases f) auto
  then show ?thesis
    by (cases "root_module root")
      (auto simp: start_loading_def add_module_def add_file_def push_file_def SourceMap_default_def loading_inv_def loaded_def)
qed

lemma modules_inv_Nil [simp]: "modules_inv next_tok dbg st []"
  by (simp add: modules_inv_def)

text \<open>When the queue is empty every file has been parsed.\<close>

lemma loading_done:
  assumes "loading_inv st (map lm_file modules)" "modules_inv next_tok dbg st modules" "ld_pending st = []"
  shows "map lm_file modules = map FileId [0..<file_count st]" "modules_ok (ld_sources st) modules"
proof -
  show all: "map lm_file modules = map FileId [0..<file_count st]" using assms(1,3) by (simp add: loading_inv_def)
  have idx: "FileId_index f < file_count st \<longleftrightarrow> f \<in> set (map lm_file modules)" for f
    unfolding all by (cases f) auto
  have "distinct (map lm_file modules)" unfolding all by (simp add: distinct_map inj_on_def)
  then show "modules_ok (ld_sources st) modules"
    using assms(2) idx by (auto simp: modules_ok_def modules_inv_def list_all_iff)
qed

text \<open>The errors of loading, then those of the graph; the order when there are none of the latter.\<close>

lemma link_program_ok:
  assumes ok: "modules_ok sources modules"
  shows "\<exists>p. link_program sources modules errors = Some (Inr p) \<and> lp_sources p = sources \<and> lp_modules p = modules \<and>
    set errors \<subseteq> set (lp_errors p) \<and>
    (if acyclic (depends modules)
     then \<exists>order w. lp_link_order p = Some order \<and> link_inv sources modules w [] order \<and> set order = module_files modules
     else lp_link_order p = None \<and> (\<exists>steps. Cycle steps \<in> set (lp_errors p)))"
proof -
  from cycles_ok [OF ok] obtain cs errs where c: "cycles modules sources = Some (Inr errs)"
    "list_all2 (reports_cycle modules sources) cs errs"
    "set (concat cs) = {i. (i, i) \<in> (edges (graph_of modules))\<^sup>+}"
    "\<forall>c \<in> set cs. reported_component modules sources c" by blast
  have "concat cs = [] \<longleftrightarrow> cs = []" using c(4) by (cases cs) (auto simp: reported_component_def)
  then have acyc: "acyclic (depends modules) \<longleftrightarrow> errs = []"
    using acyclic_graph_of [OF ok] c(2,3) by (metis list_all2_Nil list_all2_Nil2 set_empty)
  show ?thesis
  proof (cases "errs = []")
    case True
    then obtain w order where o: "link_order modules sources = Some (Inr order)" "link_inv sources modules w [] order"
      "set order = module_files modules" using link_order_ok [OF ok] acyc by auto
    let ?p = "\<lparr>lp_sources = sources, lp_modules = modules, lp_link_order = Some order, lp_errors = errors\<rparr>"
    have "link_program sources modules errors = Some (Inr ?p)" using True c(1) o(1) by (simp add: link_program_def)
    then show ?thesis using o(2,3) True by (intro exI [of _ ?p]) (simp add: acyc, blast)
  next
    case False
    then obtain err rest where e: "errs = err # rest" by (cases errs) auto
    then obtain steps where "err = Cycle steps" using c(2) by (auto simp: reports_cycle_def list_all2_Cons2)
    then have steps: "Cycle steps \<in> set errs" using e by auto
    let ?p = "\<lparr>lp_sources = sources, lp_modules = modules, lp_link_order = None, lp_errors = errors @ errs\<rparr>"
    have "link_program sources modules errors = Some (Inr ?p)" using False c(1) by (simp add: link_program_def)
    then show ?thesis using steps False by (intro exI [of _ ?p]) (simp add: acyc, blast)
  qed
qed

lemma link_inv_order:
  "link_inv sources modules w ready order \<Longrightarrow>
     distinct order \<and> (\<forall>i < length order. targets modules (order ! i) \<subseteq> set (take i order))"
  by (simp add: link_inv_def)

lemma load_with_returns:
  assumes "logos_lexer next_tok"
  shows "\<exists>r. load_with next_tok module_parser dbg fetch root held std = Some r"
proof -
  obtain st where st: "start_loading root held = Inr st" "loading_inv st []"
    using start_loading_ok [of root held] by blast
  have "\<exists>r. link_program (ld_sources st') modules (ld_errors st') = Some r"
    if "load_loop next_tok module_parser dbg std fetch st [] = Some (Inr (st', modules))" for st' modules
  proof -
    have "loading_inv st (map lm_file [])" "modules_inv next_tok dbg st []" using st(2) by simp_all
    from load_loop_inv [OF this that] have "modules_ok (ld_sources st') modules" using loading_done(2) by blast
    then show ?thesis using link_program_ok by blast
  qed
  then have "\<exists>v. (\<lambda>(st, modules). bind_run (link_program (ld_sources st) modules (ld_errors st))
      (\<lambda>p. Some (Inr (p, ld_files st)))) a = Some v"
    if "load_loop next_tok module_parser dbg std fetch st [] = Some (Inr a)" for a
    using that by (cases a) (auto intro!: bind_run_Some)
  from bind_run_Some [OF load_loop_returns [OF assms] this] show ?thesis by (simp add: load_with_def st(1))
qed

subsection \<open>Files that can be found\<close>

definition written_ok :: "FileId \<Rightarrow> WrittenPath \<Rightarrow> bool" where
  "written_ok f w \<longleftrightarrow> wp_segments w \<noteq> [] \<and> (\<forall>s \<in> set (wp_segments w). sp_file (spn_span s) = f)"

text \<open>What the parser promises of the paths it writes: at least one segment, and spans in the file.\<close>

definition grammar_paths :: "Stmt Spanned list grammar \<Rightarrow> bool" where
  "grammar_paths module_parser \<longleftrightarrow>
     (\<forall>toks eof body. fst (module_parser toks eof) = Some body \<longrightarrow>
        (\<forall>stmt \<in> set (statement_edges \<lparr>md_file = sp_file eof, md_body = body\<rparr>). written_ok (sp_file eof) (snd stmt)))"

text \<open>\<open>provides\<close>: from states that satisfy \<open>I\<close>, which fetching keeps, only paths of \<open>S\<close> have a file.
  \<open>within\<close>: every file but the root is the module of a path of \<open>S\<close>.\<close>

definition provides :: "stdlib \<Rightarrow> 's fetcher \<Rightarrow> ('s \<Rightarrow> bool) \<Rightarrow> ModulePath set \<Rightarrow> bool" where
  "provides std fetch I S \<longleftrightarrow>
     (\<forall>held m found held'. I held \<longrightarrow> fetch held m = (found, held') \<longrightarrow> I held' \<and> (\<forall>f. found = Inr f \<longrightarrow> m \<in> S)) \<and>
     (\<forall>m f. is_std m = Inr True \<longrightarrow> std_file m std = Inr (Some f) \<longrightarrow> m \<in> S)"

definition within :: "('s \<Rightarrow> bool) \<Rightarrow> ModulePath set \<Rightarrow> 's Loading \<Rightarrow> bool" where
  "within I S st \<longleftrightarrow> I (ld_files st) \<and>
     (\<forall>i. 0 < i \<longrightarrow> i < file_count st \<longrightarrow> (\<exists>m \<in> S. module_at (ld_sources st) (FileId i) = Some m))"

lemma within_room:
  assumes inv: "loading_inv st taken" and "within I S st" "finite S" "m \<in> S" "map_of (ld_resolved st) m = None"
  shows "file_count st \<le> card S"
proof -
  define f where "f i = the (module_at (ld_sources st) (FileId i))" for i
  have mod: "module_at (ld_sources st) (FileId i) = Some (f i) \<and> f i \<in> S" if i: "i \<in> {1..<file_count st}" for i
  proof -
    obtain m where "m \<in> S" "module_at (ld_sources st) (FileId i) = Some m"
      using assms(2) i unfolding within_def by (metis atLeastLessThan_iff less_le_trans zero_less_one)
    then show ?thesis by (simp add: f_def)
  qed
  have res: "map_of (ld_resolved st) (f i) = Some (Inr (FileId i))" if "i \<in> {1..<file_count st}" for i
  proof -
    have "loaded (ld_sources st) (FileId i) (f i)" using mod [OF that] that by (simp add: loaded_def)
    then show ?thesis using inv unfolding loading_inv_def by blast
  qed
  have "inj_on f {1..<file_count st}"
  proof (rule inj_onI)
    fix i j assume i: "i \<in> {1..<file_count st}" and j: "j \<in> {1..<file_count st}" and "f i = f j"
    then have "map_of (ld_resolved st) (f i) = Some (Inr (FileId j))" using res [OF j] by metis
    then show "i = j" using res [OF i] by (metis FileId.inject option.inject sum.inject(2))
  qed
  moreover have "f ` {1..<file_count st} \<subseteq> S - {m}"
  proof
    fix x assume "x \<in> f ` {1..<file_count st}"
    then obtain i where i: "i \<in> {1..<file_count st}" "x = f i" by blast
    then have "x \<noteq> m" using res [OF i(1)] assms(5) by (metis option.distinct(1))
    then show "x \<in> S - {m}" using mod [OF i(1)] i(2) by blast
  qed
  ultimately have "card {1..<file_count st} \<le> card (S - {m})" using assms(3) card_inj_on_le by blast
  then have "file_count st - 1 \<le> card S - 1" using assms(3,4) by (simp add: card_Diff_singleton)
  moreover have "0 < card S" using assms(3,4) card_gt_0_iff by blast
  ultimately show ?thesis by linarith
qed

lemma add_found_total:
  assumes "loading_inv st taken" "within I S st" "finite S" "card S < 2 ^ 32" "map_of (ld_resolved st) m = None"
    "\<And>f. found = Inr f \<Longrightarrow> m \<in> S"
  shows "\<exists>t st'. add_found m found st = Inr (t, st') \<and> within I S st'"
proof (cases found)
  case (Inl why)
  then show ?thesis using assms(2) by (simp add: add_found_def within_def)
next
  case (Inr f)
  then have m: "m \<in> S" using assms(6) by blast
  then have "file_count st < 2 ^ 32" using within_room [OF assms(1-3) m assms(5)] assms(4) by simp
  then have "add_found m found st = Inr (Inr (FileId (file_count st)),
      st\<lparr>ld_sources := (ld_sources st)\<lparr>sm_files := sm_files (ld_sources st) @
           [\<lparr>sf_path = mf_path f, sf_module = Some m, sf_text = mf_text f\<rparr>]\<rparr>,
         ld_pending := ld_pending st @ [FileId (file_count st)],
         ld_resolved := bt_insert m (Inr (FileId (file_count st))) (ld_resolved st)\<rparr>)" (is "_ = Inr (_, ?st)")
    by (simp add: add_found_def Inr add_module_def push_file_def)
  moreover have "within I S ?st" using assms(2) m by (auto simp: within_def nth_append less_Suc_eq)
  ultimately show ?thesis by blast
qed

lemma resolve_total:
  assumes "loading_inv st taken" "within I S st" "finite S" "card S < 2 ^ 32" "provides std fetch I S" "segments m \<noteq> []"
  shows "\<exists>t st'. resolve std fetch m st = Inr (t, st') \<and> within I S st'"
proof (cases "map_of (ld_resolved st) m")
  case None
  obtain b where b: "is_std m = Inr b" using assms(6) by (cases "segments m") (simp_all add: is_std_def)
  obtain found held where f: "fetch (ld_files st) m = (found, held)" by fastforce
  show ?thesis
  proof (cases b)
    case True
    obtain g where g: "std_file m std = Inr g"
      using assms(6) by (cases "segments m"; cases "find (\<lambda>(path, _). path = ModulePath_display m) std")
        (auto simp: std_file_def)
    have "m \<in> S" if "(case g of None \<Rightarrow> Inl None | Some f \<Rightarrow> Inr f) = Inr h" for h
      using assms(5) b True g that by (auto simp: provides_def split: option.splits)
    from add_found_total [OF assms(1-4) None this] show ?thesis using None b True g by (simp add: resolve_def)
  next
    case False
    have "m \<in> S" if "(case found of Inl why \<Rightarrow> Inl (Some why) | Inr f \<Rightarrow> Inr f) = Inr h" for h
      using assms(2,5) f that by (auto simp: provides_def within_def split: sum.splits)
    moreover have "I held" using assms(2,5) f by (auto simp: within_def provides_def)
    then have "loading_inv (st\<lparr>ld_files := held\<rparr>) taken" "within I S (st\<lparr>ld_files := held\<rparr>)"
      "map_of (ld_resolved (st\<lparr>ld_files := held\<rparr>)) m = None"
      using assms(1,2) None by (simp_all add: within_def)
    ultimately show ?thesis using add_found_total [of "st\<lparr>ld_files := held\<rparr>" taken I S m] assms(3,4) None b False f
      by (simp add: resolve_def)
  qed
qed (use assms(2) in \<open>simp add: resolve_def\<close>)

lemma to_path_total:
  assumes "written_ok f w"
  shows "\<exists>m. to_path next_tok dbg w = Inr m \<and> (\<forall>p. m = Some p \<longrightarrow> segments p \<noteq> [])"
  using assms by (auto simp: written_ok_def to_path_def ModulePath_new_def list_all_iff)

lemma written_span_total: "written_ok f w \<Longrightarrow> \<exists>span. written_span dbg w = Inr span"
  by (auto simp: written_ok_def written_span_def Span_join_def)

lemma load_edges_total:
  assumes "loading_inv st taken" "within I S st" "finite S" "card S < 2 ^ 32" "provides std fetch I S"
    "\<And>stmt. stmt \<in> set stmts \<Longrightarrow> written_ok f (snd stmt)"
  shows "\<exists>st'. load_edges next_tok dbg std fetch stmts st = Inr st' \<and> within I S st'"
  using assms(1,2,6)
proof (induction stmts arbitrary: st)
  case (Cons stmt stmts)
  have w: "written_ok f (snd stmt)" using Cons.prems(3) by simp
  obtain m where m: "to_path next_tok dbg (snd stmt) = Inr m" "\<forall>p. m = Some p \<longrightarrow> segments p \<noteq> []"
    using to_path_total [OF w] by blast
  obtain span where span: "written_span dbg (snd stmt) = Inr span" using written_span_total [OF w] by blast
  have "\<exists>mid. load_edge next_tok dbg std fetch stmt st = Inr mid \<and> within I S mid"
  proof (cases m)
    case (Some p)
    obtain t mid where "resolve std fetch p st = Inr (t, mid)" "within I S mid"
      using resolve_total [OF Cons.prems(1,2) assms(3-5)] m(2) Some by blast
    then show ?thesis using m(1) span Some
      by (simp add: load_edge_def record_target_def within_def split: sum.splits option.splits)
  qed (use m(1) Cons.prems(2) in \<open>simp add: load_edge_def\<close>)
  then obtain mid where mid: "load_edge next_tok dbg std fetch stmt st = Inr mid" "within I S mid" by blast
  have "loading_inv mid taken" using load_edge_inv [OF Cons.prems(1) mid(1)] by blast
  from Cons.IH [OF this mid(2)] Cons.prems(3) show ?case using mid(1) by simp
qed simp

lemma load_file_total:
  assumes "logos_lexer next_tok" "grammar_paths module_parser" "loading_inv st taken" "FileId_index f < file_count st"
    "within I S st" "finite S" "card S < 2 ^ 32" "provides std fetch I S"
  shows "\<exists>st' m. load_file next_tok module_parser dbg std fetch f st = Some (Inr (st', m)) \<and> within I S st'"
proof -
  obtain source where source: "file_text f (ld_sources st) = Inr source"
    using assms(4) by (auto simp: file_text_def source_file_def)
  obtain parse where parse: "parse_module next_tok module_parser dbg f source = Some (Inr parse)"
    "\<forall>a. pr_value parse = Some a \<longrightarrow> (\<exists>toks eof. sp_file eof = f \<and> fst (module_parser toks eof) = Some (md_body a))"
    using parse_module_total [OF assms(1), of module_parser dbg f source] by blast
  let ?stmts = "case pr_value parse of None \<Rightarrow> [] | Some m \<Rightarrow> statement_edges m"
  have "written_ok f (snd stmt)" if s: "stmt \<in> set ?stmts" for stmt
  proof -
    obtain a where a: "pr_value parse = Some a" "stmt \<in> set (statement_edges a)" using s by (cases "pr_value parse") auto
    obtain toks eof where g: "sp_file eof = f" "fst (module_parser toks eof) = Some (md_body a)" using parse(2) a(1) by blast
    have "statement_edges a = statement_edges \<lparr>md_file = sp_file eof, md_body = md_body a\<rparr>"
      by (simp add: statement_edges_def)
    then show ?thesis using assms(2) g a(2) unfolding grammar_paths_def by metis
  qed
  moreover have "loading_inv (st\<lparr>ld_edges := []\<rparr>) taken" "within I S (st\<lparr>ld_edges := []\<rparr>)"
    using assms(3,5) by (simp_all add: loading_inv_def within_def)
  ultimately obtain st' where "load_edges next_tok dbg std fetch ?stmts (st\<lparr>ld_edges := []\<rparr>) = Inr st'" "within I S st'"
    using load_edges_total [of "st\<lparr>ld_edges := []\<rparr>" taken I S std fetch ?stmts f] assms(6-8) by blast
  then show ?thesis using source parse(1) by (simp add: load_file_def)
qed

lemma load_loop_total:
  assumes "logos_lexer next_tok" "grammar_paths module_parser" "loading_inv st (map lm_file modules)"
    "within I S st" "finite S" "card S < 2 ^ 32" "provides std fetch I S"
  shows "\<exists>r. load_loop next_tok module_parser dbg std fetch st modules = Some (Inr r)"
  using assms
proof (induction next_tok module_parser dbg std fetch st modules rule: load_loop.induct)
  case (1 next_tok module_parser dbg std fetch st modules)
  show ?case
  proof (cases "ld_pending st")
    case (Cons f pending)
    let ?st = "st\<lparr>ld_pending := pending\<rparr>"
    have pop: "loading_inv ?st (map lm_file modules @ [f])" using loading_inv_pop [OF Cons 1(4)] .
    have "f \<in> set (map FileId [0..<file_count st])"
      using 1(4) Cons unfolding loading_inv_def by (metis in_set_conv_decomp)
    then have f: "FileId_index f < file_count ?st" by auto
    have "within I S ?st" using 1(5) by (simp add: within_def)
    from load_file_total [OF 1(2,3) pop f this 1(6-8)] obtain mid m where
      run: "load_file next_tok module_parser dbg std fetch f ?st = Some (Inr (mid, m))" "within I S mid" by blast
    have "loading_inv mid (map lm_file (modules @ [m]))" using load_file_inv [OF pop run(1)] by simp
    from 1(1) [OF Cons run(1) refl refl 1(2,3) this run(2) 1(6-8)] show ?thesis
      using Cons run(1) by (simp add: load_loop.simps [of _ _ _ _ _ st])
  qed (simp add: load_loop.simps [of _ _ _ _ _ st])
qed

subsection \<open>What is asked of the module files\<close>

text \<open>Module files that keep a list of what they were asked for.\<close>

definition logged :: "'s fetcher \<Rightarrow> ('s \<times> ModulePath list) fetcher" where
  "logged fetch held m = (case fetch (fst held) m of (found, rest) \<Rightarrow> (found, (rest, snd held @ [m])))"

definition asked_once :: "('s \<times> ModulePath list) Loading \<Rightarrow> bool" where
  "asked_once st \<longleftrightarrow> distinct (snd (ld_files st)) \<and>
     (\<forall>m \<in> set (snd (ld_files st)). map_of (ld_resolved st) m \<noteq> None \<and> is_std m = Inr False)"

lemma add_found_asked:
  assumes "add_found m found st = Inr (t, st')"
  shows "ld_files st' = ld_files st \<and> map_of (ld_resolved st') = (map_of (ld_resolved st))(m \<mapsto> t)"
  using assms by (cases rule: add_found_cases) (simp_all add: map_of_bt_insert)

lemma resolve_asked:
  assumes "asked_once st" "resolve std (logged fetch) m st = Inr (t, st')"
  shows "asked_once st'"
  using assms(2)
proof (cases rule: resolve_cases)
  case (fetched found held)
  obtain rest where "held = (rest, snd (ld_files st) @ [m])"
    using fetched(3) by (auto simp: logged_def split: prod.splits)
  then show ?thesis using add_found_asked [OF fetched(4)] assms(1) fetched(1,2) by (auto simp: asked_once_def)
next
  case (under_std f)
  then show ?thesis using add_found_asked [OF under_std(4)] assms(1) by (auto simp: asked_once_def)
qed (use assms(1) in simp)

lemma load_edges_asked:
  "asked_once st \<Longrightarrow> load_edges next_tok dbg std (logged fetch) stmts st = Inr st' \<Longrightarrow> asked_once st'"
proof (induction stmts arbitrary: st)
  case (Cons stmt stmts)
  obtain mid where mid: "load_edge next_tok dbg std (logged fetch) stmt st = Inr mid"
    "load_edges next_tok dbg std (logged fetch) stmts mid = Inr st'" using Cons.prems(2) by (auto simp: bind_res_Inr)
  from mid(1) have "asked_once mid"
  proof (cases rule: load_edge_cases)
    case (named m span t new)
    then show ?thesis using resolve_asked [OF Cons.prems(1) named(3)]
      by (simp add: asked_once_def record_target_def split: sum.splits option.splits)
  qed (use Cons.prems(1) in simp)
  then show ?case using Cons.IH mid(2) by blast
qed simp

lemma load_file_asked:
  assumes "asked_once st" "load_file next_tok module_parser dbg std (logged fetch) f st = Some (Inr (st', m))"
  shows "asked_once st'"
proof -
  obtain parse :: "Module ParseResult" where
    "load_edges next_tok dbg std (logged fetch) (case pr_value parse of None \<Rightarrow> [] | Some m \<Rightarrow> statement_edges m)
       (st\<lparr>ld_edges := []\<rparr>) = Inr st'"
    using assms(2) unfolding load_file_Inr by blast
  moreover have "asked_once (st\<lparr>ld_edges := []\<rparr>)" using assms(1) by (simp add: asked_once_def)
  ultimately show ?thesis using load_edges_asked by blast
qed

lemma load_loop_asked:
  assumes "asked_once st" "load_loop next_tok module_parser dbg std (logged fetch) st modules = Some (Inr (st', modules'))"
  shows "asked_once st'"
  using assms
proof (induction next_tok module_parser dbg std "logged fetch" st modules rule: load_loop.induct)
  case (1 next_tok module_parser dbg std st modules)
  show ?case
  proof (cases "ld_pending st")
    case Nil
    then show ?thesis using 1(2,3) by (simp add: load_loop.simps [of _ _ _ _ _ st])
  next
    case (Cons f pending)
    let ?st = "st\<lparr>ld_pending := pending\<rparr>"
    obtain mid m where run: "load_file next_tok module_parser dbg std (logged fetch) f ?st = Some (Inr (mid, m))"
      using 1(3) Cons by (auto simp: load_loop.simps [of _ _ _ _ _ st] split: option.splits sum.splits)
    have "asked_once ?st" using 1(2) by (simp add: asked_once_def)
    then have "asked_once mid" using run by (rule load_file_asked)
    then show ?thesis
      using 1(1) [OF Cons run refl refl] 1(3) Cons run by (simp add: load_loop.simps [of _ _ _ _ _ st])
  qed
qed

lemma load_with_Inr:
  assumes "load_with next_tok module_parser dbg fetch root held std = Some (Inr (p, held'))"
  obtains st st' modules where "start_loading root held = Inr st" "loading_inv st []"
    "load_loop next_tok module_parser dbg std fetch st [] = Some (Inr (st', modules))"
    "link_program (ld_sources st') modules (ld_errors st') = Some (Inr p)" "held' = ld_files st'"
    "map lm_file modules = map FileId [0..<file_count st']" "modules_ok (ld_sources st') modules"
    "modules_inv next_tok dbg st' modules"
proof -
  obtain st where st: "start_loading root held = Inr st" "loading_inv st []"
    using start_loading_ok [of root held] by blast
  obtain st' modules where l: "load_loop next_tok module_parser dbg std fetch st [] = Some (Inr (st', modules))"
    "link_program (ld_sources st') modules (ld_errors st') = Some (Inr p)" "held' = ld_files st'"
    using assms by (auto simp: load_with_def st(1) bind_run_Inr)
  have "loading_inv st (map lm_file [])" "modules_inv next_tok dbg st []" using st(2) by simp_all
  note inv = load_loop_inv [OF this l(1)]
  show thesis
    by (rule that [OF st l(1,2,3) loading_done]) (use inv in \<open>auto\<close>)
qed

lemma load_program_total:
  assumes "logos_lexer next_tok" "grammar_paths module_parser" "finite S" "card S < 2 ^ 32"
    "provides std fetch I S" "I held"
  shows "\<exists>p held'. load_with next_tok module_parser dbg fetch root held std = Some (Inr (p, held'))"
proof -
  obtain st where st: "start_loading root held = Inr st" "loading_inv st []" "file_count st = 1" "ld_files st = held"
    using start_loading_ok [of root held] by blast
  have w: "loading_inv st (map lm_file [])" "within I S st" using st(2-4) assms(6) by (simp_all add: within_def)
  from load_loop_total [OF assms(1,2) w assms(3-5)] obtain st' modules where
    l: "load_loop next_tok module_parser dbg std fetch st [] = Some (Inr (st', modules))" by fastforce
  have "modules_ok (ld_sources st') modules"
    using load_loop_inv [OF w(1) _ l] loading_done(2) by (metis modules_inv_Nil)
  from link_program_ok [OF this, of "ld_errors st'"] show ?thesis
    using st(1) l by (auto simp: load_with_def)
qed

subsection \<open>Properties\<close>



text \<open>C9. When finitely many module paths have a file, fewer than \<open>2\<^sup>3\<^sup>2\<close>, and the parser keeps what it
  promises of the paths it writes, loading returns a program: no assertion, index or unwrapped value of the
  loop, of the search for cycles or of the link order fails.\<close>
theorem load_returns_program:
  assumes "logos_lexer next_tok" "grammar_paths module_parser" "finite S" "card S < 2 ^ 32"
    "provides std fetch I S" "I held"
  shows "\<exists>p held'. load_with next_tok module_parser dbg fetch root held std = Some (Inr (p, held'))"
  using assms by (rule load_program_total)

text \<open>A parser that reads only a line that imports the module \<open>a\<close> or \<open>b\<close>.\<close>

definition import_parser :: "Stmt Spanned list grammar" where
  "import_parser toks eof =
     (case find (\<lambda>n. map fst toks = [T_Import, T_Ident n, T_Newline]) [lit ''a'', lit ''b''] of
        None \<Rightarrow> (Some [], [])
      | Some n \<Rightarrow>
          let s = Span_new (sp_file eof) 7 8
          in (Some [Spanned s (S_Import \<lparr>wp_segments = [Spanned s n]\<rparr> [] None [])], []))"

lemma import_parser_paths: "grammar_paths import_parser"
  unfolding grammar_paths_def import_parser_def
  by (auto simp: statement_edges_def map_filter_simps written_ok_def Let_def split: option.splits simp del: find.simps)

definition sample_files :: InMemory where
  "sample_files = [(ModulePath [lit ''a''], lit ''import b''), (ModulePath [lit ''b''], lit ''import a'')]"

lemma InMemory_provides: "provides [] InMemory_fetch (\<lambda>h. h = held) (fst ` set held)"
  by (auto simp: provides_def InMemory_fetch_def std_file_def split: option.splits dest: map_of_SomeD intro: rev_image_eqI)

theorem load_returns_program_witness:
  "\<exists>p held'. load_with rules_lexer import_parser True InMemory_fetch
     \<lparr>root_path = lit ''main'', root_module = None, root_text = lit ''import a''\<rparr> sample_files [] = Some (Inr (p, held'))"
proof (rule load_returns_program [OF rules.logos_lexer_axioms import_parser_paths _ _ InMemory_provides])
  have "card (fst ` set sample_files) \<le> length sample_files" by (metis card_length length_map set_map)
  also have "\<dots> < 2 ^ 32" by (simp add: sample_files_def)
  finally show "card (fst ` set sample_files) < 2 ^ 32" .
qed simp_all

text \<open>C10. Loading asks the module files for each module path at most once, and never for a std path: the
  contract that \<open>ModuleFiles::fetch\<close> is documented to be called under.\<close>
theorem load_fetches_once:
  assumes "load_with next_tok module_parser dbg (logged fetch) root (held, []) std = Some (Inr (p, held', asked))"
  shows "distinct asked \<and> (\<forall>m \<in> set asked. is_std m = Inr False)"
  using assms
proof (rule load_with_Inr)
  fix st st' modules
  assume st: "start_loading root (held, []) = Inr st"
    and l: "load_loop next_tok module_parser dbg std (logged fetch) st [] = Some (Inr (st', modules))"
    and held: "(held', asked) = ld_files st'"
  have "ld_files st = (held, [])"
    using start_loading_ok [of root "(held, [] :: ModulePath list)"] st by auto
  then have "asked_once st" by (simp add: asked_once_def)
  then have "asked_once st'" using l by (rule load_loop_asked)
  then show ?thesis using held [symmetric] by (simp add: asked_once_def)
qed

text \<open>C7. A program that was loaded holds one module per file of its source map, the root first. Each of
  its statements that names a module has an edge to the file of that module, or an error at the path it
  writes. When the module graph has no cycle the link order lists every module once, each after every
  module it has an edge to; when it has one there is no link order and an error reports a cycle.\<close>
theorem load_links:
  assumes "load_with next_tok module_parser dbg fetch root held std = Some (Inr (p, held'))"
  shows "map lm_file (lp_modules p) = map FileId [0..<length (sm_files (lp_sources p))] \<and>
    (\<forall>m a. m \<in> set (lp_modules p) \<and> lm_ast m = Some a \<longrightarrow>
       list_all (accounted next_tok dbg (lp_sources p) (lm_edges m) (lp_errors p)) (statement_edges a)) \<and>
    (if acyclic (depends (lp_modules p))
     then \<exists>order. lp_link_order p = Some order \<and> distinct order \<and> set order = lm_file ` set (lp_modules p) \<and>
       (\<forall>i < length order. targets (lp_modules p) (order ! i) \<subseteq> set (take i order))
     else lp_link_order p = None \<and> (\<exists>steps. Cycle steps \<in> set (lp_errors p)))"
  using assms
proof (rule load_with_Inr)
  fix st st' modules
  assume l: "link_program (ld_sources st') modules (ld_errors st') = Some (Inr p)"
    and all: "map lm_file modules = map FileId [0..<file_count st']" and ok: "modules_ok (ld_sources st') modules"
    and inv: "modules_inv next_tok dbg st' modules"
  from link_program_ok [OF ok, of "ld_errors st'"] l have p: "lp_sources p = ld_sources st'" "lp_modules p = modules"
    "set (ld_errors st') \<subseteq> set (lp_errors p)"
    "if acyclic (depends modules)
     then \<exists>order w. lp_link_order p = Some order \<and> link_inv (ld_sources st') modules w [] order \<and> set order = module_files modules
     else lp_link_order p = None \<and> (\<exists>steps. Cycle steps \<in> set (lp_errors p))" by auto
  have "accounted next_tok dbg (lp_sources p) (lm_edges m) (lp_errors p) stmt"
    if "m \<in> set modules" "lm_ast m = Some a" "stmt \<in> set (statement_edges a)" for m a stmt
  proof -
    have "accounted next_tok dbg (lp_sources p) (lm_edges m) (ld_errors st') stmt"
      using inv that unfolding modules_inv_def p(1) by blast
    then show ?thesis using p(3) unfolding accounted_def by (meson subsetD)
  qed
  moreover have "\<exists>order. lp_link_order p = Some order \<and> distinct order \<and> set order = lm_file ` set modules \<and>
       (\<forall>i < length order. targets modules (order ! i) \<subseteq> set (take i order))" if acyc: "acyclic (depends modules)"
  proof -
    obtain order w where "lp_link_order p = Some order" "link_inv (ld_sources st') modules w [] order"
      "set order = module_files modules" using p(4) acyc by auto
    then show ?thesis using link_inv_order [of "ld_sources st'" modules w "[]" order]
      by (intro exI [of _ order]) (simp add: module_files_def)
  qed
  ultimately show ?thesis unfolding p(1,2) list_all_iff using all p(4) by (auto split del: if_split split: if_splits)
qed

definition sample_root :: RootFile where
  "sample_root = \<lparr>root_path = lit ''main'', root_module = None, root_text = lit ''import a''\<rparr>"

lemma sample_files_card: "card (fst ` set sample_files) < 2 ^ 32"
proof -
  have "card (fst ` set sample_files) \<le> length sample_files" by (metis card_length length_map set_map)
  also have "\<dots> < 2 ^ 32" by (simp add: sample_files_def)
  finally show ?thesis .
qed

lemma logged_provides:
  assumes "provides std fetch I S"
  shows "provides std (logged fetch) (\<lambda>h. I (fst h)) S"
proof -
  have "I (fst held') \<and> (\<forall>f. found = Inr f \<longrightarrow> m \<in> S)"
    if "I (fst held)" "logged fetch held m = (found, held')" for held m found held'
  proof -
    obtain found0 rest where "fetch (fst held) m = (found0, rest)" by fastforce
    moreover from this have "found = found0" "fst held' = rest" using that(2) by (auto simp: logged_def)
    ultimately show ?thesis using assms that(1) unfolding provides_def by blast
  qed
  then show ?thesis using assms unfolding provides_def by blast
qed

lemma sample_loaded:
  assumes "provides [] fetch I (fst ` set sample_files)" "I held"
  shows "\<exists>p held'. load_with rules_lexer import_parser True fetch sample_root held [] = Some (Inr (p, held'))"
  by (rule load_program_total [OF rules.logos_lexer_axioms import_parser_paths _ sample_files_card assms]) simp

theorem load_fetches_once_witness:
  "\<exists>p held asked. load_with rules_lexer import_parser True (logged InMemory_fetch) sample_root (sample_files, []) [] =
     Some (Inr (p, held, asked)) \<and> distinct asked \<and> (\<forall>m \<in> set asked. is_std m = Inr False)"
proof -
  obtain p held' where l: "load_with rules_lexer import_parser True (logged InMemory_fetch) sample_root (sample_files, []) [] =
     Some (Inr (p, held'))"
    using sample_loaded [OF logged_provides [OF InMemory_provides [of sample_files]], of "(sample_files, [])"] by auto
  then show ?thesis
    using load_fetches_once [of rules_lexer import_parser True InMemory_fetch sample_root sample_files "[]" p "fst held'" "snd held'"]
    by (cases held') auto
qed

theorem load_links_witness:
  "\<exists>p held'. load_with rules_lexer import_parser True InMemory_fetch sample_root sample_files [] = Some (Inr (p, held')) \<and>
     map lm_file (lp_modules p) = map FileId [0..<length (sm_files (lp_sources p))]"
proof -
  obtain p held' where l: "load_with rules_lexer import_parser True InMemory_fetch sample_root sample_files [] =
     Some (Inr (p, held'))"
    using sample_loaded [OF InMemory_provides [of sample_files], of sample_files] by auto
  then show ?thesis using load_links [OF l] by blast
qed

end
