(* ===== verification/Lsp_Document.thy ===== *)
theory Lsp_Document
  imports Parse_Errors Line_Index Layout_Order
begin

section \<open>An open document\<close>

text \<open>
  \<open>cambra-lsp/src/document.rs\<close>: the text of a document as the editor holds it, its line table, and
  the parse and the tokens of the text, each made the first time it is asked for and dropped when
  the text changes. A method that may fill one of the two cells is a \<open>reading\<close>: it takes the document
  and returns it with the cells it has filled. Protocol positions are 32-bit. The record \<open>Front\<close> holds
  what is not the server's own code: the generated lexer, the grammar, the debug format of a
  protocol range, and whether debug assertions are compiled in.
\<close>

subsection \<open>Protocol data\<close>

type_synonym u32 = "32 word"

text \<open>\<open>u32::try_from(n).unwrap_or(u32::MAX)\<close>.\<close>

definition to_u32 :: "nat \<Rightarrow> u32" where
  "to_u32 n = (if n < 2 ^ 32 then of_nat n else - 1)"

record Position =
  pos_line :: u32
  pos_character :: u32

record PosRange =
  rng_start :: Position
  rng_end :: Position

datatype ContentChange = ChangeWhole utext | ChangePartial PosRange utext

record Front =
  fr_next_tok :: lexer
  fr_grammar :: "Stmt Spanned list grammar"
  fr_range_debug :: "PosRange \<Rightarrow> utext"
  fr_dbg :: bool

subsection \<open>The document\<close>

record Document =
  doc_text :: utext
  doc_version :: "32 word"
  doc_index :: LineIndex
  doc_encoding :: Encoding
  doc_parse :: "Module ParseResult option"
  doc_lexed :: "(Token \<times> Span) list option"

definition Document_new :: "utext \<Rightarrow> 32 word \<Rightarrow> Encoding \<Rightarrow> Document" where
  "Document_new t version encoding =
     \<lparr>doc_text = t, doc_version = version, doc_index = LineIndex_new t, doc_encoding = encoding,
      doc_parse = None, doc_lexed = None\<rparr>"

type_synonym 'a reading = "Document \<Rightarrow> ('a \<times> Document) res option"

definition doc_return :: "'a \<Rightarrow> 'a reading" where
  "doc_return a = (\<lambda>d. Some (Inr (a, d)))"

definition doc_bind :: "'a reading \<Rightarrow> ('a \<Rightarrow> 'b reading) \<Rightarrow> 'b reading" where
  "doc_bind m f = (\<lambda>d. bind_run (m d) (\<lambda>(a, d). f a d))"

text \<open>A part that only reads the document.\<close>

definition doc_res :: "(Document \<Rightarrow> 'a res) \<Rightarrow> 'a reading" where
  "doc_res f = (\<lambda>d. Some (map_ok (\<lambda>a. (a, d)) (f d)))"

text \<open>A loop over a list.\<close>

fun doc_fold :: "('a \<Rightarrow> 'b \<Rightarrow> 'b reading) \<Rightarrow> 'a list \<Rightarrow> 'b \<Rightarrow> 'b reading" where
  "doc_fold f [] b = doc_return b"
| "doc_fold f (x # xs) b = doc_bind (f x b) (doc_fold f xs)"

definition Document_parsed :: "Front \<Rightarrow> Module ParseResult reading" where
  "Document_parsed fe d =
     (case doc_parse d of
        Some r \<Rightarrow> Some (Inr (r, d))
      | None \<Rightarrow>
          bind_run (parse_module (fr_next_tok fe) (fr_grammar fe) (fr_dbg fe) FileId_ROOT (doc_text d))
            (\<lambda>r. Some (Inr (r, d\<lparr>doc_parse := Some r\<rparr>))))"

definition Document_tokens :: "Front \<Rightarrow> (Token \<times> Span) list reading" where
  "Document_tokens fe d =
     (case doc_lexed d of
        Some ts \<Rightarrow> Some (Inr (ts, d))
      | None \<Rightarrow>
          bind_run (tokenize (fr_next_tok fe) (fr_dbg fe) FileId_ROOT (doc_text d))
            (\<lambda>lx. Some (Inr (lx_tokens lx, d\<lparr>doc_lexed := Some (lx_tokens lx)\<rparr>))))"

definition is_layout :: "Token \<Rightarrow> bool" where
  "is_layout tok \<longleftrightarrow> tok \<in> {T_Newline, T_Indent, T_Dedent, T_BlockValueIndent, T_BlockValueDedent}"

text \<open>\<open>char::is_whitespace\<close>, the Unicode property \<open>White_Space\<close>, and the trims of \<open>str\<close>.\<close>

definition is_whitespace :: "uchar \<Rightarrow> bool" where
  "is_whitespace c \<longleftrightarrow>
     9 \<le> c \<and> c \<le> 13 \<or> c = 32 \<or> c = 0x85 \<or> c = 0xA0 \<or> c = 0x1680 \<or> 0x2000 \<le> c \<and> c \<le> 0x200A \<or>
     c = 0x2028 \<or> c = 0x2029 \<or> c = 0x202F \<or> c = 0x205F \<or> c = 0x3000"

definition str_trim_start :: "utext \<Rightarrow> utext" where
  "str_trim_start t = dropWhile is_whitespace t"

definition str_trim_end :: "utext \<Rightarrow> utext" where
  "str_trim_end t = rev (dropWhile is_whitespace (rev t))"

definition str_trim :: "utext \<Rightarrow> utext" where
  "str_trim t = str_trim_end (str_trim_start t)"

text \<open>The last token inside \<open>span\<close> that is not a layout token.\<close>

definition last_content :: "Span \<Rightarrow> (Token \<times> Span) list \<Rightarrow> (Token \<times> Span) option" where
  "last_content span tokens =
     (let past = partition_point (\<lambda>(_, t). sp_start t < sp_end span) tokens in
      find (\<lambda>(tok, _). \<not> is_layout tok)
        (takeWhile (\<lambda>(_, t). sp_start span \<le> sp_start t) (rev (take past tokens))))"

definition content_end :: "Front \<Rightarrow> Span \<Rightarrow> nat reading" where
  "content_end fe span =
     doc_bind (Document_tokens fe) (\<lambda>tokens. doc_res (\<lambda>d.
       case last_content span tokens of
         None \<Rightarrow> Inr (sp_start span)
       | Some (_, lst) \<Rightarrow>
           bind_res (line_col (doc_index d) (sp_end lst)) (\<lambda>lc.
           bind_res (line_range (doc_index d) (lc_line lc)) (\<lambda>r.
             case r of
               None \<Rightarrow> Inl ExpectFailed
             | Some (_, fin) \<Rightarrow>
                 let line_end = min fin (sp_end span) in
                 map_ok (\<lambda>rest. sp_end lst + str_len (str_trim_end (takeWhile (\<lambda>c. c \<noteq> 35) rest)))
                   (str_slice (doc_text d) (sp_end lst) (max line_end (sp_end lst)))))))"

subsection \<open>Positions and edits\<close>

definition Document_offset :: "Front \<Rightarrow> Document \<Rightarrow> Position \<Rightarrow> nat res" where
  "Document_offset fe d pos =
     offset_in (fr_dbg fe) (doc_index d) (doc_text d)
       \<lparr>lc_line = unat (pos_line pos), lc_col = unat (pos_character pos)\<rparr> (doc_encoding d)"

definition Document_position :: "Document \<Rightarrow> nat \<Rightarrow> Position res" where
  "Document_position d off =
     map_ok (\<lambda>lc. \<lparr>pos_line = to_u32 (lc_line lc), pos_character = to_u32 (lc_col lc)\<rparr>)
       (line_col_in (doc_index d) (doc_text d) off (doc_encoding d))"

definition Document_range :: "Document \<Rightarrow> Span \<Rightarrow> PosRange res" where
  "Document_range d span =
     bind_res (Document_position d (sp_start span)) (\<lambda>a.
       map_ok (\<lambda>b. \<lparr>rng_start = a, rng_end = b\<rparr>) (Document_position d (sp_end span)))"

definition Document_line :: "Document \<Rightarrow> nat \<Rightarrow> u32 res" where
  "Document_line d off = map_ok (\<lambda>lc. to_u32 (lc_line lc)) (line_col (doc_index d) off)"

text \<open>\<open>String::replace_range\<close> panics off a boundary and on a range past the end.\<close>

definition replace_range :: "utext \<Rightarrow> nat \<Rightarrow> nat \<Rightarrow> utext \<Rightarrow> utext res" where
  "replace_range t a b new =
     bind_res (str_slice t a b) (\<lambda>_.
     bind_res (str_slice t 0 a) (\<lambda>before.
     map_ok (\<lambda>after. before @ new @ after) (str_slice t b (str_len t))))"

definition set_text :: "utext \<Rightarrow> Document \<Rightarrow> Document" where
  "set_text t d = d\<lparr>doc_text := t, doc_index := LineIndex_new t, doc_parse := None, doc_lexed := None\<rparr>"

definition Document_apply :: "Front \<Rightarrow> ContentChange \<Rightarrow> Document \<Rightarrow> ((utext + unit) \<times> Document) res" where
  "Document_apply fe change d =
     (case change of
        ChangeWhole t \<Rightarrow> Inr (Inr (), set_text t d)
      | ChangePartial r t \<Rightarrow>
          bind_res (Document_offset fe d (rng_start r)) (\<lambda>a.
          bind_res (Document_offset fe d (rng_end r)) (\<lambda>b.
            if b < a
            then Inr (Inl (lit ''the edit'' @ [39] @ lit ''s range '' @ fr_range_debug fe r @ lit '' is reversed''), d)
            else map_ok (\<lambda>t. (Inr (), set_text t d)) (replace_range (doc_text d) a b t))))"

definition set_version :: "32 word \<Rightarrow> Document \<Rightarrow> Document" where
  "set_version version d = d\<lparr>doc_version := version\<rparr>"

subsection \<open>What holds of a document\<close>

text \<open>
  The line table is that of the text, and a filled cell holds what lexing or parsing the text gives.
  \<open>reads\<close> is the contract of a reading on the documents that differ from \<open>d\<close> only in their cells: it
  returns, it leaves such a document, and its result satisfies \<open>Q\<close>.
\<close>

definition doc_ok :: "Front \<Rightarrow> Document \<Rightarrow> bool" where
  "doc_ok fe d \<longleftrightarrow>
     doc_index d = LineIndex_new (doc_text d) \<and>
     (\<forall>r \<in> set_option (doc_parse d).
        parse_module (fr_next_tok fe) (fr_grammar fe) (fr_dbg fe) FileId_ROOT (doc_text d) = Some (Inr r)) \<and>
     (\<forall>ts \<in> set_option (doc_lexed d). \<exists>lx.
        tokenize (fr_next_tok fe) (fr_dbg fe) FileId_ROOT (doc_text d) = Some (Inr lx) \<and> ts = lx_tokens lx)"

definition same_doc :: "Document \<Rightarrow> Document \<Rightarrow> bool" where
  "same_doc d d' \<longleftrightarrow>
     doc_text d' = doc_text d \<and> doc_version d' = doc_version d \<and> doc_index d' = doc_index d \<and>
     doc_encoding d' = doc_encoding d"

definition reads :: "Front \<Rightarrow> Document \<Rightarrow> 'a reading \<Rightarrow> ('a \<Rightarrow> bool) \<Rightarrow> bool" where
  "reads fe d0 m Q \<longleftrightarrow>
     (\<forall>d. doc_ok fe d \<longrightarrow> same_doc d0 d \<longrightarrow>
        (\<exists>a d'. m d = Some (Inr (a, d')) \<and> doc_ok fe d' \<and> same_doc d0 d' \<and> Q a))"

lemma readsD:
  "reads fe d m Q \<Longrightarrow> doc_ok fe d \<Longrightarrow> \<exists>a d'. m d = Some (Inr (a, d')) \<and> doc_ok fe d' \<and> same_doc d d' \<and> Q a"
  by (simp add: reads_def same_doc_def)

lemma reads_mono: "reads fe d m Q \<Longrightarrow> (\<And>a. Q a \<Longrightarrow> R a) \<Longrightarrow> reads fe d m R"
  unfolding reads_def by meson

lemma reads_return: "Q a \<Longrightarrow> reads fe d (doc_return a) Q"
  by (simp add: reads_def doc_return_def)

lemma reads_bind:
  assumes "reads fe d m Q" "\<And>a. Q a \<Longrightarrow> reads fe d (f a) R"
  shows "reads fe d (doc_bind m f) R"
  unfolding reads_def doc_bind_def
proof (intro allI impI)
  fix d1 assume "doc_ok fe d1" "same_doc d d1"
  then obtain a d2 where "m d1 = Some (Inr (a, d2))" "doc_ok fe d2" "same_doc d d2" "Q a"
    using assms(1) unfolding reads_def by blast
  with assms(2) [of a] show "\<exists>a d'. bind_run (m d1) (\<lambda>(a, d). f a d) = Some (Inr (a, d')) \<and>
      doc_ok fe d' \<and> same_doc d d' \<and> R a"
    by (simp add: reads_def)
qed

lemma reads_res:
  assumes "\<And>d'. doc_ok fe d' \<Longrightarrow> same_doc d d' \<Longrightarrow> \<exists>a. f d' = Inr a \<and> Q a"
  shows "reads fe d (doc_res f) Q"
  unfolding reads_def doc_res_def
proof (intro allI impI)
  fix d' assume d': "doc_ok fe d'" "same_doc d d'"
  from assms [OF this] obtain a where "f d' = Inr a" "Q a" by blast
  with d' show "\<exists>a d''. Some (map_ok (\<lambda>a. (a, d')) (f d')) = Some (Inr (a, d'')) \<and>
      doc_ok fe d'' \<and> same_doc d d'' \<and> Q a"
    by simp
qed

lemma reads_fold:
  assumes "\<And>x b. x \<in> set xs \<Longrightarrow> Q b \<Longrightarrow> reads fe d (f x b) Q" "Q b"
  shows "reads fe d (doc_fold f xs b) Q"
  using assms
proof (induction xs arbitrary: b)
  case (Cons x xs)
  then show ?case by (auto intro: reads_bind)
qed (simp add: reads_return)

lemma doc_fold_cong [fundef_cong]:
  "xs = ys \<Longrightarrow> b = c \<Longrightarrow> (\<And>x b. x \<in> set ys \<Longrightarrow> f x b = g x b) \<Longrightarrow> doc_fold f xs b = doc_fold g ys c"
proof (induction ys arbitrary: xs b c)
  case (Cons y ys)
  have "doc_fold f ys = doc_fold g ys" using Cons by (intro ext) auto
  with Cons show ?case by auto
qed simp

subsection \<open>Lexing and parsing\<close>

definition lexed_as :: "Front \<Rightarrow> Document \<Rightarrow> Lexed \<Rightarrow> bool" where
  "lexed_as fe d lx \<longleftrightarrow> tokenize (fr_next_tok fe) (fr_dbg fe) FileId_ROOT (doc_text d) = Some (Inr lx)"

definition parsed_as :: "Front \<Rightarrow> Document \<Rightarrow> Module ParseResult \<Rightarrow> bool" where
  "parsed_as fe d r \<longleftrightarrow>
     parse_module (fr_next_tok fe) (fr_grammar fe) (fr_dbg fe) FileId_ROOT (doc_text d) = Some (Inr r)"

lemma lexes: "logos_lexer (fr_next_tok fe) \<Longrightarrow> \<exists>lx. lexed_as fe d lx"
  using logos_lexer.tokenize_result [of "fr_next_tok fe" FileId_ROOT "doc_text d" "fr_dbg fe"]
  by (auto simp: lexed_as_def)

lemma parses:
  assumes "logos_lexer (fr_next_tok fe)"
  shows "\<exists>r. parsed_as fe d r"
  using lexes [OF assms, of d]
  by (auto simp: lexed_as_def parsed_as_def parse_module_def parse_with_def split: prod.splits)

lemma reads_tokens:
  assumes "logos_lexer (fr_next_tok fe)"
  shows "reads fe d (Document_tokens fe) (\<lambda>ts. \<exists>lx. lexed_as fe d lx \<and> ts = lx_tokens lx)"
  unfolding reads_def
proof (intro allI impI)
  fix d' assume d': "doc_ok fe d'" "same_doc d d'"
  have eq: "lexed_as fe d' = lexed_as fe d" using d'(2) by (intro ext) (simp add: lexed_as_def same_doc_def)
  show "\<exists>a d''. Document_tokens fe d' = Some (Inr (a, d'')) \<and> doc_ok fe d'' \<and> same_doc d d'' \<and>
      (\<exists>lx. lexed_as fe d lx \<and> a = lx_tokens lx)"
  proof (cases "doc_lexed d'")
    case None
    obtain lx where lx: "lexed_as fe d' lx" using lexes [OF assms] by blast
    then have "Document_tokens fe d' = Some (Inr (lx_tokens lx, d'\<lparr>doc_lexed := Some (lx_tokens lx)\<rparr>))"
      by (simp add: Document_tokens_def None lexed_as_def)
    moreover have "doc_ok fe (d'\<lparr>doc_lexed := Some (lx_tokens lx)\<rparr>)"
      using d'(1) lx by (simp add: doc_ok_def lexed_as_def)
    ultimately show ?thesis using d'(2) lx eq by (auto simp: same_doc_def)
  next
    case (Some ts)
    then obtain lx where "lexed_as fe d' lx" "ts = lx_tokens lx" using d'(1) by (auto simp: doc_ok_def lexed_as_def)
    then show ?thesis using Some d' eq by (auto simp: Document_tokens_def)
  qed
qed

lemma reads_parsed:
  assumes "logos_lexer (fr_next_tok fe)"
  shows "reads fe d (Document_parsed fe) (parsed_as fe d)"
  unfolding reads_def
proof (intro allI impI)
  fix d' assume d': "doc_ok fe d'" "same_doc d d'"
  have eq: "parsed_as fe d' = parsed_as fe d" using d'(2) by (intro ext) (simp add: parsed_as_def same_doc_def)
  show "\<exists>r d''. Document_parsed fe d' = Some (Inr (r, d'')) \<and> doc_ok fe d'' \<and> same_doc d d'' \<and> parsed_as fe d r"
  proof (cases "doc_parse d'")
    case None
    obtain r where r: "parsed_as fe d' r" using parses [OF assms] by blast
    then have "Document_parsed fe d' = Some (Inr (r, d'\<lparr>doc_parse := Some r\<rparr>))"
      by (simp add: Document_parsed_def None parsed_as_def)
    moreover have "doc_ok fe (d'\<lparr>doc_parse := Some r\<rparr>)" using d'(1) r by (simp add: doc_ok_def parsed_as_def)
    ultimately show ?thesis using d'(2) r eq by (auto simp: same_doc_def)
  next
    case (Some r)
    then have "parsed_as fe d' r" using d'(1) by (simp add: doc_ok_def parsed_as_def)
    then show ?thesis using Some d' eq by (auto simp: Document_parsed_def)
  qed
qed

lemma lexed_tokens:
  assumes "logos_lexer (fr_next_tok fe)" "lexed_as fe d lx"
  shows "list_all (\<lambda>t. text_span (doc_text d) (snd t)) (lx_tokens lx)" "sorted (token_starts (lx_tokens lx))"
    "list_all (error_in_text (doc_text d)) (lx_errors lx)"
  using logos_lexer.tokenize_in_text [OF assms(1)] assms(2) unfolding lexed_as_def by blast+

subsection \<open>Positions in range\<close>

lemma trim_end_prefix: "prefix (str_trim_end t) t"
proof -
  have "t = str_trim_end t @ rev (takeWhile is_whitespace (rev t))"
    by (metis rev_append rev_rev_ident str_trim_end_def takeWhile_dropWhile_id)
  then show ?thesis by (metis prefixI)
qed

lemma boundary_in_slice:
  assumes "str_slice t a b = Inr r" "prefix p r"
  shows "is_char_boundary t (a + str_len p)"
proof -
  obtain s u q where "t = s @ r @ u" "a = str_len s" "r = p @ q"
    using assms by (auto simp: str_slice_Inr prefix_def)
  then have "t = (s @ p) @ q @ u" "a + str_len p = str_len (s @ p)" by simp_all
  then show ?thesis using is_char_boundary_prefix by metis
qed

lemma str_slice_ok:
  "is_char_boundary t a \<Longrightarrow> is_char_boundary t b \<Longrightarrow> a \<le> b \<Longrightarrow> \<exists>r. str_slice t a b = Inr r"
  by (auto simp: str_slice_def is_char_boundary_def)

lemma boundary_le: "is_char_boundary t a \<Longrightarrow> a \<le> str_len t"
  by (auto simp: is_char_boundary_def)

lemma line_range_new:
  "l < line_count (LineIndex_new t) \<Longrightarrow>
     line_range (LineIndex_new t) l = Inr (Some (li_starts (LineIndex_new t) ! l, li_ends (LineIndex_new t) ! l))"
  by (simp add: line_range_def line_count_def new_index.ends_length)

lemma Document_line_total:
  assumes "doc_ok fe d" "off \<le> str_len (doc_text d)"
  shows "\<exists>l < line_count (doc_index d). Document_line d off = Inr (to_u32 l)"
  using new_index.line_col_total [OF assms(2)] assms(1) by (auto simp: Document_line_def doc_ok_def)

lemma line_col_in_total:
  assumes "is_char_boundary t off"
  shows "\<exists>p. line_col_in (LineIndex_new t) t off enc = Inr p"
proof -
  let ?ix = "LineIndex_new t"
  obtain l where l: "l < length (li_starts ?ix)" "li_starts ?ix ! l \<le> off"
    "Suc l < length (li_starts ?ix) \<longrightarrow> off < li_starts ?ix ! Suc l"
    using new_index.line_exists [OF boundary_le [OF assms]] by blast
  have lc: "line_col ?ix off = Inr \<lparr>lc_line = l, lc_col = min off (li_ends ?ix ! l) - li_starts ?ix ! l\<rparr>"
    using new_index.line_col_at [OF l(1,2) boundary_le [OF assms]] l(3) by blast
  have le: "li_starts ?ix ! l \<le> min off (li_ends ?ix ! l)" using l new_index.start_le_end by simp
  have "is_char_boundary t (min off (li_ends ?ix ! l))"
    using assms new_index.end_boundary [OF l(1)] by (simp add: min_def)
  from str_slice_ok [OF new_index.start_boundary [OF l(1)] this le] obtain r
    where "str_slice t (li_starts ?ix ! l) (min off (li_ends ?ix ! l)) = Inr r" by blast
  with lc le assms show ?thesis by (cases enc) (auto simp: line_col_in_def Let_def)
qed

lemma Document_position_total:
  "doc_ok fe d \<Longrightarrow> is_char_boundary (doc_text d) off \<Longrightarrow> \<exists>p. Document_position d off = Inr p"
  using line_col_in_total [of "doc_text d" off "doc_encoding d"] by (auto simp: Document_position_def doc_ok_def)

lemma Document_range_total:
  assumes "doc_ok fe d" "text_span (doc_text d) span"
  shows "\<exists>r. Document_range d span = Inr r"
  using Document_position_total [OF assms(1), of "sp_start span"]
    Document_position_total [OF assms(1), of "sp_end span"] assms(2)
  by (auto simp: Document_range_def text_span_def)

lemma last_content_Some:
  assumes "last_content span tokens = Some t"
  shows "t \<in> set tokens" "sp_start span \<le> sp_start (snd t)" "\<not> is_layout (fst t)"
proof -
  let ?before = "take (partition_point (\<lambda>(_, t). sp_start t < sp_end span) tokens) tokens"
  have "t \<in> set (takeWhile (\<lambda>(_, t). sp_start span \<le> sp_start t) (rev ?before))" "\<not> is_layout (fst t)"
    using assms by (auto simp: last_content_def Let_def find_Some_iff case_prod_beta)
  then show "t \<in> set tokens" "sp_start span \<le> sp_start (snd t)" "\<not> is_layout (fst t)"
    by (auto dest!: set_takeWhileD in_set_takeD simp: case_prod_beta)
qed

lemma reads_content_end:
  assumes "logos_lexer (fr_next_tok fe)" "text_span (doc_text d) span"
  shows "reads fe d (content_end fe span) (\<lambda>r. sp_start span \<le> r \<and> is_char_boundary (doc_text d) r)"
  unfolding content_end_def
proof (rule reads_bind [OF reads_tokens [OF assms(1)]], rule reads_res, elim exE conjE)
  fix tokens lx d' assume lx: "lexed_as fe d lx" "tokens = lx_tokens lx" and d': "doc_ok fe d'" "same_doc d d'"
  let ?t = "doc_text d"
  let ?f = "case last_content span tokens of
         None \<Rightarrow> Inr (sp_start span)
       | Some (_, lst) \<Rightarrow>
           bind_res (line_col (doc_index d') (sp_end lst)) (\<lambda>lc.
           bind_res (line_range (doc_index d') (lc_line lc)) (\<lambda>r.
             case r of
               None \<Rightarrow> Inl ExpectFailed
             | Some (_, fin) \<Rightarrow>
                 let line_end = min fin (sp_end span) in
                 map_ok (\<lambda>rest. sp_end lst + str_len (str_trim_end (takeWhile (\<lambda>c. c \<noteq> 35) rest)))
                   (str_slice (doc_text d') (sp_end lst) (max line_end (sp_end lst)))))"
  have t: "doc_text d' = ?t" "doc_index d' = LineIndex_new ?t" using d' by (simp_all add: same_doc_def doc_ok_def)
  show "\<exists>a. ?f = Inr a \<and> sp_start span \<le> a \<and> is_char_boundary ?t a"
  proof (cases "last_content span tokens")
    case None
    then show ?thesis using assms(2) by (simp add: text_span_def)
  next
    case (Some p)
    obtain tok lst where p: "p = (tok, lst)" by (cases p)
    note lc = last_content_Some [OF Some]
    have lst: "text_span ?t lst" "sp_start span \<le> sp_start lst"
      using lexed_tokens(1) [OF assms(1) lx(1)] lc lx(2) p by (auto simp: list_all_iff)
    obtain l where l: "line_col (LineIndex_new ?t) (sp_end lst) = Inr l" "lc_line l < line_count (LineIndex_new ?t)"
      using new_index.line_col_total text_span_bounds [OF lst(1)] by blast
    let ?fin = "li_ends (LineIndex_new ?t) ! lc_line l"
    have "is_char_boundary ?t ?fin" using new_index.end_boundary l(2) by (simp add: line_count_def)
    then have "is_char_boundary ?t (max (min ?fin (sp_end span)) (sp_end lst))"
      using assms(2) lst(1) by (auto simp: text_span_def max_def min_def)
    then obtain rest where rest: "str_slice ?t (sp_end lst) (max (min ?fin (sp_end span)) (sp_end lst)) = Inr rest"
      using str_slice_ok lst(1) by (metis max.cobounded2 text_span_def)
    have "prefix (str_trim_end (takeWhile (\<lambda>c. c \<noteq> 35) rest)) rest"
      using trim_end_prefix takeWhile_is_prefix prefix_order.trans by blast
    from boundary_in_slice [OF rest this] show ?thesis
      using rest l lst by (auto simp: Some p t line_range_new text_span_def)
  qed
qed

subsection \<open>Edits\<close>

lemma offset_units_boundary:
  "\<exists>p. prefix p s \<and> offset_units start (char_indices_from k s) col units (start + k + str_len s) = start + k + str_len p"
proof (induction s arbitrary: k units)
  case (Cons c s)
  show ?case
  proof (cases "col < units + len_utf16 c")
    case True
    then show ?thesis by (intro exI [of _ "[]"]) (simp add: Let_def)
  next
    case False
    obtain p where "prefix p s" "offset_units start (char_indices_from (k + len_utf8 c) s) col
        (units + len_utf16 c) (start + (k + len_utf8 c) + str_len s) = start + (k + len_utf8 c) + str_len p"
      using Cons.IH by blast
    with False show ?thesis by (intro exI [of _ "c # p"]) (simp add: Let_def add.assoc)
  qed
qed simp

lemma Document_offset_total:
  assumes "doc_ok fe d"
  shows "\<exists>a. Document_offset fe d pos = Inr a \<and> is_char_boundary (doc_text d) a"
proof -
  let ?t = "doc_text d" and ?ix = "LineIndex_new (doc_text d)"
  let ?l = "unat (pos_line pos)" and ?c = "unat (pos_character pos)"
  have fin: "is_char_boundary ?t (str_len ?t)" by (simp add: is_char_boundary_def)
  have bytes: "\<exists>a. offset (fr_dbg fe) ?ix ?t \<lparr>lc_line = ?l, lc_col = ?c\<rparr> = Inr a \<and> is_char_boundary ?t a"
    using new_index.offset_in_line [of ?l ?t "fr_dbg fe" ?c] new_index.offset_past [of ?t ?l "fr_dbg fe" ?c] fin
    by (cases "?l < length (li_starts ?ix)") auto
  show ?thesis
  proof (cases "doc_encoding d = Utf8 \<or> li_ascii ?ix \<or> length (li_starts ?ix) \<le> ?l")
    case True
    then show ?thesis using bytes fin assms by (cases "doc_encoding d") (auto simp: Document_offset_def offset_in_def doc_ok_def)
  next
    case False
    then have l: "?l < length (li_starts ?ix)" by simp
    let ?a = "li_starts ?ix ! ?l" and ?b = "li_ends ?ix ! ?l"
    obtain s where s: "str_slice ?t ?a ?b = Inr s"
      using str_slice_ok new_index.start_boundary [OF l] new_index.end_boundary [OF l] new_index.start_le_end [OF l] by blast
    then have b: "?b = ?a + str_len s" by (auto simp: str_slice_Inr)
    obtain p where p: "prefix p s" "offset_units ?a (char_indices s) ?c 0 ?b = ?a + str_len p"
      using offset_units_boundary [of s ?a 0 ?c 0] by (auto simp: b char_indices_def)
    have "Document_offset fe d pos = Inr (?a + str_len p)"
      using False l s p(2) assms
      by (cases "doc_encoding d") (auto simp: Document_offset_def offset_in_def doc_ok_def new_index.ends_length Let_def)
    then show ?thesis using boundary_in_slice [OF s p(1)] by blast
  qed
qed

lemma replace_range_ok:
  assumes "is_char_boundary t a" "is_char_boundary t b" "a \<le> b"
  shows "\<exists>p m q. t = p @ m @ q \<and> a = str_len p \<and> b = str_len (p @ m) \<and> replace_range t a b new = Inr (p @ new @ q)"
proof -
  obtain p m q where t: "t = p @ m @ q" "a = str_len p" "b = str_len p + str_len m"
    using boundary_split2 [OF assms] by blast
  have "str_slice t a b = Inr m" "str_slice t 0 a = Inr p" "str_slice t b (str_len t) = Inr q"
    using str_slice_append [of p m q] str_slice_append [of "[]" p "m @ q"] str_slice_append [of "p @ m" q "[]"]
    by (simp_all add: t add.assoc)
  then show ?thesis using t by (intro exI [of _ p] exI [of _ m] exI [of _ q]) (simp add: replace_range_def)
qed

lemma set_text_ok: "doc_ok fe (set_text t d)"
  by (simp add: doc_ok_def set_text_def)

lemma Document_new_ok: "doc_ok fe (Document_new t version encoding)"
  by (simp add: doc_ok_def Document_new_def)

lemma set_version_ok: "doc_ok fe (set_version v d) = doc_ok fe d"
  by (simp add: doc_ok_def set_version_def)

lemma apply_total:
  assumes "doc_ok fe d"
  shows "\<exists>r d'. Document_apply fe change d = Inr (r, d') \<and> doc_ok fe d' \<and> doc_version d' = doc_version d \<and>
    doc_encoding d' = doc_encoding d \<and>
    (case change of
       ChangeWhole t \<Rightarrow> r = Inr () \<and> doc_text d' = t
     | ChangePartial rg t \<Rightarrow>
         \<exists>a b. Document_offset fe d (rng_start rg) = Inr a \<and> Document_offset fe d (rng_end rg) = Inr b \<and>
           (if b < a then r \<noteq> Inr () \<and> d' = d
            else r = Inr () \<and> (\<exists>p m q. doc_text d = p @ m @ q \<and> a = str_len p \<and> b = str_len (p @ m) \<and>
              doc_text d' = p @ t @ q)))"
proof (cases change)
  case (ChangeWhole t)
  then show ?thesis using set_text_ok by (simp add: Document_apply_def set_text_def)
next
  case (ChangePartial rg t)
  obtain a b where ab: "Document_offset fe d (rng_start rg) = Inr a" "is_char_boundary (doc_text d) a"
    "Document_offset fe d (rng_end rg) = Inr b" "is_char_boundary (doc_text d) b"
    using Document_offset_total [OF assms] by metis
  show ?thesis
  proof (cases "b < a")
    case True
    then show ?thesis using ab assms by (simp add: Document_apply_def ChangePartial)
  next
    case False
    then obtain p m q where u: "doc_text d = p @ m @ q" "a = str_len p" "b = str_len (p @ m)"
      "replace_range (doc_text d) a b t = Inr (p @ t @ q)"
      using replace_range_ok [OF ab(2,4)] by (meson leI)
    let ?d = "set_text (p @ t @ q) d"
    have "Document_apply fe change d = Inr (Inr (), ?d)" using ab False u(4) by (simp add: Document_apply_def ChangePartial)
    moreover have "doc_text ?d = p @ t @ q" "doc_version ?d = doc_version d" "doc_encoding ?d = doc_encoding d"
      by (simp_all add: set_text_def)
    ultimately show ?thesis using ab(1,3) False u(1-3) set_text_ok [of fe "p @ t @ q" d]
      by (intro exI [of _ "Inr ()"] exI [of _ ?d]) (auto simp: ChangePartial)
  qed
qed

lemma apply_ok:
  assumes "doc_ok fe d"
  shows "\<exists>r d'. Document_apply fe change d = Inr (r, d') \<and> doc_ok fe d' \<and>
    doc_version d' = doc_version d \<and> doc_encoding d' = doc_encoding d"
  using apply_total [OF assms, of change] by blast

text \<open>The position of an offset that the protocol can name, and back.\<close>

lemma to_u32_unat: "n < 2 ^ 32 \<Longrightarrow> unat (to_u32 n) = n"
  by (simp add: to_u32_def unat_of_nat take_bit_nat_eq_self)

lemma utf16_count_le: "utf16_count t \<le> str_len t"
  by (induction t) (auto simp: len_utf8_def len_utf16_def)

lemma line_le_start: "l < length (li_starts (LineIndex_new t)) \<Longrightarrow> l \<le> li_starts (LineIndex_new t) ! l"
proof (induction l)
  case (Suc l)
  then show ?case using new_index.starts_mono [of l "Suc l" t] by simp
qed simp

lemma line_col_bounds:
  assumes "line_col (LineIndex_new t) off = Inr p" "off \<le> str_len t"
  shows "lc_line p < line_count (LineIndex_new t)" "lc_line p \<le> off" "lc_col p \<le> off"
proof -
  obtain l where l: "l < length (li_starts (LineIndex_new t))" "li_starts (LineIndex_new t) ! l \<le> off"
    "Suc l < length (li_starts (LineIndex_new t)) \<longrightarrow> off < li_starts (LineIndex_new t) ! Suc l"
    using new_index.line_exists [OF assms(2)] by blast
  then have "p = \<lparr>lc_line = l, lc_col = min off (li_ends (LineIndex_new t) ! l) - li_starts (LineIndex_new t) ! l\<rparr>"
    using new_index.line_col_at [OF l(1,2) assms(2)] assms(1) by simp
  then show "lc_line p < line_count (LineIndex_new t)" "lc_line p \<le> off" "lc_col p \<le> off"
    using l(1,2) line_le_start [OF l(1)] by (simp_all add: line_count_def)
qed

lemma line_col_in_bounds:
  assumes "line_col_in (LineIndex_new t) t off enc = Inr p" "off \<le> str_len t"
  shows "lc_line p \<le> str_len t" "lc_col p \<le> str_len t"
proof -
  obtain b where b: "line_col (LineIndex_new t) off = Inr b" "lc_line p = lc_line b"
    "lc_col p = lc_col b \<or> (\<exists>a c s. str_slice t a c = Inr s \<and> lc_col p = utf16_count s)"
    using assms(1) by (auto simp: line_col_in_def Let_def split: sum.splits if_splits Encoding.splits) blast
  note lc = line_col_bounds [OF b(1) assms(2)]
  show "lc_line p \<le> str_len t" using lc b(2) assms(2) by simp
  have "utf16_count s \<le> str_len t" if "str_slice t a c = Inr s" for a c s
    using that order_trans [OF utf16_count_le [of s]] by (auto simp: str_slice_Inr)
  then show "lc_col p \<le> str_len t" using lc b(3) assms(2) by auto
qed

lemma position_offset:
  assumes "doc_ok fe d" "str_len (doc_text d) < 2 ^ 32" "is_char_boundary (doc_text d) off"
    "\<not> inside_crlf (doc_text d) off"
  shows "\<exists>pos. Document_position d off = Inr pos \<and> Document_offset fe d pos = Inr off"
proof -
  let ?t = "doc_text d"
  have le: "off \<le> str_len ?t" using assms(3) by (rule boundary_le)
  obtain p where p: "line_col_in (LineIndex_new ?t) ?t off (doc_encoding d) = Inr p"
    "offset_in (fr_dbg fe) (LineIndex_new ?t) ?t p (doc_encoding d) = Inr off"
  proof (cases "doc_encoding d")
    case Utf8
    obtain p where "line_col (LineIndex_new ?t) off = Inr p" "offset (fr_dbg fe) (LineIndex_new ?t) ?t p = Inr off"
      using new_index.byte_round_trip [OF le assms(4,3)] by blast
    then show thesis using that Utf8 assms(3) by (simp add: line_col_in_def offset_in_def)
  next
    case Utf16
    then show thesis using new_index.utf16_round_trip [OF le assms(4,3)] that by metis
  qed
  have "unat (to_u32 (lc_line p)) = lc_line p" "unat (to_u32 (lc_col p)) = lc_col p"
    using line_col_in_bounds [OF p(1) le] assms(2) by (simp_all add: to_u32_unat)
  then show ?thesis using p assms(1)
    by (cases p) (simp add: Document_position_def Document_offset_def doc_ok_def)
qed

subsection \<open>Properties\<close>

definition sample_front :: Front where
  "sample_front = \<lparr>fr_next_tok = rules_lexer, fr_grammar = (\<lambda>_ _. (Some [], [])), fr_range_debug = (\<lambda>_. []), fr_dbg = True\<rparr>"

text \<open>C20. An edit is applied or refused, and never fails. A whole-document edit replaces the text; a partial
  one replaces the text between its clamped ends; a reversed range is refused and leaves the document as
  it was. The document that results has the line table of its text and no stale parse or tokens.
\<close>

theorem apply_edit:
  assumes "doc_ok fe d"
  shows "\<exists>r d'. Document_apply fe change d = Inr (r, d') \<and> doc_ok fe d' \<and> doc_version d' = doc_version d \<and>
    doc_encoding d' = doc_encoding d \<and>
    (case change of
       ChangeWhole t \<Rightarrow> r = Inr () \<and> doc_text d' = t
     | ChangePartial rg t \<Rightarrow>
         \<exists>a b. Document_offset fe d (rng_start rg) = Inr a \<and> Document_offset fe d (rng_end rg) = Inr b \<and>
           (if b < a then r \<noteq> Inr () \<and> d' = d
            else r = Inr () \<and> (\<exists>p m q. doc_text d = p @ m @ q \<and> a = str_len p \<and> b = str_len (p @ m) \<and>
              doc_text d' = p @ t @ q)))"
  using assms by (rule apply_total)

theorem apply_edit_witness:
  "\<exists>r d'. Document_apply sample_front (ChangeWhole (lit ''x'')) (Document_new [] 0 Utf16) = Inr (r, d') \<and>
     doc_text d' = lit ''x''"
  using apply_edit [OF Document_new_ok, of sample_front "ChangeWhole (lit ''x'')" "[]" 0 Utf16] by auto

text \<open>C21. The positions the server sends name the text they came from: an edit at the protocol range of a
  span, in either encoding, replaces exactly the span's text. A position cannot name the middle of a
  \<open>\r\n\<close>, and the text is less than 4 GiB.
\<close>

theorem edit_at_range:
  assumes "doc_ok fe d" "str_len (doc_text d) < 2 ^ 32" "doc_text d = p @ m @ q"
    "\<not> inside_crlf (doc_text d) (str_len p)" "\<not> inside_crlf (doc_text d) (str_len (p @ m))"
  shows "\<exists>rg d'. Document_range d (Span_new f (str_len p) (str_len (p @ m))) = Inr rg \<and>
    Document_apply fe (ChangePartial rg t) d = Inr (Inr (), d') \<and> doc_text d' = p @ t @ q"
proof -
  have b: "is_char_boundary (doc_text d) (str_len p)" "is_char_boundary (doc_text d) (str_len (p @ m))"
    using is_char_boundary_prefix [of p "m @ q"] is_char_boundary_prefix [of "p @ m" q] by (simp_all add: assms(3))
  obtain x y where xy: "Document_position d (str_len p) = Inr x" "Document_offset fe d x = Inr (str_len p)"
    "Document_position d (str_len (p @ m)) = Inr y" "Document_offset fe d y = Inr (str_len (p @ m))"
    using position_offset [OF assms(1,2) b(1) assms(4)] position_offset [OF assms(1,2) b(2) assms(5)] by blast
  obtain p' m' q' where u: "doc_text d = p' @ m' @ q'" "str_len p = str_len p'" "str_len (p @ m) = str_len (p' @ m')"
    "replace_range (doc_text d) (str_len p) (str_len (p @ m)) t = Inr (p' @ t @ q')"
    using replace_range_ok [OF b] by (metis le_add1 str_len_simps(3))
  have "p' = p" using prefix_unique [of p "m @ q" p' "m' @ q'"] u assms(3) by simp
  moreover have "p' @ m' = p @ m" using prefix_unique [of "p @ m" q "p' @ m'" q'] u assms(3) by simp
  ultimately have "q' = q" using u(1) assms(3) by simp
  with \<open>p' = p\<close> xy u(4) show ?thesis
    by (simp add: Document_range_def Document_apply_def set_text_def)
qed

theorem edit_at_range_witness:
  "\<exists>rg d'. Document_range (Document_new (lit ''a = 1'') 0 Utf16) (Span_new FileId_ROOT 4 5) = Inr rg \<and>
     Document_apply sample_front (ChangePartial rg (lit ''2'')) (Document_new (lit ''a = 1'') 0 Utf16) = Inr (Inr (), d') \<and>
     doc_text d' = lit ''a = 2''"
proof -
  let ?d = "Document_new (lit ''a = 1'') 0 Utf16"
  have t: "doc_text ?d = lit ''a = '' @ lit ''1'' @ []" "str_len (doc_text ?d) < 2 ^ 32"
    "\<not> inside_crlf (doc_text ?d) (str_len (lit ''a = ''))"
    "\<not> inside_crlf (doc_text ?d) (str_len (lit ''a = '' @ lit ''1''))"
    "str_len (lit ''a = '') = 4" "str_len (lit ''a = '' @ lit ''1'') = 5" "lit ''a = '' @ lit ''2'' @ [] = lit ''a = 2''"
    by code_simp+
  from edit_at_range [OF Document_new_ok t(2) t(1) t(3) t(4), where fe = sample_front and f = FileId_ROOT and t = "lit ''2''"]
  show ?thesis unfolding t(5-7) .
qed

end
