(* ===== verification/Lsp_Folding.thy ===== *)
theory Lsp_Folding
  imports Lsp_Document
begin

section \<open>Folding ranges\<close>

text \<open>
  \<open>cambra-lsp/src/folding.rs\<close>: the folds of statement bodies and \<open>match\<close>es from the parse, those of
  brackets from the tokens, and those of comment runs from the lines. A function that asks for the end
  of a statement's source may fill the document's cells and is a reading.
\<close>

subsection \<open>The operations\<close>

datatype FoldingRangeKind = FK_Comment | FK_Imports | FK_Region

record FoldingRange =
  fold_start_line :: u32
  fold_start_character :: "u32 option"
  fold_end_line :: u32
  fold_end_character :: "u32 option"
  fold_kind :: "FoldingRangeKind option"
  fold_collapsed_text :: "utext option"

definition fold_range :: "u32 \<Rightarrow> u32 \<Rightarrow> FoldingRangeKind option \<Rightarrow> FoldingRange" where
  "fold_range from_line to_line kind =
     \<lparr>fold_start_line = from_line, fold_start_character = None, fold_end_line = to_line,
      fold_end_character = None, fold_kind = kind, fold_collapsed_text = None\<rparr>"

definition last_line :: "Front \<Rightarrow> Span \<Rightarrow> u32 reading" where
  "last_line fe span =
     doc_bind (content_end fe span) (\<lambda>e. doc_res (\<lambda>d. Document_line d (max (e - 1) (sp_start span))))"

text \<open>\<open>(end_line > start_line).then(..)\<close>, for the fold of a body and of a \<open>match\<close>.\<close>

definition lines_fold :: "Front \<Rightarrow> nat \<Rightarrow> Span \<Rightarrow> FoldingRange option reading" where
  "lines_fold fe off span =
     doc_bind (doc_res (\<lambda>d. Document_line d off)) (\<lambda>from_line.
     doc_bind (last_line fe span) (\<lambda>to_line.
       doc_return (if from_line < to_line then Some (fold_range from_line to_line None) else None)))"

definition body_fold :: "Front \<Rightarrow> (Token \<times> Span) list \<Rightarrow> Stmt Spanned list \<Rightarrow> FoldingRange option reading" where
  "body_fold fe tokens body =
     (if body = [] then doc_return None
      else
        let before = partition_point (\<lambda>(_, span). sp_start span < sp_start (spn_span (hd body))) tokens in
        case find (\<lambda>(tok, _). \<not> is_layout tok) (rev (take before tokens)) of
          None \<Rightarrow> doc_return None
        | Some (_, header_end) \<Rightarrow> lines_fold fe (sp_start header_end) (spn_span (last body)))"

definition match_fold :: "Front \<Rightarrow> (Token \<times> Span) list \<Rightarrow> Span \<Rightarrow> FoldingRange option reading" where
  "match_fold fe tokens stmt_span =
     (let start = partition_point (\<lambda>(_, span). sp_start span < sp_start stmt_span) tokens in
      case find (\<lambda>(tok, _). tok = T_Newline) (drop start tokens) of
        None \<Rightarrow> doc_return None
      | Some (_, newline) \<Rightarrow> lines_fold fe (sp_start newline) stmt_span)"

text \<open>\<open>Vec::extend\<close> with an option.\<close>

definition extend_with :: "'a list \<Rightarrow> 'a option \<Rightarrow> 'a list" where
  "extend_with out x = out @ (case x of None \<Rightarrow> [] | Some y \<Rightarrow> [y])"

text \<open>The closure \<open>body\<close> of \<open>blocks\<close>, with the recursive call as an argument.\<close>

definition blocks_body ::
  "(Stmt Spanned \<Rightarrow> FoldingRange list \<Rightarrow> FoldingRange list reading) \<Rightarrow> Front \<Rightarrow> (Token \<times> Span) list \<Rightarrow>
     Stmt Spanned list \<Rightarrow> FoldingRange list \<Rightarrow> FoldingRange list reading" where
  "blocks_body rec fe tokens stmts out =
     doc_bind (body_fold fe tokens stmts) (\<lambda>f. doc_fold rec stmts (extend_with out f))"

text \<open>The block on the right of a statement.\<close>

definition right_block :: "Stmt \<Rightarrow> Stmt Spanned option" where
  "right_block s =
     (let block = (\<lambda>value. case spn_node value of E_Block inner \<Rightarrow> Some inner | _ \<Rightarrow> None) in
      case s of
        S_Assign _ value _ \<Rightarrow> block value
      | S_AnnAssign _ _ value \<Rightarrow> block value
      | S_AugAssign _ _ value \<Rightarrow> block value
      | S_MutAssign _ _ value \<Rightarrow> block value
      | S_Define _ value \<Rightarrow> block value
      | S_Expr value \<Rightarrow> block value
      | S_Return (Some value) \<Rightarrow> block value
      | _ \<Rightarrow> None)"

lemma block_size:
  "(case spn_node v of E_Block inner \<Rightarrow> Some inner | _ \<Rightarrow> None) = Some inner \<Longrightarrow>
     size_Spanned size inner < size_Spanned size v"
  by (cases v) (auto split: Expr.splits)

lemma right_block_size: "right_block s = Some inner \<Longrightarrow> size_Spanned size inner < size s"
  unfolding right_block_def Let_def
  by (cases s) (simp_all split: option.splits, (drule block_size, simp)+)

lemma blocks_body_cong [fundef_cong]:
  "fe = fe' \<Longrightarrow> tokens = tokens' \<Longrightarrow> stmts = stmts' \<Longrightarrow> out = out' \<Longrightarrow>
     (\<And>x b. x \<in> set stmts' \<Longrightarrow> rec x b = rec' x b) \<Longrightarrow>
     blocks_body rec fe tokens stmts out = blocks_body rec' fe' tokens' stmts' out'"
  using doc_fold_cong [OF refl refl, of stmts' rec rec'] by (simp add: blocks_body_def)

lemma doc_bind_cong [fundef_cong]:
  "m = m' \<Longrightarrow> (\<And>a. f a = g a) \<Longrightarrow> doc_bind m f = doc_bind m' g"
  by presburger

lemma size_member: "x \<in> set xs \<Longrightarrow> f x \<le> size_list f xs"
  by (metis order_refl size_list_estimation')

lemma size_branch:
  "b \<in> set bs \<Longrightarrow> size_list (size_Spanned h) (ib_body b) \<le> size_list (size_IfBranch g h) bs"
  by (rule size_list_estimation', assumption) (cases b, simp)

lemma size_arm: "a \<in> set as \<Longrightarrow> size_list (size_Spanned h) (ma_body a) \<le> size_list (size_MatchArm h) as"
  by (rule size_list_estimation', assumption) (cases a, simp)

function (sequential) blocks ::
  "Front \<Rightarrow> (Token \<times> Span) list \<Rightarrow> Stmt Spanned \<Rightarrow> FoldingRange list \<Rightarrow> FoldingRange list reading" where
  "blocks fe tokens (Spanned sp (S_FunctionDef _ _ _ _ _ _ stmts)) out =
     blocks_body (blocks fe tokens) fe tokens stmts out"
| "blocks fe tokens (Spanned sp (S_For _ _ stmts)) out = blocks_body (blocks fe tokens) fe tokens stmts out"
| "blocks fe tokens (Spanned sp (S_With _ _ stmts)) out = blocks_body (blocks fe tokens) fe tokens stmts out"
| "blocks fe tokens (Spanned sp (S_If branches else_body)) out =
     doc_bind (doc_fold (\<lambda>branch out. blocks_body (blocks fe tokens) fe tokens (ib_body branch) out) branches out)
       (\<lambda>out. case else_body of
          None \<Rightarrow> doc_return out
        | Some stmts \<Rightarrow> blocks_body (blocks fe tokens) fe tokens stmts out)"
| "blocks fe tokens (Spanned sp (S_Match _ arms)) out =
     doc_bind (match_fold fe tokens sp) (\<lambda>f.
       doc_fold (\<lambda>arm out. blocks_body (blocks fe tokens) fe tokens (ma_body arm) out) arms (extend_with out f))"
| "blocks fe tokens (Spanned sp (S_Pub _ inner)) out = blocks fe tokens inner out"
| "blocks fe tokens (Spanned sp s) out =
     (case right_block s of None \<Rightarrow> doc_return out | Some inner \<Rightarrow> blocks fe tokens inner out)"
  by pat_completeness auto
termination
  by (relation "measure (\<lambda>(fe, tokens, stmt, out). size_Spanned size stmt)")
    (auto dest!: right_block_size size_branch [where h = "size :: Stmt \<Rightarrow> nat" and g = "size :: Expr \<Rightarrow> nat"]
       size_arm [where h = "size :: Stmt \<Rightarrow> nat"]
       size_member [where f = "size_Spanned (size :: Stmt \<Rightarrow> nat)"])

definition starts_its_line :: "Document \<Rightarrow> nat \<Rightarrow> bool res" where
  "starts_its_line d off =
     bind_res (Document_line d off) (\<lambda>l.
     bind_res (line_range (doc_index d) (unat l)) (\<lambda>r.
       case r of
         None \<Rightarrow> Inl ExpectFailed
       | Some (a, _) \<Rightarrow> map_ok (\<lambda>t. str_trim t = []) (str_slice (doc_text d) a off)))"

text \<open>The fold of one bracketed region. \<open>u32::saturating_sub(1)\<close> is written out.\<close>

definition bracket_fold :: "Document \<Rightarrow> Span \<Rightarrow> Span \<Rightarrow> FoldingRange option res" where
  "bracket_fold d opener span =
     bind_res (Document_line d (sp_start opener)) (\<lambda>from_line.
     bind_res (Document_line d (sp_start span)) (\<lambda>close_line.
     map_ok (\<lambda>own_line.
         let to_line = (if own_line then if close_line = 0 then 0 else close_line - 1 else close_line) in
         if from_line < to_line then Some (fold_range from_line to_line None) else None)
       (starts_its_line d (sp_start span))))"

text \<open>The loop over the tokens, with the open brackets innermost first.\<close>

fun brackets :: "Document \<Rightarrow> Span list \<Rightarrow> (Token \<times> Span) list \<Rightarrow> FoldingRange list \<Rightarrow> FoldingRange list res" where
  "brackets d opened [] out = Inr out"
| "brackets d opened ((tok, span) # tokens) out =
     (if tok \<in> {T_LParen, T_LBracket, T_LBrace} then brackets d (span # opened) tokens out
      else if tok \<in> {T_RParen, T_RBracket, T_RBrace} then
        (case opened of
           [] \<Rightarrow> Inl ExpectFailed
         | opener # opened \<Rightarrow>
             bind_res (bracket_fold d opener span) (\<lambda>f. brackets d opened tokens (extend_with out f)))
      else brackets d opened tokens out)"

definition is_comment :: "Document \<Rightarrow> nat \<Rightarrow> bool res" where
  "is_comment d l =
     bind_res (line_range (doc_index d) l) (\<lambda>r.
       case r of
         None \<Rightarrow> Inl ExpectFailed
       | Some (a, b) \<Rightarrow> map_ok (\<lambda>t. starts_with (str_trim_start t) [35]) (str_slice (doc_text d) a b))"

text \<open>The inner loop: the first line at or after \<open>l\<close> that is no comment line.\<close>

function comment_run :: "Document \<Rightarrow> nat \<Rightarrow> nat res" where
  "comment_run d l =
     (if l < line_count (doc_index d)
      then bind_res (is_comment d l) (\<lambda>c. if c then comment_run d (l + 1) else Inr l)
      else Inr l)"
  by pat_completeness auto
termination
  by (relation "measure (\<lambda>(d, l). line_count (doc_index d) - l)") auto

declare comment_run.simps [simp del]

lemma comment_run_ge: "comment_run d l = Inr e \<Longrightarrow> l \<le> e"
proof (induction d l rule: comment_run.induct)
  case (1 d l)
  show ?case
  proof (cases "l < line_count (doc_index d) \<and> is_comment d l = Inr True")
    case True
    with 1(2) have "comment_run d (l + 1) = Inr e" by (simp add: comment_run.simps [of d l])
    with 1(1) True show ?thesis by force
  next
    case False
    with 1(2) show ?thesis
      by (cases "is_comment d l") (auto simp: comment_run.simps [of d l] split: if_splits)
  qed
qed

text \<open>The casts \<open>as u32\<close> truncate.\<close>

function comments :: "Document \<Rightarrow> nat \<Rightarrow> FoldingRange list \<Rightarrow> FoldingRange list res" where
  "comments d l out =
     (if l < line_count (doc_index d)
      then bind_res (comment_run d l) (\<lambda>e.
        comments d (e + 1)
          (if l + 2 \<le> e then out @ [fold_range (of_nat l) (of_nat (e - 1)) (Some FK_Comment)] else out))
      else Inr out)"
  by pat_completeness auto
termination
  by (relation "measure (\<lambda>(d, l, out). line_count (doc_index d) - l)") (auto dest!: comment_run_ge)

declare comments.simps [simp del]

definition fold_lines :: "FoldingRange \<Rightarrow> u32 \<times> u32" where
  "fold_lines f = (fold_start_line f, fold_end_line f)"

text \<open>\<open>Vec::dedup_by_key\<close>.\<close>

fun dedup_by_key :: "('a \<Rightarrow> 'k) \<Rightarrow> 'a list \<Rightarrow> 'a list" where
  "dedup_by_key k (x # y # xs) =
     (if k x = k y then dedup_by_key k (x # xs) else x # dedup_by_key k (y # xs))"
| "dedup_by_key k xs = xs"

definition folding_ranges :: "Front \<Rightarrow> FoldingRange list reading" where
  "folding_ranges fe =
     doc_bind (Document_tokens fe) (\<lambda>tokens.
     doc_bind (Document_parsed fe) (\<lambda>r.
     doc_bind (case pr_value r of None \<Rightarrow> doc_return [] | Some m \<Rightarrow> doc_fold (blocks fe tokens) (md_body m) [])
       (\<lambda>out.
     doc_bind (doc_res (\<lambda>d. brackets d [] tokens out)) (\<lambda>out.
     doc_bind (doc_res (\<lambda>d. comments d 0 out)) (\<lambda>out.
       doc_return (dedup_by_key fold_lines (sort_key fold_lines out)))))))"

subsection \<open>Folds of statements\<close>

text \<open>
  A fold that a document can show: at least two lines, the last of them a line of the document. Line
  numbers are 32-bit, so this is for a document whose lines they can number.
\<close>

definition numbered :: "Document \<Rightarrow> bool" where
  "numbered d \<longleftrightarrow> line_count (doc_index d) \<le> 2 ^ 32"

definition fold_ok :: "Document \<Rightarrow> FoldingRange \<Rightarrow> bool" where
  "fold_ok d f \<longleftrightarrow>
     (numbered d \<longrightarrow>
        fold_start_line f < fold_end_line f \<and> unat (fold_end_line f) < line_count (doc_index d))"

text \<open>
  The statements below a statement that a fold is made for, and the promise of the grammar: the spans
  it gives statements run from the edge of one token to the edge of another, or to the end of input.
\<close>

definition inner_stmts :: "Stmt \<Rightarrow> Stmt Spanned list" where
  "inner_stmts s =
     (case s of
        S_FunctionDef _ _ _ _ _ _ stmts \<Rightarrow> stmts
      | S_For _ _ stmts \<Rightarrow> stmts
      | S_With _ _ stmts \<Rightarrow> stmts
      | S_If branches else_body \<Rightarrow>
          concat (map ib_body branches) @ (case else_body of None \<Rightarrow> [] | Some stmts \<Rightarrow> stmts)
      | S_Match _ arms \<Rightarrow> concat (map ma_body arms)
      | S_Pub _ inner \<Rightarrow> [inner]
      | _ \<Rightarrow> (case right_block s of None \<Rightarrow> [] | Some inner \<Rightarrow> [inner]))"

inductive substmt :: "Stmt Spanned \<Rightarrow> Stmt Spanned \<Rightarrow> bool" where
  here: "substmt s s"
| below: "inner \<in> set (inner_stmts (spn_node s)) \<Longrightarrow> substmt inner t \<Longrightarrow> substmt s t"

definition token_edges :: "(Token \<times> Span) list \<Rightarrow> Span \<Rightarrow> nat set" where
  "token_edges toks eoi = sp_start ` insert eoi (snd ` set toks) \<union> sp_end ` insert eoi (snd ` set toks)"

definition edge_span :: "(Token \<times> Span) list \<Rightarrow> Span \<Rightarrow> Span \<Rightarrow> bool" where
  "edge_span toks eoi s \<longleftrightarrow>
     sp_start s \<le> sp_end s \<and> sp_start s \<in> token_edges toks eoi \<and> sp_end s \<in> token_edges toks eoi"

definition grammar_stmt_spans :: "Stmt Spanned list grammar \<Rightarrow> bool" where
  "grammar_stmt_spans g \<longleftrightarrow>
     (\<forall>toks eoi body errs. g toks eoi = (Some body, errs) \<longrightarrow> sp_start eoi \<le> sp_end eoi \<longrightarrow>
        (\<forall>s \<in> set body. \<forall>t. substmt s t \<longrightarrow> edge_span toks eoi (spn_span t)))"

lemma edge_text:
  assumes "logos_lexer (fr_next_tok fe)" "lexed_as fe d lx"
    "edge_span (lx_tokens lx) (Span_new f (str_len (doc_text d)) (str_len (doc_text d))) s"
  shows "text_span (doc_text d) s"
proof -
  have "is_char_boundary (doc_text d) x"
    if "x \<in> token_edges (lx_tokens lx) (Span_new f (str_len (doc_text d)) (str_len (doc_text d)))" for x
    using that lexed_tokens(1) [OF assms(1,2)]
    by (auto simp: token_edges_def list_all_iff text_span_def is_char_boundary_def)
  then show ?thesis using assms(3) by (simp add: edge_span_def text_span_def)
qed

lemma reads_line:
  assumes "off \<le> str_len (doc_text d)"
  shows "reads fe d (doc_res (\<lambda>d. Document_line d off)) (\<lambda>l. numbered d \<longrightarrow> unat l < line_count (doc_index d))"
proof (rule reads_res)
  fix d' assume d': "doc_ok fe d'" "same_doc d d'"
  then obtain l where "l < line_count (doc_index d')" "Document_line d' off = Inr (to_u32 l)"
    using Document_line_total [of fe d' off] assms by (auto simp: same_doc_def)
  then show "\<exists>l. Document_line d' off = Inr l \<and> (numbered d \<longrightarrow> unat l < line_count (doc_index d))"
    using d'(2) by (simp add: same_doc_def to_u32_unat numbered_def)
qed

lemma reads_last_line:
  assumes "logos_lexer (fr_next_tok fe)" "text_span (doc_text d) span"
  shows "reads fe d (last_line fe span) (\<lambda>l. numbered d \<longrightarrow> unat l < line_count (doc_index d))"
  unfolding last_line_def
proof (rule reads_bind [OF reads_content_end [OF assms(1,2)]])
  fix e assume e: "sp_start span \<le> e \<and> is_char_boundary (doc_text d) e"
  then have "max (e - 1) (sp_start span) \<le> str_len (doc_text d)" using boundary_le [of "doc_text d" e] by simp
  from reads_line [OF this]
  show "reads fe d (doc_res (\<lambda>d. Document_line d (max (e - 1) (sp_start span))))
      (\<lambda>l. numbered d \<longrightarrow> unat l < line_count (doc_index d))" .
qed

lemma reads_lines_fold:
  assumes "logos_lexer (fr_next_tok fe)" "text_span (doc_text d) span" "off \<le> str_len (doc_text d)"
  shows "reads fe d (lines_fold fe off span) (\<lambda>f. \<forall>x \<in> set_option f. fold_ok d x)"
  unfolding lines_fold_def
  by (rule reads_bind [OF reads_line [OF assms(3)]], rule reads_bind [OF reads_last_line [OF assms(1,2)]],
      rule reads_return) (auto simp: fold_ok_def fold_range_def)

lemma find_member: "find P xs = Some x \<Longrightarrow> x \<in> set xs"
  by (auto simp: find_Some_iff)

definition foldable :: "Front \<Rightarrow> Document \<Rightarrow> Lexed \<Rightarrow> bool" where
  "foldable fe d lx \<longleftrightarrow> logos_lexer (fr_next_tok fe) \<and> lexed_as fe d lx"

lemma foldable_token:
  assumes "foldable fe d lx" "t \<in> set (lx_tokens lx)"
  shows "text_span (doc_text d) (snd t)" "sp_start (snd t) \<le> str_len (doc_text d)"
proof -
  show "text_span (doc_text d) (snd t)"
    using assms lexed_tokens(1) [of fe d lx] by (simp add: foldable_def list_all_iff)
  then show "sp_start (snd t) \<le> str_len (doc_text d)" by (simp add: text_span_bounds)
qed

lemma reads_body_fold:
  assumes "foldable fe d lx" "\<forall>s \<in> set body. text_span (doc_text d) (spn_span s)"
  shows "reads fe d (body_fold fe (lx_tokens lx) body) (\<lambda>f. \<forall>x \<in> set_option f. fold_ok d x)"
proof (cases "body = []")
  case True
  then show ?thesis by (simp add: body_fold_def reads_return)
next
  case False
  let ?before = "take (partition_point (\<lambda>(_, span). sp_start span < sp_start (spn_span (hd body))) (lx_tokens lx)) (lx_tokens lx)"
  show ?thesis
  proof (cases "find (\<lambda>(tok, _). \<not> is_layout tok) (rev ?before)")
    case None
    then show ?thesis using False by (simp add: body_fold_def Let_def reads_return)
  next
    case (Some t)
    have "t \<in> set (lx_tokens lx)" using find_member [OF Some] by (auto dest: in_set_takeD)
    then have "sp_start (snd t) \<le> str_len (doc_text d)" using foldable_token [OF assms(1)] by blast
    moreover have "text_span (doc_text d) (spn_span (last body))" using assms(2) False by simp
    ultimately have "reads fe d (lines_fold fe (sp_start (snd t)) (spn_span (last body)))
        (\<lambda>f. \<forall>x \<in> set_option f. fold_ok d x)"
      using reads_lines_fold assms(1) by (simp add: foldable_def)
    then show ?thesis using False Some by (simp add: body_fold_def Let_def case_prod_beta)
  qed
qed

lemma reads_match_fold:
  assumes "foldable fe d lx" "text_span (doc_text d) span"
  shows "reads fe d (match_fold fe (lx_tokens lx) span) (\<lambda>f. \<forall>x \<in> set_option f. fold_ok d x)"
proof (cases "find (\<lambda>(tok, _). tok = T_Newline)
    (drop (partition_point (\<lambda>(_, s). sp_start s < sp_start span) (lx_tokens lx)) (lx_tokens lx))")
  case None
  then show ?thesis by (simp add: match_fold_def Let_def reads_return)
next
  case (Some t)
  have "t \<in> set (lx_tokens lx)" using find_member [OF Some] by (auto dest: in_set_dropD)
  then have "sp_start (snd t) \<le> str_len (doc_text d)" using foldable_token [OF assms(1)] by blast
  then have "reads fe d (lines_fold fe (sp_start (snd t)) span) (\<lambda>f. \<forall>x \<in> set_option f. fold_ok d x)"
    using reads_lines_fold assms by (simp add: foldable_def)
  then show ?thesis using Some by (simp add: match_fold_def Let_def case_prod_beta)
qed

lemma extend_ok: "list_all (fold_ok d) out \<Longrightarrow> \<forall>x \<in> set_option f. fold_ok d x \<Longrightarrow> list_all (fold_ok d) (extend_with out f)"
  by (cases f) (simp_all add: extend_with_def)

lemma reads_blocks_body:
  assumes "foldable fe d lx" "\<forall>s \<in> set stmts. text_span (doc_text d) (spn_span s)" "list_all (fold_ok d) out"
    "\<And>s out. s \<in> set stmts \<Longrightarrow> list_all (fold_ok d) out \<Longrightarrow> reads fe d (rec s out) (list_all (fold_ok d))"
  shows "reads fe d (blocks_body rec fe (lx_tokens lx) stmts out) (list_all (fold_ok d))"
  unfolding blocks_body_def
  by (rule reads_bind [OF reads_body_fold [OF assms(1,2)]], rule reads_fold)
    (use assms(3,4) extend_ok in blast)+

definition in_text_below :: "Document \<Rightarrow> Stmt Spanned \<Rightarrow> bool" where
  "in_text_below d s \<longleftrightarrow> (\<forall>t. substmt s t \<longrightarrow> text_span (doc_text d) (spn_span t))"

lemma in_text_here: "in_text_below d s \<Longrightarrow> text_span (doc_text d) (spn_span s)"
  using substmt.here by (auto simp: in_text_below_def)

lemma in_text_inner: "in_text_below d s \<Longrightarrow> \<forall>t \<in> set (inner_stmts (spn_node s)). in_text_below d t"
  using substmt.below by (auto simp: in_text_below_def)

lemma inner_stmts_size: "i \<in> set (inner_stmts s) \<Longrightarrow> size_Spanned size i < size s"
  by (cases s)
    (auto simp: inner_stmts_def split: option.splits
      dest!: right_block_size right_block_size [OF sym] size_branch [where h = "size :: Stmt \<Rightarrow> nat" and g = "size :: Expr \<Rightarrow> nat"]
       size_arm [where h = "size :: Stmt \<Rightarrow> nat"] size_member [where f = "size_Spanned (size :: Stmt \<Rightarrow> nat)"])

lemma reads_blocks:
  assumes "foldable fe d lx" "in_text_below d stmt" "list_all (fold_ok d) out"
  shows "reads fe d (blocks fe (lx_tokens lx) stmt out) (list_all (fold_ok d))"
  using assms(2,3)
proof (induction "size_Spanned size stmt" arbitrary: stmt out rule: less_induct)
  case less
  let ?Q = "list_all (fold_ok d)" and ?blocks = "blocks fe (lx_tokens lx)"
  obtain sp s where stmt: "stmt = Spanned sp s" by (cases stmt)
  have below: "in_text_below d i" if "i \<in> set (inner_stmts s)" for i
    using in_text_inner [OF less.prems(1)] that stmt by simp
  have rec: "reads fe d (?blocks i out') ?Q" if "i \<in> set (inner_stmts s)" "?Q out'" for i out'
    using less.hyps [OF _ below [OF that(1)] that(2)] inner_stmts_size [OF that(1)] stmt by simp
  have body: "reads fe d (blocks_body ?blocks fe (lx_tokens lx) stmts out') ?Q"
    if "set stmts \<subseteq> set (inner_stmts s)" "?Q out'" for stmts out'
    using that below in_text_here rec by (intro reads_blocks_body [OF assms(1)]) blast+
  show ?case
  proof (cases s)
    case (S_If branches else_body)
    have "reads fe d (doc_fold (\<lambda>branch out. blocks_body ?blocks fe (lx_tokens lx) (ib_body branch) out) branches out) ?Q"
      using body less.prems(2) by (intro reads_fold) (auto simp: S_If inner_stmts_def)
    then show ?thesis
      unfolding stmt S_If blocks.simps
      by (rule reads_bind) (auto simp: S_If inner_stmts_def reads_return intro!: body split: option.splits)
  next
    case (S_Match e arms)
    have "reads fe d (match_fold fe (lx_tokens lx) sp) (\<lambda>f. \<forall>x \<in> set_option f. fold_ok d x)"
      using reads_match_fold [OF assms(1)] in_text_here [OF less.prems(1)] by (simp add: stmt)
    then show ?thesis
      unfolding stmt S_Match blocks.simps
      by (rule reads_bind) (intro reads_fold body extend_ok less.prems(2), auto simp: S_Match inner_stmts_def)
  qed (use body rec less.prems(2) in
      \<open>auto simp: stmt inner_stmts_def reads_return split: option.splits\<close>)
qed

subsection \<open>Folds of brackets\<close>

lemma starts_its_line_total:
  assumes "doc_ok fe d" "is_char_boundary (doc_text d) off"
  shows "\<exists>b. starts_its_line d off = Inr b"
proof -
  let ?ix = "LineIndex_new (doc_text d)"
  have off: "off \<le> str_len (doc_text d)" using assms(2) by (rule boundary_le)
  have ix: "doc_index d = ?ix" using assms(1) by (simp add: doc_ok_def)
  obtain l where l: "l < length (li_starts ?ix)" "li_starts ?ix ! l \<le> off"
    "Suc l < length (li_starts ?ix) \<longrightarrow> off < li_starts ?ix ! Suc l"
    using new_index.line_exists [OF off] by blast
  have lc: "Document_line d off = Inr (to_u32 l)"
    using new_index.line_col_at [OF l(1,2) off] l(3) by (simp add: Document_line_def ix)
  let ?k = "unat (to_u32 l)"
  have "unat (to_u32 l) \<le> l"
  proof (cases "l < 2 ^ 32")
    case False
    have "?k < 2 ^ 32" using unsigned_less [where w = "to_u32 l" and 'a = nat] by simp
    then show ?thesis using False by simp
  qed (simp add: to_u32_unat)
  then have k: "?k < length (li_starts ?ix)" "li_starts ?ix ! ?k \<le> off"
    using l(1,2) new_index.starts_mono [of ?k l "doc_text d"] by (cases "?k = l"; fastforce)+
  obtain t where "str_slice (doc_text d) (li_starts ?ix ! ?k) off = Inr t"
    using str_slice_ok [OF new_index.start_boundary [OF k(1)] assms(2) k(2)] by blast
  then show ?thesis
    using lc k(1) by (simp add: starts_its_line_def ix line_range_new line_count_def)
qed

lemma bracket_fold_ok:
  assumes "doc_ok fe d" "is_char_boundary (doc_text d) (sp_start opener)"
    "is_char_boundary (doc_text d) (sp_start span)"
  shows "\<exists>f. bracket_fold d opener span = Inr f \<and> (\<forall>x \<in> set_option f. fold_ok d x)"
proof -
  obtain a b where ab: "a < line_count (doc_index d)" "Document_line d (sp_start opener) = Inr (to_u32 a)"
    "b < line_count (doc_index d)" "Document_line d (sp_start span) = Inr (to_u32 b)"
    using Document_line_total [OF assms(1)] boundary_le assms(2,3) by meson
  obtain own where "starts_its_line d (sp_start span) = Inr own"
    using starts_its_line_total [OF assms(1,3)] by blast
  moreover have "unat (to_u32 b) < line_count (doc_index d)" if "numbered d"
    using ab(3) that by (simp add: to_u32_unat numbered_def)
  moreover have "unat (to_u32 b - 1) \<le> unat (to_u32 b)" if "to_u32 b \<noteq> 0"
    using that by (metis unat_minus_one diff_le_self)
  ultimately show ?thesis using ab
    by (auto simp: bracket_fold_def fold_ok_def fold_range_def Let_def split: if_splits)
qed

definition bracket_depth :: "Opener list \<Rightarrow> nat" where
  "bracket_depth stk = length (filter (\<lambda>x. case x of OpenedBracket _ \<Rightarrow> True | _ \<Rightarrow> False) stk)"

lemma brackets_ok:
  assumes "doc_ok fe d" "nest (map fst tokens) stk = Some fin" "length opened = bracket_depth stk"
    "\<forall>s \<in> set opened \<union> snd ` set tokens. is_char_boundary (doc_text d) (sp_start s)" "list_all (fold_ok d) out"
  shows "\<exists>out'. brackets d opened tokens out = Inr out' \<and> list_all (fold_ok d) out'"
  using assms(2-5)
proof (induction tokens arbitrary: stk opened out)
  case (Cons t tokens)
  obtain tok span where t: "t = (tok, span)" by (cases t)
  obtain stk' where stk': "nest_step tok stk = Some stk'" "nest (map fst tokens) stk' = Some fin"
    using Cons.prems(1) by (auto simp: t split: option.splits)
  have op: "tok \<in> {T_LParen, T_LBracket, T_LBrace} \<longleftrightarrow> opened_by tok \<noteq> None"
    "tok \<in> {T_RParen, T_RBracket, T_RBrace} \<longleftrightarrow> closed_by tok \<noteq> None"
    by (auto simp: opened_by_def closed_by_def)
  show ?case
  proof (cases "opened_by tok")
    case (Some k)
    then have "bracket_depth stk' = Suc (bracket_depth stk)"
      using stk'(1) by (auto simp: nest_step_def bracket_depth_def)
    then show ?thesis
      using Cons.IH [OF stk'(2), of "span # opened" out] Cons.prems(2-4) op(1) Some by (simp add: t)
  next
    case nop: None
    show ?thesis
    proof (cases "closed_by tok")
      case (Some k)
      then have "stk = OpenedBracket k # stk'"
        using stk'(1) nop by (auto simp: nest_step_def pop_opener_def split: list.splits if_splits)
      then obtain opener rest where o: "opened = opener # rest" "length rest = bracket_depth stk'"
        using Cons.prems(2) by (cases opened) (auto simp: bracket_depth_def)
      then obtain f where "bracket_fold d opener span = Inr f" "\<forall>x \<in> set_option f. fold_ok d x"
        using bracket_fold_ok [OF assms(1), of opener span] Cons.prems(3) t by auto
      then show ?thesis
        using Cons.IH [OF stk'(2) o(2), of "extend_with out f"] Cons.prems(3,4) extend_ok op nop Some o(1) by (simp add: t)
    next
      case None
      then have "bracket_depth stk' = bracket_depth stk"
        using stk'(1) nop by (auto simp: nest_step_def pop_opener_def bracket_depth_def split: list.splits if_splits)
      then show ?thesis
        using Cons.IH [OF stk'(2), of opened out] Cons.prems(2-4) op nop None by (simp add: t)
    qed
  qed
qed simp

subsection \<open>Folds of comments\<close>

definition comment_line :: "Document \<Rightarrow> nat \<Rightarrow> bool" where
  "comment_line d l \<longleftrightarrow> is_comment d l = Inr True"

text \<open>A run of two or more comment lines that neither neighbour extends.\<close>

definition comment_block :: "Document \<Rightarrow> nat \<Rightarrow> nat \<Rightarrow> bool" where
  "comment_block d a b \<longleftrightarrow>
     a < b \<and> b < line_count (doc_index d) \<and> (\<forall>i. a \<le> i \<and> i \<le> b \<longrightarrow> comment_line d i) \<and>
     (a = 0 \<or> \<not> comment_line d (a - 1)) \<and> (Suc b = line_count (doc_index d) \<or> \<not> comment_line d (Suc b))"

definition comment_fold :: "nat \<Rightarrow> nat \<Rightarrow> FoldingRange" where
  "comment_fold a b = fold_range (of_nat a) (of_nat b) (Some FK_Comment)"

lemma is_comment_total:
  assumes "doc_ok fe d" "l < line_count (doc_index d)"
  shows "\<exists>c. is_comment d l = Inr c"
proof -
  let ?ix = "LineIndex_new (doc_text d)"
  have ix: "doc_index d = ?ix" using assms(1) by (simp add: doc_ok_def)
  then have l: "l < length (li_starts ?ix)" using assms(2) by (simp add: line_count_def)
  obtain t where "str_slice (doc_text d) (li_starts ?ix ! l) (li_ends ?ix ! l) = Inr t"
    using str_slice_ok [OF new_index.start_boundary [OF l] new_index.end_boundary [OF l] new_index.start_le_end [OF l]]
    by blast
  then show ?thesis using l by (simp add: is_comment_def ix line_range_new line_count_def)
qed

lemma comment_run_spec:
  assumes "doc_ok fe d" "l \<le> line_count (doc_index d)"
  shows "\<exists>e. comment_run d l = Inr e \<and> l \<le> e \<and> e \<le> line_count (doc_index d) \<and>
    (\<forall>i. l \<le> i \<and> i < e \<longrightarrow> comment_line d i) \<and> (e < line_count (doc_index d) \<longrightarrow> \<not> comment_line d e)"
  using assms
proof (induction d l rule: comment_run.induct)
  case (1 d l)
  show ?case
  proof (cases "l < line_count (doc_index d)")
    case False
    then have "comment_run d l = Inr l" by (simp add: comment_run.simps [of d l])
    then show ?thesis using False 1(3) by auto
  next
    case True
    obtain c where c: "is_comment d l = Inr c" using is_comment_total [OF 1(2) True] by blast
    show ?thesis
    proof (cases c)
      case False
      then show ?thesis using True c by (auto simp: comment_run.simps [of d l] comment_line_def)
    next
      case rec: True
      from 1(1) [OF True c rec 1(2)] True obtain e where e: "comment_run d (l + 1) = Inr e" "l + 1 \<le> e"
        "e \<le> line_count (doc_index d)" "\<forall>i. l + 1 \<le> i \<and> i < e \<longrightarrow> comment_line d i"
        "e < line_count (doc_index d) \<longrightarrow> \<not> comment_line d e" by auto
      moreover have "comment_line d l" using c rec by (simp add: comment_line_def)
      then have "\<forall>i. l \<le> i \<and> i < e \<longrightarrow> comment_line d i" using e(4) by (metis Suc_eq_plus1 le_antisym not_less_eq_eq)
      ultimately show ?thesis using True c rec by (simp add: comment_run.simps [of d l])
    qed
  qed
qed

lemma comment_block_at:
  assumes "l \<le> e" "e \<le> line_count (doc_index d)" "\<forall>i. l \<le> i \<and> i < e \<longrightarrow> comment_line d i"
    "e < line_count (doc_index d) \<longrightarrow> \<not> comment_line d e" "l = 0 \<or> \<not> comment_line d (l - 1)"
  shows "l \<le> a \<and> comment_block d a b \<longleftrightarrow>
    l + 2 \<le> e \<and> a = l \<and> b = e - 1 \<or> e + 1 \<le> a \<and> comment_block d a b"
proof (cases "e \<le> a")
  case True
  then show ?thesis using assms by (cases "a = e") (auto simp: comment_block_def)
next
  case False
  show ?thesis
  proof (cases "a = l")
    case True
    show ?thesis
    proof
      assume ab: "l \<le> a \<and> comment_block d a b"
      then have "\<not> e \<le> b" using assms(4) True False by (force simp: comment_block_def)
      moreover have "\<not> Suc b < e" using ab assms(2,3) True by (auto simp: comment_block_def)
      ultimately show "l + 2 \<le> e \<and> a = l \<and> b = e - 1 \<or> e + 1 \<le> a \<and> comment_block d a b"
        using ab True by (auto simp: comment_block_def)
    next
      assume "l + 2 \<le> e \<and> a = l \<and> b = e - 1 \<or> e + 1 \<le> a \<and> comment_block d a b"
      then have ab: "l + 2 \<le> e" "a = l" "b = e - 1" using False by auto
      then have "Suc b = e" by simp
      then show "l \<le> a \<and> comment_block d a b" using ab assms by (auto simp: comment_block_def)
    qed
  next
    case neq: False
    have "\<not> comment_block d a b" if "l \<le> a"
      using that neq False assms(3) by (auto simp: comment_block_def dest!: spec [of _ "a - 1"])
    then show ?thesis using neq False by auto
  qed
qed

lemma comments_spec:
  assumes "doc_ok fe d" "l = 0 \<or> \<not> comment_line d (l - 1) \<or> line_count (doc_index d) < l"
  shows "\<exists>new. comments d l out = Inr (out @ new) \<and>
    set new = {comment_fold a b | a b. l \<le> a \<and> comment_block d a b}"
  using assms
proof (induction d l out rule: comments.induct)
  case (1 d l out)
  show ?case
  proof (cases "l < line_count (doc_index d)")
    case False
    then have "\<not> (l \<le> a \<and> comment_block d a b)" for a b by (auto simp: comment_block_def)
    with False show ?thesis by (auto simp: comments.simps [of d l])
  next
    case True
    from comment_run_spec [OF 1(2), of l] True obtain e where e: "comment_run d l = Inr e" "l \<le> e"
      "e \<le> line_count (doc_index d)" "\<forall>i. l \<le> i \<and> i < e \<longrightarrow> comment_line d i"
      "e < line_count (doc_index d) \<longrightarrow> \<not> comment_line d e" by auto
    let ?here = "if l + 2 \<le> e then [comment_fold l (e - 1)] else []"
    have step: "comments d l out = comments d (e + 1) (out @ ?here)"
      using True e(1) by (simp add: comments.simps [of d l] comment_fold_def)
    have "e + 1 = 0 \<or> \<not> comment_line d (e + 1 - 1) \<or> line_count (doc_index d) < e + 1"
      using e(3,5) by auto
    from 1(1) [OF True e(1) 1(2) this] obtain new where new: "comments d (e + 1) (out @ ?here) = Inr ((out @ ?here) @ new)"
      "set new = {comment_fold a b | a b. e + 1 \<le> a \<and> comment_block d a b}"
      by (auto simp: comment_fold_def split: if_splits)
    have "l = 0 \<or> \<not> comment_line d (l - 1)" using 1(3) True by auto
    note at = comment_block_at [OF e(2-5) this]
    have "{comment_fold a b | a b. l \<le> a \<and> comment_block d a b} =
        {comment_fold a b | a b. l + 2 \<le> e \<and> a = l \<and> b = e - 1 \<or> e + 1 \<le> a \<and> comment_block d a b}"
      unfolding at ..
    also have "\<dots> = set (?here @ new)" using new(2) by auto
    finally show ?thesis using step new(1) by (intro exI [of _ "?here @ new"]) simp
  qed
qed

subsection \<open>All folds\<close>

lemma dedup_by_key_sorted:
  fixes k :: "'a \<Rightarrow> 'b :: linorder"
  assumes "sorted (map k xs)"
  shows "sorted_wrt (<) (map k (dedup_by_key k xs)) \<and> k ` set (dedup_by_key k xs) = k ` set xs \<and>
    set (dedup_by_key k xs) \<subseteq> set xs"
  using assms
proof (induction k xs rule: dedup_by_key.induct)
  case (1 k x y xs)
  show ?case
  proof (cases "k x = k y")
    case True
    then show ?thesis using 1 by auto
  next
    case False
    then have "k x < k y" "\<forall>z \<in> set (y # xs). k y \<le> k z" using 1(3) by auto
    then have "\<forall>z \<in> k ` set (y # xs). k x < z" by auto
    moreover have "sorted (map k (y # xs))" using 1(3) by simp
    ultimately show ?thesis using 1(2) False by (auto simp del: dedup_by_key.simps(1) simp: dedup_by_key.simps(1) [of k x])
  qed
qed auto

lemma comment_fold_ok:
  assumes "comment_block d a b"
  shows "fold_ok d (comment_fold a b)"
  unfolding fold_ok_def
proof
  assume "numbered d"
  then have "a < 2 ^ 32" "b < 2 ^ 32" "a < b" "b < line_count (doc_index d)"
    using assms by (auto simp: comment_block_def numbered_def)
  moreover from this have "unat (of_nat a :: u32) = a" "unat (of_nat b :: u32) = b"
    by (simp_all add: unat_of_nat take_bit_nat_eq_self)
  ultimately show "fold_start_line (comment_fold a b) < fold_end_line (comment_fold a b) \<and>
      unat (fold_end_line (comment_fold a b)) < line_count (doc_index d)"
    by (simp add: comment_fold_def fold_range_def word_less_nat_alt)
qed

lemma parsed_stmts:
  assumes "logos_lexer (fr_next_tok fe)" "grammar_stmt_spans (fr_grammar fe)" "lexed_as fe d lx" "parsed_as fe d r"
    "pr_value r = Some m" "s \<in> set (md_body m)"
  shows "in_text_below d s"
proof -
  let ?eoi = "Span_new FileId_ROOT (str_len (doc_text d)) (str_len (doc_text d))"
  obtain errs where g: "fr_grammar fe (lx_tokens lx) ?eoi = (Some (md_body m), errs)"
    using assms(3-5) by (auto simp: lexed_as_def parsed_as_def parse_module_def parse_with_def split: prod.splits)
  have "edge_span (lx_tokens lx) ?eoi (spn_span t)" if "substmt s t" for t
    using assms(2) g assms(6) that unfolding grammar_stmt_spans_def by (metis Span_new_sel(2,3) order_refl)
  then show ?thesis using edge_text [OF assms(1,3)] by (auto simp: in_text_below_def)
qed

lemma comment_block_same: "same_doc d d' \<Longrightarrow> comment_block d' = comment_block d"
proof (intro ext)
  fix a b assume "same_doc d d'"
  then have eq: "doc_text d' = doc_text d" "doc_index d' = doc_index d" by (simp_all add: same_doc_def)
  show "comment_block d' a b = comment_block d a b"
    unfolding comment_block_def comment_line_def is_comment_def eq ..
qed

lemma reads_comments:
  "reads fe d (doc_res (\<lambda>d. comments d 0 out))
     (\<lambda>out'. \<exists>new. out' = out @ new \<and> set new = {comment_fold a b | a b. comment_block d a b})"
proof (rule reads_res)
  fix d' assume d': "doc_ok fe d'" "same_doc d d'"
  from comments_spec [OF d'(1), of 0 out] comment_block_same [OF d'(2)]
  show "\<exists>out'. comments d' 0 out = Inr out' \<and>
      (\<exists>new. out' = out @ new \<and> set new = {comment_fold a b | a b. comment_block d a b})" by auto
qed

lemma reads_brackets:
  assumes "foldable fe d lx" "list_all (fold_ok d) out"
  shows "reads fe d (doc_res (\<lambda>d. brackets d [] (lx_tokens lx) out)) (list_all (fold_ok d))"
proof (rule reads_res)
  fix d' assume d': "doc_ok fe d'" "same_doc d d'"
  then have same: "fold_ok d' = fold_ok d" "doc_text d' = doc_text d" "doc_index d' = doc_index d"
    by (auto simp: fold_ok_def same_doc_def numbered_def)
  have "nest (map fst (lx_tokens lx)) [] = Some []"
    using logos_lexer.tokenize_result [of "fr_next_tok fe" FileId_ROOT "doc_text d" "fr_dbg fe"] assms(1)
    by (auto simp: lexed_as_def foldable_def)
  moreover have "\<forall>s \<in> snd ` set (lx_tokens lx). is_char_boundary (doc_text d) (sp_start s)"
    using foldable_token(1) [OF assms(1)] by (auto simp: text_span_def)
  ultimately show "\<exists>out'. brackets d' [] (lx_tokens lx) out = Inr out' \<and> list_all (fold_ok d) out'"
    using brackets_ok [OF d'(1), of "lx_tokens lx" "[]" "[]" "[]" out] assms same
    by (simp add: bracket_depth_def foldable_def)
qed

definition folds_ok :: "Document \<Rightarrow> FoldingRange list \<Rightarrow> bool" where
  "folds_ok d folds \<longleftrightarrow>
     sorted_wrt (<) (map fold_lines folds) \<and> list_all (fold_ok d) folds \<and>
     (\<forall>a b. comment_block d a b \<longrightarrow> (of_nat a, of_nat b) \<in> set (map fold_lines folds))"

lemma sorted_folds_ok:
  assumes "list_all (fold_ok d) out" "set new = {comment_fold a b | a b. comment_block d a b}"
  shows "folds_ok d (dedup_by_key fold_lines (sort_key fold_lines (out @ new)))"
proof -
  let ?xs = "sort_key fold_lines (out @ new)"
  have srt: "sorted (map fold_lines ?xs)" by simp
  have "list_all (fold_ok d) (out @ new)" using assms comment_fold_ok by (auto simp: list_all_iff)
  then have "list_all (fold_ok d) ?xs" by (simp add: list_all_iff)
  moreover have "(of_nat a, of_nat b) \<in> fold_lines ` set ?xs" if "comment_block d a b" for a b
    using that assms(2) by (force simp: comment_fold_def fold_range_def fold_lines_def)
  ultimately show ?thesis using dedup_by_key_sorted [OF srt] by (auto simp: folds_ok_def list_all_iff)
qed

lemma reads_folding_ranges:
  assumes "logos_lexer (fr_next_tok fe)" "grammar_stmt_spans (fr_grammar fe)"
  shows "reads fe d (folding_ranges fe) (folds_ok d)"
  unfolding folding_ranges_def
proof (rule reads_bind [OF reads_tokens [OF assms(1)]], elim exE conjE)
  fix tokens lx assume lx: "lexed_as fe d lx" "tokens = lx_tokens lx"
  have fold: "foldable fe d lx" using assms(1) lx(1) by (simp add: foldable_def)
  let ?sort = "\<lambda>out. doc_return (dedup_by_key fold_lines (sort_key fold_lines out)) :: FoldingRange list reading"
  have cmt: "reads fe d (doc_bind (doc_res (\<lambda>d. comments d 0 out)) ?sort) (folds_ok d)"
    if "list_all (fold_ok d) out" for out
    by (rule reads_bind [OF reads_comments], elim exE conjE, hypsubst, rule reads_return)
      (rule sorted_folds_ok [OF that])
  have blk: "reads fe d (case pr_value r of None \<Rightarrow> doc_return []
      | Some m \<Rightarrow> doc_fold (blocks fe tokens) (md_body m) []) (list_all (fold_ok d))" if "parsed_as fe d r" for r
    using parsed_stmts [OF assms(1,2) lx(1) that] reads_blocks [OF fold] lx(2)
    by (auto simp: reads_return intro!: reads_fold split: option.splits)
  show "reads fe d (doc_bind (Document_parsed fe) (\<lambda>r.
     doc_bind (case pr_value r of None \<Rightarrow> doc_return [] | Some m \<Rightarrow> doc_fold (blocks fe tokens) (md_body m) [])
       (\<lambda>out. doc_bind (doc_res (\<lambda>d. brackets d [] tokens out)) (\<lambda>out.
     doc_bind (doc_res (\<lambda>d. comments d 0 out)) ?sort)))) (folds_ok d)"
    unfolding lx(2)
    by (rule reads_bind [OF reads_parsed [OF assms(1)]], erule reads_bind [OF blk [unfolded lx(2)]],
        erule reads_bind [OF reads_brackets [OF fold]], erule cmt)
qed

subsection \<open>Properties\<close>

text \<open>C18. Every document has its folding ranges: no bracket of the lexer's stream is unbalanced and no
  position is out of range. The ranges come in strictly ascending order of their lines, each spans at
  least two lines of the document, and every run of two or more comment lines has one.
\<close>

theorem folding_ranges_ok:
  assumes "logos_lexer (fr_next_tok fe)" "grammar_stmt_spans (fr_grammar fe)" "doc_ok fe d"
    "line_count (doc_index d) \<le> 2 ^ 32"
  shows "\<exists>folds d'. folding_ranges fe d = Some (Inr (folds, d')) \<and> doc_ok fe d' \<and> same_doc d d' \<and>
    sorted_wrt (<) (map fold_lines folds) \<and>
    (\<forall>f \<in> set folds. fold_start_line f < fold_end_line f \<and> unat (fold_end_line f) < line_count (doc_index d)) \<and>
    (\<forall>a b. comment_block d a b \<longrightarrow> (of_nat a, of_nat b) \<in> set (map fold_lines folds))"
  using readsD [OF reads_folding_ranges [OF assms(1,2)] assms(3)] assms(4)
  unfolding folds_ok_def list_all_iff fold_ok_def numbered_def by blast

lemma sample_front_spans: "grammar_stmt_spans (fr_grammar sample_front)"
  by (simp add: grammar_stmt_spans_def sample_front_def)

theorem folding_ranges_ok_witness:
  "\<exists>folds d'. folding_ranges sample_front (Document_new (lit ''f(x,'' @ 10 # lit ''  y)'') 0 Utf16) = Some (Inr (folds, d')) \<and>
     sorted_wrt (<) (map fold_lines folds)"
proof -
  let ?d = "Document_new (lit ''f(x,'' @ 10 # lit ''  y)'') 0 Utf16"
  have "line_count (doc_index ?d) \<le> 2 ^ 32" by code_simp
  moreover have "logos_lexer (fr_next_tok sample_front)" using rules.logos_lexer_axioms by (simp add: sample_front_def)
  ultimately show ?thesis using folding_ranges_ok [OF _ sample_front_spans Document_new_ok] by blast
qed

end
