(* ===== verification/Lsp_Diagnostics.thy ===== *)
theory Lsp_Diagnostics
  imports Lsp_Folding
begin

section \<open>Diagnostics\<close>

text \<open>
  \<open>cambra-lsp/src/diagnostics.rs\<close>: a document's parse errors as protocol diagnostics. The fields of the
  protocol's record that the code always leaves empty are left out.
\<close>

subsection \<open>The operations\<close>

datatype DiagnosticSeverity = DS_Error | DS_Warning | DS_Information | DS_Hint

record RelatedInformation =
  ri_uri :: utext
  ri_range :: PosRange
  ri_message :: utext

record Diagnostic =
  dg_range :: PosRange
  dg_severity :: "DiagnosticSeverity option"
  dg_source :: "utext option"
  dg_message :: utext
  dg_related_information :: "RelatedInformation list option"

text \<open>The message of an error, and the spans its related information points at with their text.\<close>

definition error_message :: "ParseError \<Rightarrow> utext" where
  "error_message e = (case e of PE_Lex e \<Rightarrow> LexError_display e | PE_Parse info \<Rightarrow> message info)"

definition error_notes :: "ParseError \<Rightarrow> (Span \<times> utext) list" where
  "error_notes e =
     (case e of
        PE_Lex e \<Rightarrow> (case related e of None \<Rightarrow> [] | Some note \<Rightarrow> [note])
      | PE_Parse info \<Rightarrow>
          map (\<lambda>(label, span). (span, lit ''while parsing '' @ label)) (rev (pei_context info)))"

definition related_information :: "utext \<Rightarrow> Document \<Rightarrow> Span \<times> utext \<Rightarrow> RelatedInformation res" where
  "related_information uri d note =
     map_ok (\<lambda>r. \<lparr>ri_uri = uri, ri_range = r, ri_message = snd note\<rparr>) (Document_range d (fst note))"

definition diagnostic :: "utext \<Rightarrow> Document \<Rightarrow> ParseError \<Rightarrow> Diagnostic res" where
  "diagnostic uri d e =
     bind_res (map_res (related_information uri d) (error_notes e)) (\<lambda>notes.
       map_ok (\<lambda>r. \<lparr>dg_range = r, dg_severity = Some DS_Error, dg_source = Some (lit ''cambra''),
           dg_message = error_message e, dg_related_information = if notes = [] then None else Some notes\<rparr>)
         (Document_range d (ParseError_span e)))"

definition diagnostics :: "Front \<Rightarrow> utext \<Rightarrow> Diagnostic list reading" where
  "diagnostics fe uri =
     doc_bind (Document_parsed fe) (\<lambda>r. doc_res (\<lambda>d. map_res (diagnostic uri d) (pr_errors r)))"

subsection \<open>The diagnostics of a document\<close>

text \<open>
  The promise of the grammar about its errors: their spans, and those of their contexts, start and end
  at the edges of tokens. A span may end before it starts.
\<close>

definition grammar_error_spans :: "'o grammar \<Rightarrow> bool" where
  "grammar_error_spans g \<longleftrightarrow>
     (\<forall>toks eoi out errs. g toks eoi = (out, errs) \<longrightarrow>
        (\<forall>e \<in> set errs. \<forall>s \<in> set (rich_span e # map snd (rich_contexts e)).
           sp_start s \<in> token_edges toks eoi \<and> sp_end s \<in> token_edges toks eoi))"

definition boundary_span :: "utext \<Rightarrow> Span \<Rightarrow> bool" where
  "boundary_span t s \<longleftrightarrow> is_char_boundary t (sp_start s) \<and> is_char_boundary t (sp_end s)"

definition diagnostic_of :: "utext \<Rightarrow> Document \<Rightarrow> ParseError \<Rightarrow> Diagnostic \<Rightarrow> bool" where
  "diagnostic_of uri d e g \<longleftrightarrow>
     Document_range d (ParseError_span e) = Inr (dg_range g) \<and> dg_message g = error_message e \<and>
     dg_severity g = Some DS_Error \<and>
     list_all2 (\<lambda>note i. Document_range d (fst note) = Inr (ri_range i) \<and> ri_message i = snd note \<and> ri_uri i = uri)
       (error_notes e) (case dg_related_information g of None \<Rightarrow> [] | Some notes \<Rightarrow> notes)"

lemma boundary_range:
  "doc_ok fe d \<Longrightarrow> boundary_span (doc_text d) s \<Longrightarrow> \<exists>r. Document_range d s = Inr r"
  using Document_position_total [of fe d "sp_start s"] Document_position_total [of fe d "sp_end s"]
  by (auto simp: Document_range_def boundary_span_def)

lemma diagnostic_ok:
  assumes "doc_ok fe d" "boundary_span (doc_text d) (ParseError_span e)"
    "\<forall>note \<in> set (error_notes e). boundary_span (doc_text d) (fst note)"
  shows "\<exists>g. diagnostic uri d e = Inr g \<and> diagnostic_of uri d e g"
proof -
  obtain r where r: "Document_range d (ParseError_span e) = Inr r" using boundary_range [OF assms(1,2)] by blast
  have one: "\<exists>i. related_information uri d n = Inr i \<and>
      (Document_range d (fst n) = Inr (ri_range i) \<and> ri_message i = snd n \<and> ri_uri i = uri)"
    if "n \<in> set (error_notes e)" for n
    using boundary_range [OF assms(1)] assms(3) that by (fastforce simp: related_information_def)
  have "\<exists>infos. map_res (related_information uri d) (error_notes e) = Inr infos \<and>
    list_all2 (\<lambda>note i. Document_range d (fst note) = Inr (ri_range i) \<and> ri_message i = snd note \<and> ri_uri i = uri)
       (error_notes e) infos"
    by (rule map_res_exists) (rule one)
  with r show ?thesis by (auto simp: diagnostic_def diagnostic_of_def)
qed

lemma token_edge_boundary:
  assumes "logos_lexer (fr_next_tok fe)" "lexed_as fe d lx"
    "x \<in> token_edges (lx_tokens lx) (Span_new f (str_len (doc_text d)) (str_len (doc_text d)))"
  shows "is_char_boundary (doc_text d) x"
  using assms(3) lexed_tokens(1) [OF assms(1,2)]
  by (auto simp: token_edges_def list_all_iff text_span_def is_char_boundary_def)

lemma error_in_text_notes:
  "error_in_text t e \<Longrightarrow> boundary_span t (ParseError_span (PE_Lex e)) \<and>
     (\<forall>note \<in> set (error_notes (PE_Lex e)). boundary_span t (fst note))"
  by (cases "related e") (auto simp: error_in_text_def error_notes_def boundary_span_def text_span_def)

lemma rich_to_info_spans:
  "pei_span (rich_to_info e) = rich_span e" "map snd (pei_context (rich_to_info e)) = map snd (rich_contexts e)"
  by (simp_all add: rich_to_info_def Let_def case_prod_beta context_label_def)

lemma parsed_errors:
  assumes "logos_lexer (fr_next_tok fe)" "grammar_error_spans (fr_grammar fe)" "parsed_as fe d r" "e \<in> set (pr_errors r)"
  shows "boundary_span (doc_text d) (ParseError_span e) \<and>
    (\<forall>note \<in> set (error_notes e). boundary_span (doc_text d) (fst note))"
proof -
  let ?eoi = "Span_new FileId_ROOT (str_len (doc_text d)) (str_len (doc_text d))"
  obtain lx where lx: "lexed_as fe d lx" using lexes [OF assms(1)] by blast
  obtain out errs where g: "fr_grammar fe (lx_tokens lx) ?eoi = (out, errs)"
    "pr_errors r = lex_then_grammar_errors (lx_errors lx) errs"
    using assms(3) lx
    by (auto simp: lexed_as_def parsed_as_def parse_module_def parse_with_def split: prod.splits)
  from assms(4) consider le where "e = PE_Lex le" "le \<in> set (lx_errors lx)"
    | re where "e = PE_Parse (rich_to_info re)" "re \<in> set errs"
    by (auto simp: g(2) lex_then_grammar_errors_def)
  then show ?thesis
  proof cases
    case 1
    then show ?thesis using lexed_tokens(3) [OF assms(1) lx] error_in_text_notes by (auto simp: list_all_iff)
  next
    case 2
    have edge: "boundary_span (doc_text d) s" if "s \<in> set (rich_span re # map snd (rich_contexts re))" for s
      using assms(2) g(1) 2(2) that token_edge_boundary [OF assms(1) lx]
      unfolding grammar_error_spans_def boundary_span_def by metis
    have "\<forall>note \<in> set (error_notes e). fst note \<in> set (map snd (pei_context (rich_to_info re)))"
      by (force simp: 2(1) error_notes_def)
    then show ?thesis using edge by (simp add: 2(1) rich_to_info_spans)
  qed
qed

lemma reads_diagnostics:
  assumes "logos_lexer (fr_next_tok fe)" "grammar_error_spans (fr_grammar fe)"
  shows "reads fe d (diagnostics fe uri)
    (\<lambda>ds. \<exists>r. parsed_as fe d r \<and> list_all2 (diagnostic_of uri d) (pr_errors r) ds)"
  unfolding diagnostics_def
proof (rule reads_bind [OF reads_parsed [OF assms(1)]], rule reads_res)
  fix r d' assume r: "parsed_as fe d r" and d': "doc_ok fe d'" "same_doc d d'"
  have same_text: "doc_text d' = doc_text d" using d'(2) by (simp add: same_doc_def)
  have same: "diagnostic_of uri d' e g = diagnostic_of uri d e g" for e g
  proof -
    have "Document_range d' = Document_range d"
      using d'(2) by (intro ext) (simp add: Document_range_def Document_position_def same_doc_def)
    then show ?thesis by (simp add: diagnostic_of_def)
  qed
  have one: "\<exists>g. diagnostic uri d' e = Inr g \<and> diagnostic_of uri d e g" if "e \<in> set (pr_errors r)" for e
    using diagnostic_ok [OF d'(1), of e uri] parsed_errors [OF assms r that] by (simp add: same_text same)
  have "\<exists>ds. map_res (diagnostic uri d') (pr_errors r) = Inr ds \<and> list_all2 (diagnostic_of uri d) (pr_errors r) ds"
    by (rule map_res_exists) (rule one)
  with r show "\<exists>ds. map_res (diagnostic uri d') (pr_errors r) = Inr ds \<and>
      (\<exists>r. parsed_as fe d r \<and> list_all2 (diagnostic_of uri d) (pr_errors r) ds)" by blast
qed

subsection \<open>Properties\<close>

text \<open>C19. Every document has its diagnostics: one per error of its parse, in the parse's order, with the
  error's message and the range of its span, and with the notes of the error at the ranges of their
  spans. A note whose span ends before it starts keeps that span.
\<close>

theorem diagnostics_of_errors:
  assumes "logos_lexer (fr_next_tok fe)" "grammar_error_spans (fr_grammar fe)" "doc_ok fe d"
  shows "\<exists>ds d' r. diagnostics fe uri d = Some (Inr (ds, d')) \<and> doc_ok fe d' \<and> same_doc d d' \<and>
    parse_module (fr_next_tok fe) (fr_grammar fe) (fr_dbg fe) FileId_ROOT (doc_text d) = Some (Inr r) \<and>
    list_all2 (diagnostic_of uri d) (pr_errors r) ds"
  using readsD [OF reads_diagnostics [OF assms(1,2), of d uri] assms(3)] unfolding parsed_as_def by blast

lemma sample_front_errors: "grammar_error_spans (fr_grammar sample_front)"
  by (simp add: grammar_error_spans_def sample_front_def)

theorem diagnostics_of_errors_witness:
  "\<exists>ds d' r. diagnostics sample_front (lit ''file:///a'') (Document_new (lit ''(]'') 0 Utf16) = Some (Inr (ds, d')) \<and>
     parse_module rules_lexer (\<lambda>_ _. (Some [], [])) True FileId_ROOT (lit ''(]'') = Some (Inr r) \<and>
     length ds = length (pr_errors r)"
proof -
  let ?d = "Document_new (lit ''(]'') 0 Utf16"
  have l: "logos_lexer (fr_next_tok sample_front)" using rules.logos_lexer_axioms by (simp add: sample_front_def)
  have "doc_text ?d = lit ''(]''" by (simp add: Document_new_def)
  with diagnostics_of_errors [OF l sample_front_errors Document_new_ok, of "lit ''file:///a''" "lit ''(]''" 0 Utf16]
  show ?thesis by (auto simp: sample_front_def dest: list_all2_lengthD)
qed

end
