(* ===== verification/Lsp_Symbols.thy ===== *)
theory Lsp_Symbols
  imports Lsp_Diagnostics
begin

section \<open>Document symbols\<close>

text \<open>
  \<open>cambra-lsp/src/symbols.rs\<close>: the outline of a document. Every entry asks for the end of a
  statement's source, so the functions are readings. The fields of the protocol's record that the code
  always leaves empty are left out.
\<close>

subsection \<open>The operations\<close>

datatype SymbolKind = SK_Function | SK_Variable | SK_Module

datatype DocumentSymbol =
  DocumentSymbol (sy_name: utext) (sy_kind: SymbolKind) (sy_range: PosRange) (sy_selection_range: PosRange)
    (sy_children: "DocumentSymbol list option")

definition trim_end :: "Front \<Rightarrow> Span \<Rightarrow> Span reading" where
  "trim_end fe span = doc_bind (content_end fe span) (\<lambda>e. doc_return (span\<lparr>sp_end := e\<rparr>))"

definition symbol :: "Front \<Rightarrow> utext \<Rightarrow> SymbolKind \<Rightarrow> Span \<Rightarrow> Span \<Rightarrow> DocumentSymbol reading" where
  "symbol fe name kind rg name_span =
     (if fr_dbg fe \<and> \<not> (sp_start rg \<le> sp_start name_span \<and> sp_end name_span \<le> sp_end rg)
      then doc_res (\<lambda>_. Inl AssertFailed)
      else doc_bind (trim_end fe rg) (\<lambda>trimmed. doc_res (\<lambda>d.
        bind_res (Document_range d trimmed) (\<lambda>r.
          map_ok (\<lambda>sel. DocumentSymbol name kind r sel None) (Document_range d name_span)))))"

text \<open>\<open>filter_map\<close> over a body, with the recursive call as an argument.\<close>

definition child_symbols ::
  "(Stmt Spanned \<Rightarrow> DocumentSymbol option reading) \<Rightarrow> Stmt Spanned list \<Rightarrow> DocumentSymbol list reading" where
  "child_symbols rec body = doc_fold (\<lambda>inner out. doc_bind (rec inner) (\<lambda>s. doc_return (extend_with out s))) body []"

lemma child_symbols_cong [fundef_cong]:
  "body = body' \<Longrightarrow> (\<And>x. x \<in> set body' \<Longrightarrow> rec x = rec' x) \<Longrightarrow> child_symbols rec body = child_symbols rec' body'"
  unfolding child_symbols_def by (rule doc_fold_cong) simp_all

function (sequential) function_symbol :: "Front \<Rightarrow> Stmt Spanned \<Rightarrow> Span \<Rightarrow> DocumentSymbol option reading" where
  "function_symbol fe (Spanned _ (S_FunctionDef _ name _ _ _ _ body)) rg =
     doc_bind (child_symbols (\<lambda>inner. function_symbol fe inner (spn_span inner)) body) (\<lambda>children.
     doc_bind (symbol fe (spn_node name) SK_Function rg (spn_span name)) (\<lambda>s.
       doc_return (Some (DocumentSymbol (sy_name s) (sy_kind s) (sy_range s) (sy_selection_range s)
         (if children = [] then None else Some children)))))"
| "function_symbol fe _ rg = doc_return None"
  by pat_completeness auto
termination
  by (relation "measure (\<lambda>(fe, stmt, rg). size_Spanned size stmt)")
    (auto dest!: size_member [where f = "size_Spanned (size :: Stmt \<Rightarrow> nat)"])

text \<open>An entry for each name a target binds.\<close>

function (sequential) bound_symbols ::
  "Front \<Rightarrow> Expr AssignTarget Spanned \<Rightarrow> Span \<Rightarrow> DocumentSymbol list \<Rightarrow> DocumentSymbol list reading" where
  "bound_symbols fe (Spanned sp (A_Name name)) rg out =
     doc_bind (symbol fe name SK_Variable rg sp) (\<lambda>s. doc_return (out @ [s]))"
| "bound_symbols fe (Spanned sp (A_Tuple parts)) rg out =
     doc_fold (\<lambda>part out. bound_symbols fe part rg out) parts out"
| "bound_symbols fe (Spanned sp (A_Constructor pat)) rg out =
     doc_fold (\<lambda>binder out.
         case spn_node binder of
           None \<Rightarrow> doc_return out
         | Some name \<Rightarrow> doc_bind (symbol fe name SK_Variable rg (spn_span binder)) (\<lambda>s. doc_return (out @ [s])))
       (case cp_binders pat of None \<Rightarrow> [] | Some binders \<Rightarrow> binders) out"
| "bound_symbols fe (Spanned sp (A_Subscript _ _)) rg out = doc_return out"
| "bound_symbols fe (Spanned sp (A_Qualified _)) rg out = doc_return out"
  by pat_completeness auto
termination
  by (relation "measure (\<lambda>(fe, target, rg, out). size_Spanned (size_AssignTarget size) target)")
    (auto dest!: size_member [where f = "size_Spanned (size_AssignTarget (size :: Expr \<Rightarrow> nat))"])

definition join_path :: "utext list \<Rightarrow> utext" where
  "join_path names = concat (case names of [] \<Rightarrow> [] | s # ss \<Rightarrow> s # map (\<lambda>s. lit ''::'' @ s) ss)"

definition module_symbol :: "Front \<Rightarrow> WrittenPath \<Rightarrow> name_sp option \<Rightarrow> Span \<Rightarrow> DocumentSymbol reading" where
  "module_symbol fe path alias rg =
     (case alias of
        Some alias \<Rightarrow> symbol fe (spn_node alias) SK_Module rg (spn_span alias)
      | None \<Rightarrow>
          doc_bind (doc_res (\<lambda>_. written_span (fr_dbg fe) path)) (\<lambda>span.
            symbol fe (join_path (map spn_node (wp_segments path))) SK_Module rg span))"

function top_level :: "Front \<Rightarrow> Stmt Spanned \<Rightarrow> Span \<Rightarrow> DocumentSymbol list \<Rightarrow> DocumentSymbol list reading" where
  "top_level fe (Spanned sp s) rg out =
     (case s of
        S_Pub _ inner \<Rightarrow> top_level fe inner rg out
      | S_FunctionDef _ _ _ _ _ _ _ \<Rightarrow>
          doc_bind (function_symbol fe (Spanned sp s) rg) (\<lambda>f. doc_return (extend_with out f))
      | S_Assign target _ _ \<Rightarrow> bound_symbols fe target rg out
      | S_AnnAssign target _ _ \<Rightarrow> bound_symbols fe target rg out
      | S_MutAssign target _ _ \<Rightarrow> bound_symbols fe target rg out
      | S_Declare target _ \<Rightarrow> bound_symbols fe target rg out
      | S_LoadFrom target _ _ \<Rightarrow> bound_symbols fe target rg out
      | S_Param name _ _ _ \<Rightarrow>
          doc_bind (symbol fe (spn_node name) SK_Variable rg (spn_span name)) (\<lambda>s. doc_return (out @ [s]))
      | S_Import path _ alias _ \<Rightarrow>
          doc_bind (module_symbol fe path alias rg) (\<lambda>s. doc_return (out @ [s]))
      | S_Run path _ alias _ _ \<Rightarrow>
          doc_bind (module_symbol fe path alias rg) (\<lambda>s. doc_return (out @ [s]))
      | _ \<Rightarrow> doc_return out)"
  by pat_completeness auto
termination
  by (relation "measure (\<lambda>(fe, stmt, rg, out). size_Spanned size stmt)") auto

declare top_level.simps [simp del]

definition document_symbols :: "Front \<Rightarrow> DocumentSymbol list reading" where
  "document_symbols fe =
     doc_bind (Document_parsed fe) (\<lambda>r.
       case pr_value r of
         None \<Rightarrow> doc_return []
       | Some m \<Rightarrow> doc_fold (\<lambda>stmt out. top_level fe stmt (spn_span stmt) out) (md_body m) [])"

subsection \<open>The outline of a module\<close>

text \<open>
  The specification: what the entries of a statement are, without their positions. \<open>entries\<close> are the
  names a statement gives, with their spans; the children of a function are the functions directly in
  its body.
\<close>

datatype Outline = Outline SymbolKind utext "Outline list"

fun erase :: "DocumentSymbol \<Rightarrow> Outline" where
  "erase (DocumentSymbol name kind _ _ children) =
     Outline kind name (case children of None \<Rightarrow> [] | Some cs \<Rightarrow> map erase cs)"

function (sequential) target_names :: "Expr AssignTarget Spanned \<Rightarrow> (utext \<times> Span) list" where
  "target_names (Spanned sp (A_Name name)) = [(name, sp)]"
| "target_names (Spanned sp (A_Tuple parts)) = concat (map target_names parts)"
| "target_names (Spanned sp (A_Constructor pat)) =
     concat (map (\<lambda>b. case spn_node b of None \<Rightarrow> [] | Some name \<Rightarrow> [(name, spn_span b)])
       (case cp_binders pat of None \<Rightarrow> [] | Some binders \<Rightarrow> binders))"
| "target_names _ = []"
  by pat_completeness auto
termination
  by (relation "measure (size_Spanned (size_AssignTarget size))")
    (auto dest!: size_member [where f = "size_Spanned (size_AssignTarget (size :: Expr \<Rightarrow> nat))"])

definition path_span :: "WrittenPath \<Rightarrow> Span" where
  "path_span path =
     (let a = spn_span (hd (wp_segments path)); b = spn_span (last (wp_segments path)) in
      \<lparr>sp_file = sp_file a, sp_start = min (sp_start a) (sp_start b), sp_end = max (sp_end a) (sp_end b)\<rparr>)"

definition module_entry :: "WrittenPath \<Rightarrow> name_sp option \<Rightarrow> utext \<times> Span" where
  "module_entry path alias =
     (case alias of
        Some alias \<Rightarrow> (spn_node alias, spn_span alias)
      | None \<Rightarrow> (join_path (map spn_node (wp_segments path)), path_span path))"

definition entries :: "Stmt \<Rightarrow> (SymbolKind \<times> utext \<times> Span) list" where
  "entries s =
     (case s of
        S_FunctionDef _ name _ _ _ _ _ \<Rightarrow> [(SK_Function, spn_node name, spn_span name)]
      | S_Assign target _ _ \<Rightarrow> map (Pair SK_Variable) (target_names target)
      | S_AnnAssign target _ _ \<Rightarrow> map (Pair SK_Variable) (target_names target)
      | S_MutAssign target _ _ \<Rightarrow> map (Pair SK_Variable) (target_names target)
      | S_Declare target _ \<Rightarrow> map (Pair SK_Variable) (target_names target)
      | S_LoadFrom target _ _ \<Rightarrow> map (Pair SK_Variable) (target_names target)
      | S_Param name _ _ _ \<Rightarrow> [(SK_Variable, spn_node name, spn_span name)]
      | S_Import path _ alias _ \<Rightarrow> [(SK_Module, module_entry path alias)]
      | S_Run path _ alias _ _ \<Rightarrow> [(SK_Module, module_entry path alias)]
      | _ \<Rightarrow> [])"

definition is_function :: "Stmt \<Rightarrow> bool" where
  "is_function s = (case s of S_FunctionDef _ _ _ _ _ _ _ \<Rightarrow> True | _ \<Rightarrow> False)"

definition nested_functions :: "Stmt \<Rightarrow> Stmt Spanned list" where
  "nested_functions s =
     (case s of S_FunctionDef _ _ _ _ _ _ body \<Rightarrow> filter (\<lambda>i. is_function (spn_node i)) body | _ \<Rightarrow> [])"

lemma nested_functions_size: "i \<in> set (nested_functions s) \<Longrightarrow> size_Spanned size i < size s"
  by (cases s) (auto simp: nested_functions_def dest!: size_member [where f = "size_Spanned (size :: Stmt \<Rightarrow> nat)"])

function outline :: "Stmt Spanned \<Rightarrow> Outline list" where
  "outline (Spanned sp s) =
     (case s of
        S_Pub _ inner \<Rightarrow> outline inner
      | _ \<Rightarrow> map (\<lambda>(kind, name, _). Outline kind name (concat (map outline (nested_functions s)))) (entries s))"
  by pat_completeness auto
termination
  by (relation "measure (size_Spanned size)") (auto dest: nested_functions_size)

declare outline.simps [simp del]

subsection \<open>The entries are the outline\<close>

definition span_within :: "Span \<Rightarrow> Span \<Rightarrow> bool" where
  "span_within s r \<longleftrightarrow> sp_start r \<le> sp_start s \<and> sp_end s \<le> sp_end r"

text \<open>
  The promise of the grammar: the span of a statement holds those of the statements in it and those of
  the names it gives; a path has segments, all of one file.
\<close>

definition has_path :: "Stmt \<Rightarrow> WrittenPath option" where
  "has_path s = (case s of S_Import path _ None _ \<Rightarrow> Some path | S_Run path _ None _ _ \<Rightarrow> Some path | _ \<Rightarrow> None)"

definition names_nest :: "(Token \<times> Span) list \<Rightarrow> Span \<Rightarrow> Stmt Spanned \<Rightarrow> bool" where
  "names_nest toks eoi t \<longleftrightarrow>
     (\<forall>i \<in> set (inner_stmts (spn_node t)). span_within (spn_span i) (spn_span t)) \<and>
     (\<forall>(_, _, n) \<in> set (entries (spn_node t)).
        span_within n (spn_span t) \<and> sp_start n \<in> token_edges toks eoi \<and> sp_end n \<in> token_edges toks eoi) \<and>
     (\<forall>path \<in> set_option (has_path (spn_node t)).
        wp_segments path \<noteq> [] \<and> (\<forall>n \<in> set (wp_segments path). sp_file (spn_span n) = sp_file eoi))"

definition grammar_name_spans :: "Stmt Spanned list grammar \<Rightarrow> bool" where
  "grammar_name_spans g \<longleftrightarrow>
     (\<forall>toks eoi body errs. g toks eoi = (Some body, errs) \<longrightarrow> sp_start eoi \<le> sp_end eoi \<longrightarrow>
        (\<forall>s \<in> set body. \<forall>t. substmt s t \<longrightarrow> names_nest toks eoi t))"

text \<open>What it gives for the statements of a document.\<close>

definition named_in_text :: "Document \<Rightarrow> Stmt Spanned \<Rightarrow> bool" where
  "named_in_text d t \<longleftrightarrow>
     text_span (doc_text d) (spn_span t) \<and>
     (\<forall>i \<in> set (inner_stmts (spn_node t)). span_within (spn_span i) (spn_span t)) \<and>
     (\<forall>(_, _, n) \<in> set (entries (spn_node t)). span_within n (spn_span t) \<and> boundary_span (doc_text d) n) \<and>
     (\<forall>path \<in> set_option (has_path (spn_node t)). \<forall>dbg. written_span dbg path = Inr (path_span path))"

lemma reads_fold_map:
  assumes "\<And>x out. x \<in> set xs \<Longrightarrow> reads fe d (f x out) (\<lambda>out'. g out' = g out @ h x)"
  shows "reads fe d (doc_fold f xs out) (\<lambda>out'. g out' = g out @ concat (map h xs))"
  using assms
proof (induction xs arbitrary: out)
  case (Cons x xs)
  have "reads fe d (doc_bind (f x out) (doc_fold f xs)) (\<lambda>out'. g out' = g out @ h x @ concat (map h xs))"
  proof (rule reads_bind [OF Cons.prems [of x out]])
    fix a assume "g a = g out @ h x"
    then show "reads fe d (doc_fold f xs a) (\<lambda>out'. g out' = g out @ h x @ concat (map h xs))"
      using Cons.IH [of a] Cons.prems by simp
  qed simp
  then show ?case by simp
qed (simp add: reads_return)

lemma reads_symbol:
  assumes "logos_lexer (fr_next_tok fe)" "text_span (doc_text d) rg" "boundary_span (doc_text d) n" "span_within n rg"
  shows "reads fe d (symbol fe name kind rg n) (\<lambda>s. \<exists>r sel. s = DocumentSymbol name kind r sel None)"
proof -
  have "reads fe d (trim_end fe rg) (text_span (doc_text d))"
    unfolding trim_end_def
    by (rule reads_bind [OF reads_content_end [OF assms(1,2)]], rule reads_return)
      (use assms(2) in \<open>auto simp: text_span_def\<close>)
  moreover have "reads fe d (doc_res (\<lambda>d. bind_res (Document_range d trimmed) (\<lambda>r.
      map_ok (\<lambda>sel. DocumentSymbol name kind r sel None) (Document_range d n))))
      (\<lambda>s. \<exists>r sel. s = DocumentSymbol name kind r sel None)" if tr: "text_span (doc_text d) trimmed" for trimmed
  proof (rule reads_res)
    fix d' assume d': "doc_ok fe d'" "same_doc d d'"
    then obtain r sel where "Document_range d' trimmed = Inr r" "Document_range d' n = Inr sel"
      using Document_range_total [of fe d' trimmed] boundary_range [of fe d' n] tr assms(3)
      by (auto simp: same_doc_def)
    then show "\<exists>a. bind_res (Document_range d' trimmed) (\<lambda>r. map_ok (\<lambda>sel. DocumentSymbol name kind r sel None)
        (Document_range d' n)) = Inr a \<and> (\<exists>r sel. a = DocumentSymbol name kind r sel None)" by simp
  qed
  ultimately have "reads fe d (doc_bind (trim_end fe rg) (\<lambda>trimmed. doc_res (\<lambda>d. bind_res (Document_range d trimmed) (\<lambda>r.
      map_ok (\<lambda>sel. DocumentSymbol name kind r sel None) (Document_range d n)))))
      (\<lambda>s. \<exists>r sel. s = DocumentSymbol name kind r sel None)" by (rule reads_bind)
  then show ?thesis using assms(4) by (simp add: symbol_def span_within_def)
qed

lemma reads_push_symbol:
  assumes "reads fe d m (\<lambda>s. \<exists>r sel. s = DocumentSymbol name kind r sel None)"
  shows "reads fe d (doc_bind m (\<lambda>s. doc_return (out @ [s])))
    (\<lambda>out'. map erase out' = map erase out @ [Outline kind name []])"
  by (rule reads_bind [OF assms], rule reads_return) auto

lemma reads_bound_symbols:
  assumes "logos_lexer (fr_next_tok fe)" "text_span (doc_text d) rg"
    "\<forall>(_, n) \<in> set (target_names target). boundary_span (doc_text d) n \<and> span_within n rg"
  shows "reads fe d (bound_symbols fe target rg out)
    (\<lambda>out'. map erase out' = map erase out @ map (\<lambda>(name, _). Outline SK_Variable name []) (target_names target))"
  using assms(3)
proof (induction target arbitrary: out rule: target_names.induct)
  case (1 sp name)
  then show ?case using reads_push_symbol [OF reads_symbol [OF assms(1,2)]] by simp
next
  case (2 sp parts)
  have "reads fe d (doc_fold (\<lambda>part out. bound_symbols fe part rg out) parts out)
    (\<lambda>out'. map erase out' = map erase out @
      concat (map (\<lambda>p. map (\<lambda>(name, _). Outline SK_Variable name []) (target_names p)) parts))"
    by (rule reads_fold_map) (use 2 in auto)
  then show ?case by (simp add: map_concat comp_def)
next
  case (3 sp pat)
  let ?bs = "case cp_binders pat of None \<Rightarrow> [] | Some binders \<Rightarrow> binders"
  let ?h = "\<lambda>b. case spn_node b of None \<Rightarrow> [] | Some name \<Rightarrow> [(name, spn_span b)]"
  have "reads fe d (doc_fold (\<lambda>binder out.
         case spn_node binder of
           None \<Rightarrow> doc_return out
         | Some name \<Rightarrow> doc_bind (symbol fe name SK_Variable rg (spn_span binder)) (\<lambda>s. doc_return (out @ [s]))) ?bs out)
    (\<lambda>out'. map erase out' = map erase out @
      concat (map (\<lambda>b. map (\<lambda>(name, _). Outline SK_Variable name []) (?h b)) ?bs))"
  proof (rule reads_fold_map)
    fix b out assume b: "b \<in> set ?bs"
    show "reads fe d (case spn_node b of None \<Rightarrow> doc_return out
        | Some name \<Rightarrow> doc_bind (symbol fe name SK_Variable rg (spn_span b)) (\<lambda>s. doc_return (out @ [s])))
      (\<lambda>out'. map erase out' = map erase out @ map (\<lambda>(name, _). Outline SK_Variable name []) (?h b))"
    proof (cases "spn_node b")
      case (Some name)
      then have "boundary_span (doc_text d) (spn_span b) \<and> span_within (spn_span b) rg" using b 3 by force
      then show ?thesis using Some reads_push_symbol [OF reads_symbol [OF assms(1,2)]] by simp
    qed (simp add: reads_return)
  qed
  then show ?case by (simp add: map_concat comp_def)
qed (simp_all add: reads_return)

definition named_below :: "Document \<Rightarrow> Stmt Spanned \<Rightarrow> bool" where
  "named_below d s \<longleftrightarrow> (\<forall>t. substmt s t \<longrightarrow> named_in_text d t)"

lemma named_here: "named_below d s \<Longrightarrow> named_in_text d s"
  using substmt.here by (auto simp: named_below_def)

lemma named_inner: "named_below d s \<Longrightarrow> i \<in> set (inner_stmts (spn_node s)) \<Longrightarrow> named_below d i"
  using substmt.below by (auto simp: named_below_def)

lemma function_symbol_other: "\<not> is_function s \<Longrightarrow> function_symbol fe (Spanned sp s) rg = doc_return None"
  by (cases s) (simp_all add: is_function_def)

lemma span_within_trans: "span_within a b \<Longrightarrow> span_within b c \<Longrightarrow> span_within a c"
  by (auto simp: span_within_def)

lemma concat_filter: "concat (map (\<lambda>i. if P i then f i else []) xs) = concat (map f (filter P xs))"
  by (induction xs) auto

lemma reads_function_symbol:
  assumes "logos_lexer (fr_next_tok fe)" "named_below d stmt" "text_span (doc_text d) rg"
    "span_within (spn_span stmt) rg"
  shows "reads fe d (function_symbol fe stmt rg)
    (\<lambda>s. map erase (extend_with [] s) = (if is_function (spn_node stmt) then outline stmt else []))"
  using assms(2-4)
proof (induction "size_Spanned size stmt" arbitrary: stmt rg rule: less_induct)
  case less
  obtain sp s where stmt: "stmt = Spanned sp s" by (cases stmt)
  show ?case
  proof (cases "is_function s")
    case False
    then show ?thesis by (simp add: stmt function_symbol_other reads_return extend_with_def)
  next
    case True
    then obtain w name tps ps outp reqs body where s: "s = S_FunctionDef w name tps ps outp reqs body"
      by (cases s) (auto simp: is_function_def)
    let ?rec = "\<lambda>inner. function_symbol fe inner (spn_span inner)"
    have rec: "reads fe d (?rec i) (\<lambda>r. map erase (extend_with [] r) = (if is_function (spn_node i) then outline i else []))"
      if "i \<in> set body" for i
    proof -
      have i: "i \<in> set (inner_stmts (spn_node stmt))" using that by (simp add: stmt s inner_stmts_def)
      have "text_span (doc_text d) (spn_span i)"
        using named_here [OF named_inner [OF less.prems(1) i]] by (simp add: named_in_text_def)
      moreover have "size_Spanned size i < size_Spanned size stmt" using inner_stmts_size [of i s] i by (simp add: stmt)
      ultimately show ?thesis using less.hyps [OF _ named_inner [OF less.prems(1) i]] by (simp add: span_within_def)
    qed
    have "reads fe d (child_symbols ?rec body)
      (\<lambda>cs. map erase cs = map erase [] @ concat (map (\<lambda>i. if is_function (spn_node i) then outline i else []) body))"
      unfolding child_symbols_def
    proof (rule reads_fold_map)
      fix i out assume "i \<in> set body"
      then show "reads fe d (doc_bind (?rec i) (\<lambda>s. doc_return (extend_with out s)))
        (\<lambda>out'. map erase out' = map erase out @ (if is_function (spn_node i) then outline i else []))"
        by (intro reads_bind [OF rec] reads_return) (auto simp: extend_with_def)
    qed
    then have kids: "reads fe d (child_symbols ?rec body)
      (\<lambda>cs. map erase cs = concat (map outline (nested_functions s)))"
      by (simp add: concat_filter nested_functions_def s)
    have "span_within (spn_span name) rg" "boundary_span (doc_text d) (spn_span name)"
      using named_here [OF less.prems(1)] span_within_trans less.prems(3)
      by (auto simp: named_in_text_def stmt s entries_def)
    from reads_symbol [OF assms(1) less.prems(2) this(2,1)] have
      sym: "reads fe d (symbol fe (spn_node name) SK_Function rg (spn_span name))
        (\<lambda>s. \<exists>r sel. s = DocumentSymbol (spn_node name) SK_Function r sel None)" .
    have outl: "outline stmt = [Outline SK_Function (spn_node name) (concat (map outline (nested_functions s)))]"
      by (simp add: stmt outline.simps s entries_def)
    show ?thesis unfolding stmt s function_symbol.simps
      by (intro reads_bind [OF kids] reads_bind [OF sym] reads_return)
        (auto simp: extend_with_def outl [unfolded stmt s] s is_function_def)
  qed
qed

lemma reads_module_symbol:
  assumes "logos_lexer (fr_next_tok fe)" "text_span (doc_text d) rg" "module_entry path alias = (name, n)"
    "boundary_span (doc_text d) n" "span_within n rg"
    "alias = None \<Longrightarrow> written_span (fr_dbg fe) path = Inr (path_span path)"
  shows "reads fe d (module_symbol fe path alias rg) (\<lambda>s. \<exists>r sel. s = DocumentSymbol name SK_Module r sel None)"
proof (cases "alias")
  case (Some a)
  then show ?thesis using reads_symbol [OF assms(1,2,4,5)] assms(3) by (simp add: module_symbol_def module_entry_def)
next
  case None
  have "reads fe d (doc_res (\<lambda>_. written_span (fr_dbg fe) path)) (\<lambda>s. s = n)"
    by (rule reads_res) (use None assms(3,6) in \<open>simp add: module_entry_def\<close>)
  then show ?thesis using None assms(3) reads_symbol [OF assms(1,2,4,5), of name SK_Module]
    by (auto simp: module_symbol_def module_entry_def elim!: reads_bind)
qed

lemma reads_top_level:
  assumes "logos_lexer (fr_next_tok fe)" "named_below d stmt" "text_span (doc_text d) rg"
    "span_within (spn_span stmt) rg"
  shows "reads fe d (top_level fe stmt rg out) (\<lambda>out'. map erase out' = map erase out @ outline stmt)"
  using assms(2-4)
proof (induction "size_Spanned size stmt" arbitrary: stmt rule: less_induct)
  case less
  obtain sp s where stmt: "stmt = Spanned sp s" by (cases stmt)
  have named: "span_within n rg" "boundary_span (doc_text d) n" if "(k, name, n) \<in> set (entries s)" for k name n
    using named_here [OF less.prems(1)] span_within_trans [OF _ less.prems(3)] that
    by (auto simp: named_in_text_def stmt)
  have bound: "reads fe d (bound_symbols fe target rg out)
      (\<lambda>out'. map erase out' = map erase out @ map (\<lambda>(k, name, _). Outline k name []) (entries s))"
    if e: "entries s = map (Pair SK_Variable) (target_names target)" for target
  proof -
    have "\<forall>(_, n) \<in> set (target_names target). boundary_span (doc_text d) n \<and> span_within n rg"
      using named [of SK_Variable] by (force simp: e)
    from reads_bound_symbols [OF assms(1) less.prems(2) this, of out] show ?thesis
      by (simp add: e comp_def case_prod_unfold)
  qed
  have path: "written_span dbg p = Inr (path_span p)" if "has_path s = Some p" for p dbg
    using named_here [OF less.prems(1)] that by (auto simp: named_in_text_def stmt)
  have module: "reads fe d (doc_bind (module_symbol fe p a rg) (\<lambda>s. doc_return (out @ [s])))
      (\<lambda>out'. map erase out' = map erase out @ map (\<lambda>(k, name, _). Outline k name []) (entries s))"
    if e: "entries s = [(SK_Module, module_entry p a)]" and h: "a = None \<Longrightarrow> has_path s = Some p" for p a
  proof -
    obtain name n where m: "module_entry p a = (name, n)" by (cases "module_entry p a")
    show ?thesis using e m named [of SK_Module name n] h path
      by (intro reads_mono [OF reads_push_symbol [OF reads_module_symbol [OF assms(1) less.prems(2) m]]]) auto
  qed
  show ?case
  proof (cases s)
    case (S_Pub x inner)
    have i: "inner \<in> set (inner_stmts (spn_node stmt))" by (simp add: stmt S_Pub inner_stmts_def)
    have "span_within (spn_span inner) rg"
      using named_here [OF less.prems(1)] i span_within_trans less.prems(3) by (auto simp: named_in_text_def)
    moreover have "size_Spanned size inner < size_Spanned size stmt" by (simp add: stmt S_Pub)
    ultimately show ?thesis using less.hyps [OF _ named_inner [OF less.prems(1) i] less.prems(2)]
      by (simp add: stmt S_Pub top_level.simps outline.simps)
  next
    case (S_FunctionDef a b c e f g h)
    have fs: "reads fe d (function_symbol fe stmt rg) (\<lambda>r. map erase (extend_with [] r) = outline stmt)"
      using reads_function_symbol [OF assms(1) less.prems] by (simp add: stmt S_FunctionDef is_function_def)
    have "reads fe d (doc_bind (function_symbol fe stmt rg) (\<lambda>f. doc_return (extend_with out f)))
      (\<lambda>out'. map erase out' = map erase out @ outline stmt)"
      by (intro reads_bind [OF fs] reads_return) (auto simp: extend_with_def)
    then show ?thesis by (simp add: stmt S_FunctionDef top_level.simps)
  next
    case (S_Param name b c e)
    then show ?thesis
      using named [of SK_Variable "spn_node name" "spn_span name"] reads_push_symbol [OF reads_symbol [OF assms(1) less.prems(2)]]
      by (simp add: stmt top_level.simps outline.simps entries_def nested_functions_def)
  qed (use bound module in \<open>auto simp: stmt top_level.simps outline.simps entries_def nested_functions_def
      has_path_def reads_return comp_def case_prod_beta\<close>)
qed

lemma parsed_names:
  assumes "logos_lexer (fr_next_tok fe)" "grammar_stmt_spans (fr_grammar fe)" "grammar_name_spans (fr_grammar fe)"
    "parsed_as fe d r" "pr_value r = Some m" "s \<in> set (md_body m)"
  shows "named_below d s"
  unfolding named_below_def
proof (intro allI impI)
  fix t assume t: "substmt s t"
  let ?eoi = "Span_new FileId_ROOT (str_len (doc_text d)) (str_len (doc_text d))"
  obtain lx where lx: "lexed_as fe d lx" using lexes [OF assms(1)] by blast
  obtain errs where g: "fr_grammar fe (lx_tokens lx) ?eoi = (Some (md_body m), errs)"
    using assms(4,5) lx by (auto simp: lexed_as_def parsed_as_def parse_module_def parse_with_def split: prod.splits)
  have n: "names_nest (lx_tokens lx) ?eoi t"
    using assms(3) g assms(6) t unfolding grammar_name_spans_def by (metis Span_new_sel(2,3) order_refl)
  have "text_span (doc_text d) (spn_span t)"
    using parsed_stmts [OF assms(1,2) lx assms(4-6)] t by (simp add: in_text_below_def)
  moreover have "written_span dbg p = Inr (path_span p)" if "has_path (spn_node t) = Some p" for p dbg
    using n that by (auto simp: names_nest_def written_span_def Span_join_def path_span_def Let_def)
  ultimately show "named_in_text d t"
    using n token_edge_boundary [OF assms(1) lx]
    by (fastforce simp: names_nest_def named_in_text_def boundary_span_def)
qed

lemma reads_document_symbols:
  assumes "logos_lexer (fr_next_tok fe)" "grammar_stmt_spans (fr_grammar fe)" "grammar_name_spans (fr_grammar fe)"
  shows "reads fe d (document_symbols fe) (\<lambda>syms. \<exists>r. parsed_as fe d r \<and>
    map erase syms = (case pr_value r of None \<Rightarrow> [] | Some m \<Rightarrow> concat (map outline (md_body m))))"
  unfolding document_symbols_def
proof (rule reads_bind [OF reads_parsed [OF assms(1)]])
  fix r assume r: "parsed_as fe d r"
  show "reads fe d (case pr_value r of None \<Rightarrow> doc_return []
       | Some m \<Rightarrow> doc_fold (\<lambda>stmt out. top_level fe stmt (spn_span stmt) out) (md_body m) [])
     (\<lambda>syms. \<exists>r. parsed_as fe d r \<and>
        map erase syms = (case pr_value r of None \<Rightarrow> [] | Some m \<Rightarrow> concat (map outline (md_body m))))"
  proof (cases "pr_value r")
    case None
    then show ?thesis using r by (auto intro!: reads_return)
  next
    case (Some m)
    have "reads fe d (doc_fold (\<lambda>stmt out. top_level fe stmt (spn_span stmt) out) (md_body m) [])
        (\<lambda>syms. map erase syms = map erase [] @ concat (map outline (md_body m)))"
    proof (rule reads_fold_map)
      fix s out assume "s \<in> set (md_body m)"
      from parsed_names [OF assms r Some this] have s: "named_below d s" .
      then have "text_span (doc_text d) (spn_span s)" using named_here by (auto simp: named_in_text_def)
      from reads_top_level [OF assms(1) s this]
      show "reads fe d (top_level fe s (spn_span s) out) (\<lambda>out'. map erase out' = map erase out @ outline s)"
        by (simp add: span_within_def)
    qed
    then show ?thesis using r Some by (auto elim!: reads_mono)
  qed
qed

subsection \<open>Properties\<close>


text \<open>A grammar that reads its first token as a parameter.\<close>

definition param_parser :: "Stmt Spanned list grammar" where
  "param_parser toks eoi =
     (case toks of
        [] \<Rightarrow> (None, [])
      | (tok, a) # _ \<Rightarrow>
          if sp_start a \<le> sp_end a
          then (Some [Spanned a (S_Param (Spanned a (Token_display tok)) None None None)], []) else (None, []))"

definition param_front :: Front where
  "param_front = sample_front\<lparr>fr_grammar := param_parser\<rparr>"

lemma param_parser_body:
  assumes "param_parser toks eoi = (Some body, errs)"
  shows "\<exists>tok a rest. toks = (tok, a) # rest \<and> sp_start a \<le> sp_end a \<and>
    body = [Spanned a (S_Param (Spanned a (Token_display tok)) None None None)]"
  using assms unfolding param_parser_def by (auto split: list.splits prod.splits if_splits)

lemma substmt_leaf: "inner_stmts (spn_node s) = [] \<Longrightarrow> substmt s t \<Longrightarrow> t = s"
  by (auto elim: substmt.cases)

lemma param_front_spans:
  "grammar_stmt_spans (fr_grammar param_front)" "grammar_name_spans (fr_grammar param_front)"
proof -
  have leaf: "inner_stmts (S_Param t u v w) = []" for t u v w
    by (simp add: inner_stmts_def right_block_def)
  show "grammar_stmt_spans (fr_grammar param_front)"
    unfolding grammar_stmt_spans_def param_front_def
    by (auto dest!: param_parser_body substmt_leaf [rotated] simp: leaf edge_span_def token_edges_def)
  show "grammar_name_spans (fr_grammar param_front)"
    unfolding grammar_name_spans_def param_front_def
    by (auto dest!: param_parser_body substmt_leaf [rotated]
        simp: leaf names_nest_def entries_def has_path_def span_within_def token_edges_def)
qed


end
