(* ===== verification/Lsp_Server.thy ===== *)
theory Lsp_Server
  imports Lsp_Symbols
begin

section \<open>The language server\<close>

text \<open>
  \<open>cambra-lsp/src/server.rs\<close>: the session's state, the handlers of requests and notifications, and the
  loop over batches of messages. The connection and the decoding of JSON are not the server's code: the
  record \<open>Wire\<close> holds what \<open>serde_json::from_value\<close> makes of the parameters of each message, with the
  text of its error, and whether the connection takes a message after those it has taken. A handler is a
  \<open>serving\<close>: it takes the server and returns it with the messages it has sent, and the error that ends
  the session when the connection refuses one. The open documents are a map from the URIs the client sent.
\<close>

subsection \<open>Messages\<close>

datatype RequestId = RI_Int int | RI_String utext

datatype 'j LspMessage =
    M_Request RequestId utext 'j
  | M_Notification utext 'j
  | M_Response

datatype ErrorCode = EC_RequestCanceled | EC_InvalidRequest | EC_MethodNotFound | EC_InvalidParams

datatype MessageType = MT_Error | MT_Warning

datatype LspResult =
    LR_Unit
  | LR_Symbols "DocumentSymbol list option"
  | LR_Folds "FoldingRange list option"

datatype Sent =
    Sent_Ok RequestId LspResult
  | Sent_Err RequestId ErrorCode utext
  | Sent_Publish utext "32 word option" "Diagnostic list"
  | Sent_Log MessageType utext

datatype Ended = Ended_Shutdown | Ended_WithoutShutdown

record 'j Wire =
  w_cancel :: "'j \<Rightarrow> RequestId option"
  w_open :: "'j \<Rightarrow> utext + utext \<times> utext \<times> 32 word"
  w_change :: "'j \<Rightarrow> utext + utext \<times> 32 word \<times> ContentChange list"
  w_close :: "'j \<Rightarrow> utext + utext"
  w_symbols :: "'j \<Rightarrow> utext + utext"
  w_folding :: "'j \<Rightarrow> utext + utext"
  w_accepts :: "Sent list \<Rightarrow> Sent \<Rightarrow> bool"

text \<open>The method names of the protocol.\<close>

definition CANCEL :: utext where "CANCEL = lit ''$/cancelRequest''"
definition EXIT :: utext where "EXIT = lit ''exit''"
definition SHUTDOWN :: utext where "SHUTDOWN = lit ''shutdown''"
definition DOCUMENT_SYMBOL :: utext where "DOCUMENT_SYMBOL = lit ''textDocument/documentSymbol''"
definition FOLDING_RANGE :: utext where "FOLDING_RANGE = lit ''textDocument/foldingRange''"
definition DID_OPEN :: utext where "DID_OPEN = lit ''textDocument/didOpen''"
definition DID_CHANGE :: utext where "DID_CHANGE = lit ''textDocument/didChange''"
definition DID_CLOSE :: utext where "DID_CLOSE = lit ''textDocument/didClose''"

subsection \<open>State\<close>

record Server =
  sv_encoding :: Encoding
  sv_documents :: "utext \<rightharpoonup> Document"
  sv_shutdown_requested :: bool
  sv_sent :: "Sent list"

datatype LspError = Disconnected

type_synonym 'a serving = "Server \<Rightarrow> ((LspError + 'a) \<times> Server) res option"

definition sv_return :: "'a \<Rightarrow> 'a serving" where
  "sv_return a = (\<lambda>s. Some (Inr (Inr a, s)))"

definition sv_bind :: "'a serving \<Rightarrow> ('a \<Rightarrow> 'b serving) \<Rightarrow> 'b serving" where
  "sv_bind m f = (\<lambda>s. bind_run (m s) (\<lambda>(r, s).
     case r of Inl e \<Rightarrow> Some (Inr (Inl e, s)) | Inr a \<Rightarrow> f a s))"

definition sv_update :: "(Server \<Rightarrow> Server) \<Rightarrow> unit serving" where
  "sv_update f = (\<lambda>s. Some (Inr (Inr (), f s)))"

definition send :: "'j Wire \<Rightarrow> Sent \<Rightarrow> unit serving" where
  "send w msg = (\<lambda>s.
     if w_accepts w (sv_sent s) msg then Some (Inr (Inr (), s\<lparr>sv_sent := sv_sent s @ [msg]\<rparr>))
     else Some (Inr (Inl Disconnected, s)))"

definition respond_err :: "'j Wire \<Rightarrow> RequestId \<Rightarrow> ErrorCode \<Rightarrow> utext \<Rightarrow> unit serving" where
  "respond_err w i code msg = send w (Sent_Err i code msg)"

text \<open>\<open>documents.get(uri).map(..)\<close> with a reading, which may fill the document's cells.\<close>

definition with_document :: "utext \<Rightarrow> 'a reading \<Rightarrow> 'a option serving" where
  "with_document uri m = (\<lambda>s.
     case sv_documents s uri of
       None \<Rightarrow> Some (Inr (Inr None, s))
     | Some d \<Rightarrow>
         bind_run (m d) (\<lambda>(a, d). Some (Inr (Inr (Some a), s\<lparr>sv_documents := (sv_documents s)(uri \<mapsto> d)\<rparr>))))"

subsection \<open>Requests\<close>

definition request :: "'j Wire \<Rightarrow> Front \<Rightarrow> RequestId \<Rightarrow> utext \<Rightarrow> 'j \<Rightarrow> unit serving" where
  "request w fe i meth params = (\<lambda>s.
     if sv_shutdown_requested s then respond_err w i EC_InvalidRequest (lit ''the server is shutting down'') s
     else if meth = SHUTDOWN then
       sv_bind (sv_update (\<lambda>s. s\<lparr>sv_shutdown_requested := True\<rparr>)) (\<lambda>_. send w (Sent_Ok i LR_Unit)) s
     else if meth = DOCUMENT_SYMBOL then
       (case w_symbols w params of
          Inl e \<Rightarrow> respond_err w i EC_InvalidParams e s
        | Inr uri \<Rightarrow>
            sv_bind (with_document uri (document_symbols fe)) (\<lambda>r. send w (Sent_Ok i (LR_Symbols r))) s)
     else if meth = FOLDING_RANGE then
       (case w_folding w params of
          Inl e \<Rightarrow> respond_err w i EC_InvalidParams e s
        | Inr uri \<Rightarrow>
            sv_bind (with_document uri (folding_ranges fe)) (\<lambda>r. send w (Sent_Ok i (LR_Folds r))) s)
     else respond_err w i EC_MethodNotFound (lit ''cambra-lsp does not handle '' @ meth) s)"

subsection \<open>Notifications\<close>

definition mark_changed :: "utext list \<Rightarrow> utext \<Rightarrow> utext list" where
  "mark_changed changed uri = (if uri \<in> set changed then changed else changed @ [uri])"

text \<open>\<open>params\<close>: what to do with the parameters, or \<open>changed\<close> as it is after logging their error.\<close>

definition params_or_log ::
  "'j Wire \<Rightarrow> utext \<Rightarrow> utext list \<Rightarrow> (utext + 'p) \<Rightarrow> ('p \<Rightarrow> utext list serving) \<Rightarrow> utext list serving" where
  "params_or_log w meth changed parsed f =
     (case parsed of
        Inl e \<Rightarrow>
          sv_bind (send w (Sent_Log MT_Error (lit ''malformed '' @ meth @ lit '': '' @ e))) (\<lambda>_. sv_return changed)
      | Inr p \<Rightarrow> f p)"

definition did_open :: "'j Wire \<Rightarrow> utext list \<Rightarrow> utext \<times> utext \<times> 32 word \<Rightarrow> utext list serving" where
  "did_open w changed item = (\<lambda>s.
     case item of (uri, t, version) \<Rightarrow>
       sv_bind (if sv_documents s uri \<noteq> None then send w (Sent_Log MT_Warning (uri @ lit '' was opened twice''))
                else sv_return ()) (\<lambda>_.
       sv_bind (sv_update (\<lambda>s. s\<lparr>sv_documents :=
           (sv_documents s)(uri \<mapsto> Document_new t version (sv_encoding s))\<rparr>)) (\<lambda>_.
         sv_return (mark_changed changed uri))) s)"

text \<open>The loop over the edits, with the reasons of those refused.\<close>

fun apply_changes :: "Front \<Rightarrow> ContentChange list \<Rightarrow> Document \<Rightarrow> utext list \<Rightarrow> (utext list \<times> Document) res" where
  "apply_changes fe [] d skipped = Inr (skipped, d)"
| "apply_changes fe (c # cs) d skipped =
     bind_res (Document_apply fe c d) (\<lambda>(r, d).
       apply_changes fe cs d (case r of Inl why \<Rightarrow> skipped @ [why] | Inr _ \<Rightarrow> skipped))"

definition skipped_message :: "utext \<Rightarrow> utext \<Rightarrow> utext" where
  "skipped_message uri why =
     lit ''skipped an edit to '' @ uri @ lit '', so the server'' @ [39] @ lit ''s text now differs from the editor'' @
     [39] @ lit ''s: '' @ why"

fun log_skipped :: "'j Wire \<Rightarrow> utext \<Rightarrow> utext list \<Rightarrow> unit serving" where
  "log_skipped w uri [] = sv_return ()"
| "log_skipped w uri (why # rest) =
     sv_bind (send w (Sent_Log MT_Error (skipped_message uri why))) (\<lambda>_. log_skipped w uri rest)"

definition did_change ::
  "'j Wire \<Rightarrow> Front \<Rightarrow> utext list \<Rightarrow> utext \<times> 32 word \<times> ContentChange list \<Rightarrow> utext list serving" where
  "did_change w fe changed p = (\<lambda>s.
     case p of (uri, version, edits) \<Rightarrow>
       (case sv_documents s uri of
          None \<Rightarrow>
            sv_bind (send w (Sent_Log MT_Warning (uri @ lit '' changed but is not open''))) (\<lambda>_. sv_return changed) s
        | Some d \<Rightarrow>
            (case apply_changes fe edits d [] of
               Inl panic \<Rightarrow> Some (Inl panic)
             | Inr (skipped, d) \<Rightarrow>
                 sv_bind (sv_update (\<lambda>s. s\<lparr>sv_documents := (sv_documents s)(uri \<mapsto> set_version version d)\<rparr>)) (\<lambda>_.
                 sv_bind (log_skipped w uri skipped) (\<lambda>_.
                   sv_return (mark_changed changed uri))) s)))"

definition did_close :: "'j Wire \<Rightarrow> utext list \<Rightarrow> utext \<Rightarrow> utext list serving" where
  "did_close w changed uri =
     sv_bind (sv_update (\<lambda>s. s\<lparr>sv_documents := (sv_documents s)(uri := None)\<rparr>)) (\<lambda>_.
     sv_bind (send w (Sent_Publish uri None [])) (\<lambda>_.
       sv_return (filter (\<lambda>other. other \<noteq> uri) changed)))"

definition notification :: "'j Wire \<Rightarrow> Front \<Rightarrow> utext \<Rightarrow> 'j \<Rightarrow> utext list \<Rightarrow> utext list serving" where
  "notification w fe meth params changed = (\<lambda>s.
     if sv_shutdown_requested s then sv_return changed s
     else if meth = DID_OPEN then params_or_log w meth changed (w_open w params) (did_open w changed) s
     else if meth = DID_CHANGE then params_or_log w meth changed (w_change w params) (did_change w fe changed) s
     else if meth = DID_CLOSE then params_or_log w meth changed (w_close w params) (did_close w changed) s
     else sv_return changed s)"

subsection \<open>Batches\<close>

definition cancelled_ids :: "'j Wire \<Rightarrow> 'j LspMessage list \<Rightarrow> RequestId list" where
  "cancelled_ids w batch =
     List.map_filter (\<lambda>m. case m of
         M_Notification meth params \<Rightarrow> if meth = CANCEL then w_cancel w params else None
       | _ \<Rightarrow> None) batch"

text \<open>The loop over the messages of a batch: how the session ended, or the documents changed.\<close>

fun handle :: "'j Wire \<Rightarrow> Front \<Rightarrow> RequestId list \<Rightarrow> 'j LspMessage list \<Rightarrow> utext list \<Rightarrow> (Ended + utext list) serving" where
  "handle w fe cancelled [] changed = sv_return (Inr changed)"
| "handle w fe cancelled (M_Request i meth params # rest) changed =
     sv_bind (if i \<in> set cancelled then respond_err w i EC_RequestCanceled (lit ''canceled'')
              else request w fe i meth params) (\<lambda>_. handle w fe cancelled rest changed)"
| "handle w fe cancelled (M_Notification meth params # rest) changed =
     (if meth = EXIT
      then (\<lambda>s. sv_return (Inl (if sv_shutdown_requested s then Ended_Shutdown else Ended_WithoutShutdown)) s)
      else sv_bind (notification w fe meth params changed) (\<lambda>changed. handle w fe cancelled rest changed))"
| "handle w fe cancelled (M_Response # rest) changed = handle w fe cancelled rest changed"

text \<open>The loop that publishes the diagnostics of the changed documents.\<close>

fun publish_changed :: "'j Wire \<Rightarrow> Front \<Rightarrow> utext list \<Rightarrow> unit serving" where
  "publish_changed w fe [] = sv_return ()"
| "publish_changed w fe (uri # rest) =
     sv_bind (with_document uri (\<lambda>d. bind_run (diagnostics fe uri d) (\<lambda>(ds, d). Some (Inr ((ds, doc_version d), d)))))
       (\<lambda>r. sv_bind (case r of
            None \<Rightarrow> sv_return ()
          | Some (ds, version) \<Rightarrow> send w (Sent_Publish uri (Some version) ds))
         (\<lambda>_. publish_changed w fe rest))"

definition batch :: "'j Wire \<Rightarrow> Front \<Rightarrow> 'j LspMessage list \<Rightarrow> Ended option serving" where
  "batch w fe messages =
     sv_bind (handle w fe (cancelled_ids w messages) messages []) (\<lambda>r.
       case r of
         Inl ended \<Rightarrow> sv_return (Some ended)
       | Inr changed \<Rightarrow> sv_bind (publish_changed w fe changed) (\<lambda>_. sv_return None))"

text \<open>\<open>run\<close> after the handshake: batches until one ends the session or the client closes the connection.\<close>

fun serve :: "'j Wire \<Rightarrow> Front \<Rightarrow> 'j LspMessage list list \<Rightarrow> Ended serving" where
  "serve w fe [] = sv_return Ended_WithoutShutdown"
| "serve w fe (messages # rest) =
     sv_bind (batch w fe messages) (\<lambda>ended.
       case ended of Some ended \<Rightarrow> sv_return ended | None \<Rightarrow> serve w fe rest)"

definition encoding :: "utext list option \<Rightarrow> Encoding" where
  "encoding offered =
     (case offered of
        Some encodings \<Rightarrow> if lit ''utf-8'' \<in> set encodings then Utf8 else Utf16
      | None \<Rightarrow> Utf16)"

definition Server_new :: "Encoding \<Rightarrow> Server" where
  "Server_new enc =
     \<lparr>sv_encoding = enc, sv_documents = Map.empty, sv_shutdown_requested = False, sv_sent = []\<rparr>"

definition run :: "'j Wire \<Rightarrow> Front \<Rightarrow> utext list option \<Rightarrow> 'j LspMessage list list \<Rightarrow> ((LspError + Ended) \<times> Server) res option" where
  "run w fe offered batches = serve w fe batches (Server_new (encoding offered))"

subsection \<open>Every message is handled\<close>

text \<open>
  What the handlers keep: every open document is one whose line table and cells are those of its text,
  in the encoding of the session. \<open>serves\<close> says that a handler returns, keeps this, and fails only when the
  connection refuses a message.
\<close>

definition server_ok :: "Front \<Rightarrow> Server \<Rightarrow> bool" where
  "server_ok fe s \<longleftrightarrow>
     (\<forall>uri d. sv_documents s uri = Some d \<longrightarrow> doc_ok fe d \<and> doc_encoding d = sv_encoding s)"

definition connected :: "'j Wire \<Rightarrow> bool" where
  "connected w \<longleftrightarrow> (\<forall>sent msg. w_accepts w sent msg)"

definition serves :: "'j Wire \<Rightarrow> Front \<Rightarrow> 'a serving \<Rightarrow> bool" where
  "serves w fe m \<longleftrightarrow>
     (\<forall>s. server_ok fe s \<longrightarrow>
        (\<exists>r s'. m s = Some (Inr (r, s')) \<and> server_ok fe s' \<and> (connected w \<longrightarrow> is_ok r)))"

definition front_ok :: "Front \<Rightarrow> bool" where
  "front_ok fe \<longleftrightarrow>
     logos_lexer (fr_next_tok fe) \<and> grammar_stmt_spans (fr_grammar fe) \<and> grammar_name_spans (fr_grammar fe) \<and>
     grammar_error_spans (fr_grammar fe)"

lemma sv_bind_update [simp]: "sv_bind (sv_update f) g s = g () (f s)"
  by (simp add: sv_bind_def sv_update_def)

lemma serves_return: "serves w fe (sv_return a)"
  by (simp add: serves_def sv_return_def)

lemma serves_bind:
  assumes "serves w fe m" "\<And>a. serves w fe (f a)"
  shows "serves w fe (sv_bind m f)"
  unfolding serves_def
proof (intro allI impI)
  fix s assume "server_ok fe s"
  then obtain r s1 where r: "m s = Some (Inr (r, s1))" "server_ok fe s1" "connected w \<longrightarrow> is_ok r"
    using assms(1) unfolding serves_def by blast
  show "\<exists>r s'. sv_bind m f s = Some (Inr (r, s')) \<and> server_ok fe s' \<and> (connected w \<longrightarrow> is_ok r)"
  proof (cases r)
    case (Inl e)
    then show ?thesis using r by (simp add: sv_bind_def)
  next
    case (Inr a)
    then show ?thesis using r assms(2) [of a] unfolding serves_def by (simp add: sv_bind_def)
  qed
qed

lemma serves_state:
  assumes "\<And>s. server_ok fe s \<Longrightarrow> \<exists>r s'. f s = Some (Inr (r, s')) \<and> server_ok fe s' \<and> (connected w \<longrightarrow> is_ok r)"
  shows "serves w fe f"
  using assms by (simp add: serves_def)

lemma servesD:
  "serves w fe m \<Longrightarrow> server_ok fe s \<Longrightarrow> \<exists>r s'. m s = Some (Inr (r, s')) \<and> server_ok fe s' \<and> (connected w \<longrightarrow> is_ok r)"
  by (simp add: serves_def)

lemma serves_update: "(\<And>s. server_ok fe s \<Longrightarrow> server_ok fe (f s)) \<Longrightarrow> serves w fe (sv_update f)"
  by (simp add: serves_def sv_update_def)

lemma serves_send: "serves w fe (send w msg)"
  by (auto simp: serves_def send_def connected_def server_ok_def)

lemma serves_with_document:
  assumes "\<And>d. \<exists>Q. reads fe d m Q"
  shows "serves w fe (with_document uri m)"
proof (rule serves_state)
  fix s assume s: "server_ok fe s"
  show "\<exists>r s'. with_document uri m s = Some (Inr (r, s')) \<and> server_ok fe s' \<and> (connected w \<longrightarrow> is_ok r)"
  proof (cases "sv_documents s uri")
    case None
    then show ?thesis using s by (simp add: with_document_def)
  next
    case (Some d)
    obtain Q where "reads fe d m Q" using assms by blast
    from readsD [OF this] Some s obtain a d' where "m d = Some (Inr (a, d'))" "doc_ok fe d'" "same_doc d d'"
      by (auto simp: server_ok_def)
    then show ?thesis using Some s by (auto simp: with_document_def server_ok_def same_doc_def)
  qed
qed

lemma reads_publish:
  assumes "front_ok fe"
  shows "reads fe d (\<lambda>d. bind_run (diagnostics fe uri d) (\<lambda>(ds, d). Some (Inr ((ds, doc_version d), d))))
    (\<lambda>(ds, v). v = doc_version d \<and> (\<exists>r. parsed_as fe d r \<and> list_all2 (diagnostic_of uri d) (pr_errors r) ds))"
  unfolding reads_def
proof (intro allI impI)
  fix d1 assume d1: "doc_ok fe d1" "same_doc d d1"
  from assms reads_diagnostics [of fe d uri] d1 obtain ds d2 where
    "diagnostics fe uri d1 = Some (Inr (ds, d2))" "doc_ok fe d2" "same_doc d d2"
    "\<exists>r. parsed_as fe d r \<and> list_all2 (diagnostic_of uri d) (pr_errors r) ds"
    unfolding reads_def front_ok_def by blast
  then show "\<exists>a d'. bind_run (diagnostics fe uri d1) (\<lambda>(ds, d). Some (Inr ((ds, doc_version d), d))) = Some (Inr (a, d')) \<and>
      doc_ok fe d' \<and> same_doc d d' \<and> (case a of (ds, v) \<Rightarrow> v = doc_version d \<and>
        (\<exists>r. parsed_as fe d r \<and> list_all2 (diagnostic_of uri d) (pr_errors r) ds))"
    by (simp add: same_doc_def)
qed

lemma apply_changes_ok:
  assumes "doc_ok fe d"
  shows "\<exists>skipped' d'. apply_changes fe cs d skipped = Inr (skipped', d') \<and> doc_ok fe d' \<and>
    doc_encoding d' = doc_encoding d"
  using assms
proof (induction cs arbitrary: d skipped)
  case (Cons c cs)
  obtain r d1 where "Document_apply fe c d = Inr (r, d1)" "doc_ok fe d1" "doc_encoding d1 = doc_encoding d"
    using apply_ok [OF Cons.prems] by blast
  with Cons.IH [OF this(2)] show ?case by simp
qed simp

text \<open>The ways a request is answered.\<close>

lemma request_cases:
  obtains (err) code t where "request w fe i meth params s = send w (Sent_Err i code t) s"
  | (shut) "request w fe i meth params s = send w (Sent_Ok i LR_Unit) (s\<lparr>sv_shutdown_requested := True\<rparr>)"
      "\<not> sv_shutdown_requested s"
  | (symbols) uri where "request w fe i meth params s =
      sv_bind (with_document uri (document_symbols fe)) (\<lambda>r. send w (Sent_Ok i (LR_Symbols r))) s"
      "\<not> sv_shutdown_requested s"
  | (folds) uri where "request w fe i meth params s =
      sv_bind (with_document uri (folding_ranges fe)) (\<lambda>r. send w (Sent_Ok i (LR_Folds r))) s"
      "\<not> sv_shutdown_requested s"
proof (cases "sv_shutdown_requested s")
  case True
  then show thesis using err by (simp add: request_def respond_err_def)
next
  case False
  consider "meth = SHUTDOWN" | "meth \<noteq> SHUTDOWN" "meth = DOCUMENT_SYMBOL"
    | "meth \<noteq> SHUTDOWN" "meth \<noteq> DOCUMENT_SYMBOL" "meth = FOLDING_RANGE"
    | "meth \<noteq> SHUTDOWN" "meth \<noteq> DOCUMENT_SYMBOL" "meth \<noteq> FOLDING_RANGE" by blast
  then show thesis
  proof cases
    case 1
    then show ?thesis using False by (intro shut) (simp_all add: request_def)
  next
    case 2
    then show ?thesis using False err symbols by (cases "w_symbols w params") (simp_all add: request_def respond_err_def)
  next
    case 3
    then show ?thesis using False err folds by (cases "w_folding w params") (simp_all add: request_def respond_err_def)
  next
    case 4
    then show ?thesis using False by (intro err) (simp add: request_def respond_err_def)
  qed
qed

lemma serves_request:
  assumes "front_ok fe"
  shows "serves w fe (request w fe i meth params)"
proof (rule serves_state)
  fix s assume s: "server_ok fe s"
  have symbols: "serves w fe (with_document uri (document_symbols fe))" for uri
    using assms reads_document_symbols by (intro serves_with_document) (auto simp: front_ok_def)
  have folds: "serves w fe (with_document uri (folding_ranges fe))" for uri
    using assms reads_folding_ranges by (intro serves_with_document) (auto simp: front_ok_def)
  have shut: "server_ok fe (s\<lparr>sv_shutdown_requested := True\<rparr>)" using s by (simp add: server_ok_def)
  show "\<exists>r s'. request w fe i meth params s = Some (Inr (r, s')) \<and> server_ok fe s' \<and> (connected w \<longrightarrow> is_ok r)"
    by (rule request_cases [of w fe i meth params s])
      (use servesD [OF serves_send s] servesD [OF serves_send shut] servesD [OF serves_bind [OF symbols serves_send] s]
        servesD [OF serves_bind [OF folds serves_send] s] in simp_all)
qed

lemma serves_log_skipped: "serves w fe (log_skipped w uri skipped)"
  by (induction w uri skipped rule: log_skipped.induct) (auto intro: serves_return serves_bind serves_send)

lemma serves_did_open: "serves w fe (did_open w changed item)"
proof -
  obtain uri t v where item: "item = (uri, t, v)" by (cases item)
  have upd: "serves w fe (sv_update (\<lambda>s. s\<lparr>sv_documents := (sv_documents s)(uri \<mapsto> Document_new t v (sv_encoding s))\<rparr>))"
    by (rule serves_update) (auto simp: server_ok_def Document_new_ok, simp add: Document_new_def)
  show ?thesis
    unfolding did_open_def item
    by (rule serves_state) (auto intro!: servesD serves_bind serves_send serves_return upd)
qed

lemma serves_did_change: "serves w fe (did_change w fe changed p)"
proof (rule serves_state)
  fix s assume s: "server_ok fe s"
  obtain uri v edits where p: "p = (uri, v, edits)" by (cases p)
  show "\<exists>r s'. did_change w fe changed p s = Some (Inr (r, s')) \<and> server_ok fe s' \<and> (connected w \<longrightarrow> is_ok r)"
  proof (cases "sv_documents s uri")
    case None
    then show ?thesis using servesD [OF serves_bind [OF serves_send serves_return] s]
      by (simp add: did_change_def p)
  next
    case (Some d)
    then obtain skipped d' where d': "apply_changes fe edits d [] = Inr (skipped, d')" "doc_ok fe d'"
      "doc_encoding d' = sv_encoding s"
      using apply_changes_ok [of fe d edits "[]"] s by (auto simp: server_ok_def)
    let ?s = "s\<lparr>sv_documents := (sv_documents s)(uri \<mapsto> set_version v d')\<rparr>"
    have "server_ok fe ?s" using s d'(2,3) by (auto simp: server_ok_def set_version_ok, simp add: set_version_def)
    from servesD [OF serves_bind [OF serves_log_skipped serves_return] this]
    show ?thesis using Some d'(1) by (simp add: did_change_def p)
  qed
qed

lemma serves_did_close: "serves w fe (did_close w changed uri)"
  unfolding did_close_def
  by (intro serves_bind serves_send serves_return serves_update) (auto simp: server_ok_def)

lemma serves_params:
  assumes "\<And>p. serves w fe (f p)"
  shows "serves w fe (params_or_log w meth changed parsed f)"
  using assms by (auto simp: params_or_log_def intro: serves_bind serves_send serves_return split: sum.splits)

lemma serves_notification: "serves w fe (notification w fe meth params changed)"
  unfolding notification_def
  by (rule serves_state)
    (auto intro!: servesD serves_params serves_return serves_did_open serves_did_change serves_did_close)

lemma serves_handle:
  assumes "front_ok fe"
  shows "serves w fe (handle w fe cancelled messages changed)"
  using assms
proof (induction w fe cancelled messages changed rule: handle.induct)
  case (2 w fe cancelled i meth params rest changed)
  then show ?case by (auto simp: respond_err_def intro!: serves_bind serves_send serves_request)
next
  case (3 w fe cancelled meth params rest changed)
  have "serves w fe (\<lambda>s. sv_return (Inl (if sv_shutdown_requested s then Ended_Shutdown else Ended_WithoutShutdown)) s)"
    by (rule serves_state) (rule servesD [OF serves_return])
  with 3 show ?case by (auto intro!: serves_bind serves_notification)
qed (auto intro: serves_return)

lemma serves_publish_changed:
  assumes "front_ok fe"
  shows "serves w fe (publish_changed w fe changed)"
  using assms
proof (induction w fe changed rule: publish_changed.induct)
  case (2 w fe uri rest)
  have "serves w fe (with_document uri (\<lambda>d. bind_run (diagnostics fe uri d) (\<lambda>(ds, d). Some (Inr ((ds, doc_version d), d)))))"
    using reads_publish [OF 2(2)] by (intro serves_with_document) blast
  with 2 show ?case by (auto intro!: serves_bind serves_send serves_return split: option.splits)
qed (simp add: serves_return)

lemma serves_batch:
  assumes "front_ok fe"
  shows "serves w fe (batch w fe messages)"
  unfolding batch_def
  using serves_handle [OF assms] serves_publish_changed [OF assms]
  by (auto intro!: serves_bind serves_return split: sum.splits)

lemma serves_serve:
  assumes "front_ok fe"
  shows "serves w fe (serve w fe batches)"
  using assms
proof (induction w fe batches rule: serve.induct)
  case (2 w fe messages rest)
  then show ?case by (auto intro!: serves_bind [OF serves_batch] serves_return split: option.splits)
qed (simp add: serves_return)

text \<open>The states between batches.\<close>

inductive reaches :: "'j Wire \<Rightarrow> Front \<Rightarrow> Server \<Rightarrow> Server \<Rightarrow> bool" for w fe where
  start: "reaches w fe s s"
| step: "reaches w fe s0 s \<Longrightarrow> batch w fe messages s = Some (Inr (Inr None, s')) \<Longrightarrow> reaches w fe s0 s'"

inductive_cases reachesE: "reaches w fe s0 s"

lemma reaches_ok:
  assumes "reaches w fe s0 s" "front_ok fe" "server_ok fe s0"
  shows "server_ok fe s"
  using assms
proof (induction rule: reaches.induct)
  case (step s0 s messages s')
  then show ?case using servesD [OF serves_batch, of fe s w messages] by auto
qed simp

lemma Server_new_ok: "server_ok fe (Server_new enc)"
  by (simp add: server_ok_def Server_new_def)

subsection \<open>Outcomes\<close>

definition outcome :: "'a serving \<Rightarrow> Server \<Rightarrow> 'a \<Rightarrow> Server \<Rightarrow> bool" where
  "outcome m s a s' \<longleftrightarrow> m s = Some (Inr (Inr a, s'))"

lemma outcome_bind: "outcome (sv_bind m f) s b s' \<longleftrightarrow> (\<exists>a s1. outcome m s a s1 \<and> outcome (f a) s1 b s')"
proof (cases "m s")
  case (Some r)
  then show ?thesis by (cases r) (auto simp: outcome_def sv_bind_def split: sum.splits)
qed (simp add: outcome_def sv_bind_def)

lemma outcome_simps [simp]:
  "outcome (sv_return a) s b s' \<longleftrightarrow> b = a \<and> s' = s"
  "outcome (sv_update f) s u s' \<longleftrightarrow> s' = f s"
  "outcome (send w msg) s u s' \<longleftrightarrow> w_accepts w (sv_sent s) msg \<and> s' = s\<lparr>sv_sent := sv_sent s @ [msg]\<rparr>"
  "outcome (respond_err w i code t) s u s' \<longleftrightarrow>
     w_accepts w (sv_sent s) (Sent_Err i code t) \<and> s' = s\<lparr>sv_sent := sv_sent s @ [Sent_Err i code t]\<rparr>"
  by (auto simp: outcome_def sv_return_def sv_update_def send_def respond_err_def)

lemma outcome_with_document:
  "outcome (with_document uri m) s a s' \<longleftrightarrow>
     (case sv_documents s uri of
        None \<Rightarrow> a = None \<and> s' = s
      | Some d \<Rightarrow> \<exists>x d'. m d = Some (Inr (x, d')) \<and> a = Some x \<and> s' = s\<lparr>sv_documents := (sv_documents s)(uri \<mapsto> d')\<rparr>)"
proof (cases "sv_documents s uri")
  case None
  then show ?thesis by (auto simp: outcome_def with_document_def)
next
  case (Some d)
  show ?thesis
  proof (cases "m d")
    case None
    then show ?thesis using Some by (simp add: outcome_def with_document_def)
  next
    case (Some r)
    then show ?thesis using \<open>sv_documents s uri = Some d\<close>
      by (cases r) (auto simp: outcome_def with_document_def)
  qed
qed

fun response_id :: "Sent \<Rightarrow> RequestId option" where
  "response_id (Sent_Ok i _) = Some i"
| "response_id (Sent_Err i _ _) = Some i"
| "response_id _ = None"

fun request_id :: "'j LspMessage \<Rightarrow> RequestId option" where
  "request_id (M_Request i _ _) = Some i"
| "request_id _ = None"

fun is_exit :: "'j LspMessage \<Rightarrow> bool" where
  "is_exit (M_Notification meth _) = (meth = EXIT)"
| "is_exit _ = False"

definition answers :: "Server \<Rightarrow> Server \<Rightarrow> RequestId list \<Rightarrow> bool" where
  "answers s s' ids \<longleftrightarrow> (\<exists>new. sv_sent s' = sv_sent s @ new \<and> List.map_filter response_id new = ids)"

lemma map_filter_append: "List.map_filter f (xs @ ys) = List.map_filter f xs @ List.map_filter f ys"
  by (simp add: List.map_filter_def)

lemma answers_trans: "answers s s1 xs \<Longrightarrow> answers s1 s2 ys \<Longrightarrow> answers s s2 (xs @ ys)"
  unfolding answers_def by (metis append.assoc map_filter_append)

lemma answers_sent: "sv_sent s' = sv_sent s @ new \<Longrightarrow> List.map_filter response_id new = ids \<Longrightarrow> answers s s' ids"
  by (auto simp: answers_def)

lemma answers_same: "sv_sent s' = sv_sent s \<Longrightarrow> answers s s' []"
  by (rule answers_sent [where new = "[]"]) (simp_all add: List.map_filter_def)

lemma with_document_sent: "outcome (with_document uri m) s a s' \<Longrightarrow> sv_sent s' = sv_sent s"
  by (auto simp: outcome_with_document split: option.splits)

lemma request_answers:
  assumes "outcome (request w fe i meth params) s u s'"
  shows "answers s s' [i]"
proof -
  have one: "answers s s' [i]" if "sv_sent s1 = sv_sent s" "outcome (send w msg) s1 u s'" "response_id msg = Some i" for s1 msg
    using that by (intro answers_sent [where new = "[msg]"]) (simp_all add: List.map_filter_def)
  have doc: "answers s s' [i]"
    if m: "outcome (sv_bind (with_document uri m) (\<lambda>r. send w (Sent_Ok i (f r)))) s u s'" for uri f and m :: "'x reading"
    using m one with_document_sent unfolding outcome_bind by (metis response_id.simps(1))
  show ?thesis
    by (rule request_cases [of w fe i meth params s])
      (use assms one [of s] one [of "s\<lparr>sv_shutdown_requested := True\<rparr>"] doc in
        \<open>auto simp: outcome_def [of "request w fe i meth params"] outcome_def [symmetric]\<close>)
qed

text \<open>
  What a batch has changed so far: the documents that are not listed as changed are open and hold what
  they held at the start, up to the cells.
\<close>

definition changed_inv :: "Server \<Rightarrow> Server \<Rightarrow> utext list \<Rightarrow> bool" where
  "changed_inv s0 s changed \<longleftrightarrow>
     distinct changed \<and>
     (\<forall>uri d'. sv_documents s uri = Some d' \<longrightarrow> uri \<notin> set changed \<longrightarrow>
        (\<exists>d. sv_documents s0 uri = Some d \<and> same_doc d d'))"

lemma same_doc_refl [simp]: "same_doc d d"
  by (simp add: same_doc_def)

lemma same_doc_trans: "same_doc a b \<Longrightarrow> same_doc b c \<Longrightarrow> same_doc a c"
  by (simp add: same_doc_def)

lemma changed_inv_start: "changed_inv s s []"
  by (simp add: changed_inv_def)

lemma changed_inv_mark:
  "changed_inv s0 s changed \<Longrightarrow> sv_documents s' = (sv_documents s)(uri := d) \<Longrightarrow>
     changed_inv s0 s' (mark_changed changed uri)"
  by (auto simp: changed_inv_def mark_changed_def)

lemma changed_inv_close:
  "changed_inv s0 s changed \<Longrightarrow> sv_documents s' = (sv_documents s)(uri := None) \<Longrightarrow>
     changed_inv s0 s' (filter (\<lambda>other. other \<noteq> uri) changed)"
  by (auto simp: changed_inv_def)

lemma changed_inv_same: "changed_inv s0 s changed \<Longrightarrow> sv_documents s' = sv_documents s \<Longrightarrow> changed_inv s0 s' changed"
  by (simp add: changed_inv_def)

lemma with_document_changed:
  assumes "outcome (with_document uri m) s a s'" "\<And>d. \<exists>Q. reads fe d m Q" "server_ok fe s" "changed_inv s0 s changed"
  shows "changed_inv s0 s' changed"
proof (cases "sv_documents s uri")
  case None
  then show ?thesis using assms(1,4) by (simp add: outcome_with_document)
next
  case (Some d)
  then obtain x d' where md: "m d = Some (Inr (x, d'))" "s' = s\<lparr>sv_documents := (sv_documents s)(uri \<mapsto> d')\<rparr>"
    using assms(1) by (auto simp: outcome_with_document)
  obtain Q where "reads fe d m Q" using assms(2) by blast
  from readsD [OF this] md(1) Some assms(3) have "same_doc d d'" by (auto simp: server_ok_def)
  then show ?thesis using assms(4) Some md(2) same_doc_trans by (fastforce simp: changed_inv_def)
qed

lemma log_skipped_outcome:
  "outcome (log_skipped w uri skipped) s u s' \<Longrightarrow> answers s s' [] \<and> sv_documents s' = sv_documents s"
proof (induction w uri skipped arbitrary: s rule: log_skipped.induct)
  case (2 w uri why rest)
  let ?msg = "Sent_Log MT_Error (skipped_message uri why)"
  let ?s = "s\<lparr>sv_sent := sv_sent s @ [?msg]\<rparr>"
  have "outcome (log_skipped w uri rest) ?s u s'" using 2(2) by (auto simp: outcome_bind)
  from 2(1) [OF this] have "answers ?s s' []" "sv_documents s' = sv_documents s" by simp_all
  moreover have "answers s ?s []"
    by (rule answers_sent [where new = "[?msg]"]) (simp_all add: List.map_filter_def)
  ultimately show ?case using answers_trans by fastforce
qed (simp add: answers_same)

lemma did_open_outcome:
  assumes "outcome (did_open w changed (uri, t, v)) s c s'"
  shows "answers s s' []" "c = mark_changed changed uri"
    "sv_documents s' = (sv_documents s)(uri \<mapsto> Document_new t v (sv_encoding s))"
proof -
  from assms have "outcome (sv_bind (if sv_documents s uri \<noteq> None
        then send w (Sent_Log MT_Warning (uri @ lit '' was opened twice'')) else sv_return ()) (\<lambda>_.
       sv_bind (sv_update (\<lambda>s. s\<lparr>sv_documents :=
           (sv_documents s)(uri \<mapsto> Document_new t v (sv_encoding s))\<rparr>)) (\<lambda>_.
         sv_return (mark_changed changed uri)))) s c s'"
    by (simp add: outcome_def did_open_def)
  then show "answers s s' []" "c = mark_changed changed uri"
    "sv_documents s' = (sv_documents s)(uri \<mapsto> Document_new t v (sv_encoding s))"
    by (auto simp: outcome_bind List.map_filter_def intro: answers_same answers_sent split: if_splits)
qed

lemma did_change_outcome:
  assumes "outcome (did_change w fe changed (uri, v, edits)) s c s'"
  shows "answers s s' [] \<and>
    (c = changed \<and> sv_documents s' = sv_documents s \<or>
     c = mark_changed changed uri \<and> (\<exists>d. sv_documents s' = (sv_documents s)(uri := d)))"
proof (cases "sv_documents s uri")
  case None
  with assms have "outcome (sv_bind (send w (Sent_Log MT_Warning (uri @ lit '' changed but is not open'')))
      (\<lambda>_. sv_return changed)) s c s'" by (simp add: outcome_def did_change_def)
  then show ?thesis by (auto simp: outcome_bind List.map_filter_def intro: answers_sent)
next
  case (Some d)
  with assms obtain skipped d' where "apply_changes fe edits d [] = Inr (skipped, d')"
    by (auto simp: outcome_def did_change_def split: sum.splits)
  with assms Some have "outcome (sv_bind (log_skipped w uri skipped) (\<lambda>_. sv_return (mark_changed changed uri)))
      (s\<lparr>sv_documents := (sv_documents s)(uri \<mapsto> set_version v d')\<rparr>) c s'"
    by (simp add: outcome_def did_change_def)
  then show ?thesis using log_skipped_outcome by (fastforce simp: outcome_bind answers_def)
qed

lemma did_close_outcome:
  assumes "outcome (did_close w changed uri) s c s'"
  shows "answers s s' []" "c = filter (\<lambda>other. other \<noteq> uri) changed" "sv_documents s' = (sv_documents s)(uri := None)"
  using assms by (auto simp: did_close_def outcome_bind List.map_filter_def intro: answers_sent)

lemma params_outcome:
  assumes "outcome (params_or_log w meth changed parsed f) s c s'"
    "\<And>p. outcome (f p) s c s' \<Longrightarrow> answers s s' [] \<and> changed_inv s0 s' c" "changed_inv s0 s changed"
  shows "answers s s' [] \<and> changed_inv s0 s' c"
proof (cases parsed)
  case (Inl e)
  then show ?thesis using assms(1,3)
    by (auto simp: params_or_log_def outcome_bind List.map_filter_def changed_inv_def intro: answers_sent)
next
  case (Inr p)
  then show ?thesis using assms(1,2) by (simp add: params_or_log_def)
qed

lemma did_open_inv:
  assumes "outcome (did_open w changed p) s c s'" "changed_inv s0 s changed"
  shows "answers s s' [] \<and> changed_inv s0 s' c"
proof -
  obtain uri t v where p: "p = (uri, t, v)" by (cases p)
  note o = did_open_outcome [OF assms(1) [unfolded p]]
  show ?thesis using o(1) changed_inv_mark [OF assms(2) o(3)] by (simp add: o(2))
qed

lemma did_change_inv:
  assumes "outcome (did_change w fe changed p) s c s'" "changed_inv s0 s changed"
  shows "answers s s' [] \<and> changed_inv s0 s' c"
proof -
  obtain uri v edits where p: "p = (uri, v, edits)" by (cases p)
  show ?thesis
    using did_change_outcome [OF assms(1) [unfolded p]] changed_inv_mark [OF assms(2)] changed_inv_same [OF assms(2)]
    by blast
qed

lemma did_close_inv:
  assumes "outcome (did_close w changed uri) s c s'" "changed_inv s0 s changed"
  shows "answers s s' [] \<and> changed_inv s0 s' c"
  using did_close_outcome [OF assms(1)] changed_inv_close [OF assms(2)] by blast

lemma notification_outcome:
  assumes "outcome (notification w fe meth params changed) s c s'" "changed_inv s0 s changed"
  shows "answers s s' [] \<and> changed_inv s0 s' c"
proof -
  from assms(1) consider "outcome (sv_return changed) s c s'"
    | "outcome (params_or_log w meth changed (w_open w params) (did_open w changed)) s c s'"
    | "outcome (params_or_log w meth changed (w_change w params) (did_change w fe changed)) s c s'"
    | "outcome (params_or_log w meth changed (w_close w params) (did_close w changed)) s c s'"
    unfolding outcome_def [of "notification w fe meth params changed"] notification_def
    by (auto simp: outcome_def split: if_splits)
  then show ?thesis
  proof cases
    case 1
    then show ?thesis using assms(2) by (simp add: answers_same)
  next
    case 2
    then show ?thesis by (rule params_outcome) (use assms(2) did_open_inv in blast)+
  next
    case 3
    then show ?thesis by (rule params_outcome) (use assms(2) did_change_inv in blast)+
  next
    case 4
    then show ?thesis by (rule params_outcome) (use assms(2) did_close_inv in blast)+
  qed
qed

lemma request_changed:
  assumes "outcome (request w fe i meth params) s u s'" "front_ok fe" "server_ok fe s" "changed_inv s0 s changed"
  shows "changed_inv s0 s' changed"
proof -
  have doc: ?thesis if o: "outcome (sv_bind (with_document uri m) (\<lambda>r. send w (f r))) s u s'" and m: "\<And>d. \<exists>Q. reads fe d m Q"
    for uri f and m :: "'x reading"
  proof -
    obtain a s1 where "outcome (with_document uri m) s a s1" "sv_documents s' = sv_documents s1"
      using o by (auto simp: outcome_bind)
    then show ?thesis using with_document_changed [OF _ m assms(3,4)] changed_inv_same by blast
  qed
  have sym: "\<exists>Q. reads fe d (document_symbols fe) Q" and fld: "\<exists>Q. reads fe d (folding_ranges fe) Q" for d
    using assms(2) reads_document_symbols reads_folding_ranges unfolding front_ok_def by blast+
  show ?thesis
  proof (cases rule: request_cases [of w fe i meth params s])
    case (err code t)
    with assms(1) have "outcome (send w (Sent_Err i code t)) s u s'" by (simp add: outcome_def)
    then show ?thesis using changed_inv_same [OF assms(4)] by simp
  next
    case shut
    with assms(1) have "outcome (send w (Sent_Ok i LR_Unit)) (s\<lparr>sv_shutdown_requested := True\<rparr>) u s'"
      by (simp add: outcome_def)
    then show ?thesis using changed_inv_same [OF assms(4)] by simp
  next
    case (symbols uri)
    show ?thesis by (rule doc [OF _ sym]) (use assms(1) symbols in \<open>simp add: outcome_def\<close>)
  next
    case (folds uri)
    show ?thesis by (rule doc [OF _ fld]) (use assms(1) folds in \<open>simp add: outcome_def\<close>)
  qed
qed

lemma handle_outcome:
  assumes "outcome (handle w fe cancelled messages changed) s r s'" "front_ok fe" "server_ok fe s"
    "changed_inv s0 s changed"
  shows "answers s s' (List.map_filter request_id (takeWhile (\<lambda>m. \<not> is_exit m) messages)) \<and>
    (case r of
       Inl ended \<Rightarrow> list_ex is_exit messages \<and>
         ended = (if sv_shutdown_requested s' then Ended_Shutdown else Ended_WithoutShutdown)
     | Inr changed' \<Rightarrow> \<not> list_ex is_exit messages \<and> changed_inv s0 s' changed') \<and> server_ok fe s'"
  using assms
proof (induction w fe cancelled messages changed arbitrary: s rule: handle.induct)
  case (1 w fe cancelled changed)
  then show ?case by (simp add: answers_same List.map_filter_def)
next
  case (2 w fe cancelled i meth params rest changed)
  let ?m = "if i \<in> set cancelled then respond_err w i EC_RequestCanceled (lit ''canceled'') else request w fe i meth params"
  obtain u s1 where s1: "outcome ?m s u s1" "outcome (handle w fe cancelled rest changed) s1 r s'"
    using 2(2) by (auto simp: outcome_bind)
  have "serves w fe ?m" using 2(3) by (simp add: respond_err_def serves_send serves_request)
  from servesD [OF this 2(4)] s1(1) have ok: "server_ok fe s1" by (auto simp: outcome_def)
  have a: "answers s s1 [i]" and c: "changed_inv s0 s1 changed"
    using s1(1) request_answers request_changed [OF _ 2(3-5)] changed_inv_same [OF 2(5)]
    by (auto simp: List.map_filter_def intro: answers_sent split: if_splits)
  note ih = 2(1) [OF s1(2) 2(3) ok c]
  show ?case using answers_trans [OF a, of s'] ih by (auto simp: List.map_filter_simps split: sum.splits)
next
  case (3 w fe cancelled meth params rest changed)
  show ?case
  proof (cases "meth = EXIT")
    case True
    then show ?thesis using 3(2,4)
      by (auto simp: outcome_def sv_return_def List.map_filter_def intro: answers_same)
  next
    case False
    then obtain c s1 where s1: "outcome (notification w fe meth params changed) s c s1"
      "outcome (handle w fe cancelled rest c) s1 r s'"
      using 3(2) by (auto simp: outcome_bind)
    from servesD [OF serves_notification [of w fe meth params changed] 3(4)] s1(1) have ok: "server_ok fe s1" by (fastforce simp: outcome_def)
    have a: "answers s s1 []" and c: "changed_inv s0 s1 c" using notification_outcome [OF s1(1) 3(5)] by simp_all
    note ih = 3(1) [OF False s1(2) 3(3) ok c]
    show ?thesis using answers_trans [OF a, of s'] ih False by (auto simp: List.map_filter_simps split: sum.splits)
  qed
next
  case (4 w fe cancelled rest changed)
  from 4(2) have "outcome (handle w fe cancelled rest changed) s r s'" by simp
  from 4(1) [OF this 4(3-5)] show ?case by (auto simp: List.map_filter_simps split: sum.splits)
qed

subsection \<open>Publishing\<close>

definition same_docs :: "Server \<Rightarrow> Server \<Rightarrow> bool" where
  "same_docs s s' \<longleftrightarrow> (\<forall>uri. rel_option same_doc (sv_documents s uri) (sv_documents s' uri))"

fun publish_uri :: "Sent \<Rightarrow> utext option" where
  "publish_uri (Sent_Publish uri _ _) = Some uri"
| "publish_uri _ = None"

text \<open>A message that publishes the diagnostics of an open document: those of its text, at its version.\<close>

definition published :: "Front \<Rightarrow> Server \<Rightarrow> Sent \<Rightarrow> bool" where
  "published fe s p \<longleftrightarrow>
     (\<exists>uri d ds r. p = Sent_Publish uri (Some (doc_version d)) ds \<and> sv_documents s uri = Some d \<and>
        parse_module (fr_next_tok fe) (fr_grammar fe) (fr_dbg fe) FileId_ROOT (doc_text d) = Some (Inr r) \<and>
        list_all2 (diagnostic_of uri d) (pr_errors r) ds)"

lemma same_docs_trans: "same_docs a b \<Longrightarrow> same_docs b c \<Longrightarrow> same_docs a c"
proof -
  assume ab: "same_docs a b" "same_docs b c"
  show ?thesis
    unfolding same_docs_def
  proof
    fix uri
    have "rel_option same_doc (sv_documents a uri) (sv_documents b uri)"
      "rel_option same_doc (sv_documents b uri) (sv_documents c uri)" using ab by (simp_all add: same_docs_def)
    then show "rel_option same_doc (sv_documents a uri) (sv_documents c uri)"
      by (cases "sv_documents a uri"; cases "sv_documents b uri"; cases "sv_documents c uri")
        (auto intro: same_doc_trans)
  qed
qed

lemma same_docs_refl: "sv_documents s' = sv_documents s \<Longrightarrow> same_docs s s'"
  by (simp add: same_docs_def option.rel_refl)

lemma diagnostic_of_same: "same_doc d d' \<Longrightarrow> diagnostic_of uri d' = diagnostic_of uri d"
proof -
  assume d: "same_doc d d'"
  then have "Document_range d' = Document_range d"
    by (intro ext) (simp add: Document_range_def Document_position_def same_doc_def)
  then show ?thesis by (intro ext) (simp add: diagnostic_of_def)
qed

lemma published_same: "same_docs s s' \<Longrightarrow> published fe s p \<Longrightarrow> published fe s' p"
proof -
  assume same: "same_docs s s'" and "published fe s p"
  then obtain uri d ds r where p: "p = Sent_Publish uri (Some (doc_version d)) ds" "sv_documents s uri = Some d"
    "parse_module (fr_next_tok fe) (fr_grammar fe) (fr_dbg fe) FileId_ROOT (doc_text d) = Some (Inr r)"
    "list_all2 (diagnostic_of uri d) (pr_errors r) ds" unfolding published_def by blast
  obtain d' where d': "sv_documents s' uri = Some d'" "same_doc d d'"
    using same p(2) unfolding same_docs_def by (metis option_rel_Some1)
  then show ?thesis using p diagnostic_of_same [OF d'(2), of uri]
    unfolding published_def by (intro exI [of _ uri] exI [of _ d'] exI [of _ ds] exI [of _ r]) (simp add: same_doc_def)
qed

definition publishes :: "Front \<Rightarrow> utext list \<Rightarrow> Server \<Rightarrow> Server \<Rightarrow> bool" where
  "publishes fe changed s s' \<longleftrightarrow>
     same_docs s s' \<and>
     (\<exists>pubs. sv_sent s' = sv_sent s @ pubs \<and> (\<forall>p \<in> set pubs. published fe s' p) \<and>
        map publish_uri pubs = map Some (filter (\<lambda>uri. sv_documents s uri \<noteq> None) changed))"

lemma publish_one:
  assumes "outcome (with_document uri (\<lambda>d. bind_run (diagnostics fe uri d) (\<lambda>(ds, d). Some (Inr ((ds, doc_version d), d))))) s r s1"
    "outcome (case r of None \<Rightarrow> sv_return () | Some (ds, version) \<Rightarrow> send w (Sent_Publish uri (Some version) ds)) s1 u s2"
    "front_ok fe" "server_ok fe s"
  shows "publishes fe [uri] s s2" "server_ok fe s2"
proof -
  let ?m = "\<lambda>d. bind_run (diagnostics fe uri d) (\<lambda>(ds, d). Some (Inr ((ds, doc_version d), d)))"
  show "publishes fe [uri] s s2"
  proof (cases "sv_documents s uri")
    case None
    then show ?thesis using assms(1,2) by (simp add: outcome_with_document publishes_def same_docs_refl)
  next
    case (Some d)
    then obtain x d' where md: "?m d = Some (Inr (x, d'))" "r = Some x" "s1 = s\<lparr>sv_documents := (sv_documents s)(uri \<mapsto> d')\<rparr>"
      using assms(1) by (auto simp: outcome_with_document)
    obtain ds v where x: "x = (ds, v)" by (cases x)
    from readsD [OF reads_publish [OF assms(3), of d uri]] md(1) x Some assms(4)
    have v: "v = doc_version d" "same_doc d d'" "\<exists>r. parsed_as fe d r \<and> list_all2 (diagnostic_of uri d) (pr_errors r) ds"
      by (auto simp: server_ok_def)
    have s2: "s2 = s1\<lparr>sv_sent := sv_sent s1 @ [Sent_Publish uri (Some v) ds]\<rparr>" using assms(2) md(2) x by simp
    have same: "same_docs s s2" using v(2) Some by (auto simp: s2 md(3) same_docs_def option.rel_refl)
    have "published fe s (Sent_Publish uri (Some v) ds)" using v Some unfolding published_def parsed_as_def by blast
    from published_same [OF same this] same Some show ?thesis
      by (auto simp: publishes_def s2 md(3) intro!: exI [of _ "[Sent_Publish uri (Some v) ds]"])
  qed
  have "serves w fe (with_document uri ?m)"
    using reads_publish [OF assms(3), of _ uri] by (intro serves_with_document) blast
  from servesD [OF this assms(4)] assms(1) have "server_ok fe s1" by (auto simp: outcome_def)
  then show "server_ok fe s2" using assms(2) by (cases r) (auto simp: server_ok_def)
qed

lemma publish_changed_outcome:
  assumes "outcome (publish_changed w fe changed) s u s'" "front_ok fe" "server_ok fe s" "distinct changed"
  shows "publishes fe changed s s' \<and> server_ok fe s'"
  using assms
proof (induction w fe changed arbitrary: s rule: publish_changed.induct)
  case (1 w fe)
  then show ?case by (simp add: publishes_def same_docs_refl)
next
  case (2 w fe uri rest)
  then obtain r s1 s2 where o: "outcome (with_document uri (\<lambda>d. bind_run (diagnostics fe uri d) (\<lambda>(ds, d). Some (Inr ((ds, doc_version d), d))))) s r s1"
    "outcome (case r of None \<Rightarrow> sv_return () | Some (ds, version) \<Rightarrow> send w (Sent_Publish uri (Some version) ds)) s1 () s2"
    "outcome (publish_changed w fe rest) s2 u s'"
    by (auto simp: outcome_bind)
  note one = publish_one [OF o(1,2) 2(3,4)]
  from 2(1) [OF o(3) 2(3) one(2)] 2(5) have ih: "publishes fe rest s2 s'" "server_ok fe s'" by simp_all
  have same: "sv_documents s2 x = None \<longleftrightarrow> sv_documents s x = None" for x
    using one(1) unfolding publishes_def same_docs_def
    by (metis option.rel_distinct option_rel_Some1 option_rel_Some2 option.exhaust)
  from one(1) ih(1) obtain p1 p2 where p: "sv_sent s2 = sv_sent s @ p1" "\<forall>p \<in> set p1. published fe s2 p"
    "map publish_uri p1 = map Some (filter (\<lambda>uri. sv_documents s uri \<noteq> None) [uri])"
    "sv_sent s' = sv_sent s2 @ p2" "\<forall>p \<in> set p2. published fe s' p"
    "map publish_uri p2 = map Some (filter (\<lambda>uri. sv_documents s2 uri \<noteq> None) rest)"
    "same_docs s s2" "same_docs s2 s'" unfolding publishes_def by blast
  have "\<forall>q \<in> set (p1 @ p2). published fe s' q" using p(2,5) published_same [OF p(8)] by auto
  moreover have "map publish_uri (p1 @ p2) = map Some (filter (\<lambda>uri. sv_documents s uri \<noteq> None) (uri # rest))"
    using p(3,6) by (auto simp: same)
  ultimately show ?case using p(1,4) same_docs_trans [OF p(7,8)] ih(2)
    unfolding publishes_def by (auto intro!: exI [of _ "p1 @ p2"])
qed

subsection \<open>Whole batches\<close>

lemma batch_outcome:
  assumes "outcome (batch w fe messages) s ended s'" "front_ok fe" "server_ok fe s"
  obtains (ended) "answers s s' (List.map_filter request_id (takeWhile (\<lambda>m. \<not> is_exit m) messages))"
      "list_ex is_exit messages"
      "ended = Some (if sv_shutdown_requested s' then Ended_Shutdown else Ended_WithoutShutdown)"
  | (goes_on) s1 changed where
      "answers s s1 (List.map_filter request_id (takeWhile (\<lambda>m. \<not> is_exit m) messages))"
      "\<not> list_ex is_exit messages" "ended = None" "changed_inv s s1 changed" "publishes fe changed s1 s'"
proof -
  from assms(1) obtain r s1 where r: "outcome (handle w fe (cancelled_ids w messages) messages []) s r s1"
    "outcome (case r of Inl ended \<Rightarrow> sv_return (Some ended)
       | Inr changed \<Rightarrow> sv_bind (publish_changed w fe changed) (\<lambda>_. sv_return None)) s1 ended s'"
    unfolding batch_def outcome_bind by blast
  note h = handle_outcome [OF r(1) assms(2,3) changed_inv_start]
  show thesis
  proof (cases r)
    case (Inl e)
    then show ?thesis using r(2) h by (intro ended) simp_all
  next
    case (Inr changed)
    then have "outcome (publish_changed w fe changed) s1 () s'" "ended = None" using r(2) by (auto simp: outcome_bind)
    then show ?thesis using h Inr publish_changed_outcome [OF _ assms(2), of w changed s1 "()" s']
      by (intro goes_on [of s1 changed]) (simp_all add: changed_inv_def)
  qed
qed

lemma publishes_answers:
  assumes "publishes fe changed s s'"
  shows "answers s s' []"
proof -
  from assms obtain pubs where p: "sv_sent s' = sv_sent s @ pubs" "\<forall>p \<in> set pubs. published fe s' p"
    unfolding publishes_def by blast
  have "\<forall>p \<in> set pubs. response_id p = None" using p(2) unfolding published_def by fastforce
  with p(1) show ?thesis by (auto simp: List.map_filter_def intro: answers_sent)
qed

subsection \<open>After shutdown\<close>

fun refusal :: "Sent \<Rightarrow> bool" where
  "refusal (Sent_Err _ code _) \<longleftrightarrow> code = EC_InvalidRequest \<or> code = EC_RequestCanceled"
| "refusal _ \<longleftrightarrow> False"

definition refuses :: "Server \<Rightarrow> Server \<Rightarrow> bool" where
  "refuses s s' \<longleftrightarrow>
     sv_documents s' = sv_documents s \<and> sv_shutdown_requested s' \<and>
     (\<exists>new. sv_sent s' = sv_sent s @ new \<and>
        list_all refusal new)"

lemma refuses_refl: "sv_shutdown_requested s \<Longrightarrow> refuses s s"
  by (simp add: refuses_def)

lemma refuses_trans:
  assumes "refuses a b" "refuses b c"
  shows "refuses a c"
proof -
  from assms obtain x y where "sv_sent b = sv_sent a @ x" "sv_sent c = sv_sent b @ y" "list_all refusal (x @ y)"
    unfolding refuses_def list_all_append by blast
  then show ?thesis using assms unfolding refuses_def by (metis append.assoc)
qed

lemma handle_refuses:
  assumes "outcome (handle w fe cancelled messages changed) s r s'" "sv_shutdown_requested s"
  shows "refuses s s' \<and> (r = Inl Ended_Shutdown \<or> r = Inr changed)"
  using assms
proof (induction w fe cancelled messages changed arbitrary: s rule: handle.induct)
  case (2 w fe cancelled i meth params rest changed)
  let ?m = "if i \<in> set cancelled then respond_err w i EC_RequestCanceled (lit ''canceled'') else request w fe i meth params"
  obtain u s1 where s1: "outcome ?m s u s1" "outcome (handle w fe cancelled rest changed) s1 r s'"
    using 2(2) by (auto simp: outcome_bind)
  have "\<exists>code t. s1 = s\<lparr>sv_sent := sv_sent s @ [Sent_Err i code t]\<rparr> \<and> code \<in> {EC_InvalidRequest, EC_RequestCanceled}"
  proof (cases "i \<in> set cancelled")
    case False
    then have "outcome (respond_err w i EC_InvalidRequest (lit ''the server is shutting down'')) s u s1"
      using s1(1) 2(3) by (simp add: outcome_def request_def)
    then show ?thesis by auto
  qed (use s1(1) in auto)
  then have "refuses s s1" "sv_shutdown_requested s1" using 2(3) by (auto simp: refuses_def)
  with 2(1) [OF s1(2)] refuses_trans show ?case by blast
next
  case (3 w fe cancelled meth params rest changed)
  show ?case
  proof (cases "meth = EXIT")
    case True
    then show ?thesis using 3(2,3) by (auto simp: outcome_def sv_return_def refuses_refl)
  next
    case False
    then obtain c s1 where s1: "outcome (notification w fe meth params changed) s c s1"
      "outcome (handle w fe cancelled rest c) s1 r s'"
      using 3(2) by (auto simp: outcome_bind)
    then have "c = changed" "s1 = s" using 3(3) by (auto simp: outcome_def notification_def sv_return_def)
    with 3(1) [OF False _ 3(3)] s1(2) show ?thesis by simp
  qed
qed (auto simp: refuses_refl)

subsection \<open>Properties\<close>

text \<open>C14. In every state a session reaches between its batches, every open document has the line table of its
  text, holds no parse and no tokens but those of its text, and counts columns in the session's encoding.
\<close>

theorem reachable_documents:
  assumes "front_ok fe" "reaches w fe (Server_new enc) s" "sv_documents s uri = Some d"
  shows "doc_index d = LineIndex_new (doc_text d) \<and> doc_encoding d = sv_encoding s \<and>
    (\<forall>r \<in> set_option (doc_parse d).
       parse_module (fr_next_tok fe) (fr_grammar fe) (fr_dbg fe) FileId_ROOT (doc_text d) = Some (Inr r)) \<and>
    (\<forall>ts \<in> set_option (doc_lexed d). \<exists>lx.
       tokenize (fr_next_tok fe) (fr_dbg fe) FileId_ROOT (doc_text d) = Some (Inr lx) \<and> ts = lx_tokens lx)"
  using reaches_ok [OF assms(2,1) Server_new_ok] assms(3) by (simp add: server_ok_def doc_ok_def)

text \<open>C15. A session ends: whatever the client sends, every batch is handled without a panic, and only a
  connection that refuses a message ends the session early.
\<close>

theorem session_never_fails:
  assumes "front_ok fe"
  shows "\<exists>r s. run w fe offered batches = Some (Inr (r, s)) \<and>
    ((\<forall>sent msg. w_accepts w sent msg) \<longrightarrow> (\<exists>ended. r = Inr ended))"
  using servesD [OF serves_serve [OF assms] Server_new_ok]
  unfolding run_def connected_def is_ok_iff by blast

text \<open>C12. A batch answers each of its requests before \<open>exit\<close> exactly once, in order, whatever the request, and
  sends no other response. It ends the session exactly when it holds \<open>exit\<close>, and then with the status the
  last \<open>shutdown\<close> decides.
\<close>

theorem requests_answered:
  assumes "front_ok fe" "server_ok fe s" "batch w fe messages s = Some (Inr (Inr ended, s'))"
  shows "\<exists>new. sv_sent s' = sv_sent s @ new \<and>
    List.map_filter response_id new = List.map_filter request_id (takeWhile (\<lambda>m. \<not> is_exit m) messages) \<and>
    ended = (if list_ex is_exit messages
             then Some (if sv_shutdown_requested s' then Ended_Shutdown else Ended_WithoutShutdown) else None)"
proof (rule batch_outcome [of w fe messages s ended s'])
  show "outcome (batch w fe messages) s ended s'" using assms(3) by (simp add: outcome_def)
next
  fix s1 changed
  assume s1: "answers s s1 (List.map_filter request_id (takeWhile (\<lambda>m. \<not> is_exit m) messages))"
    "\<not> list_ex is_exit messages" "ended = None" "publishes fe changed s1 s'"
  with answers_trans [OF s1(1) publishes_answers [OF s1(4)]] show ?thesis by (auto simp: answers_def)
qed (use assms(1,2) in \<open>auto simp: answers_def\<close>)


text \<open>C16. Once \<open>shutdown\<close> has been answered the server only refuses: a batch opens, changes and closes no
  document, sends nothing but error responses, and ends the session, if it does, as shut down.
\<close>

theorem shutdown_refuses:
  assumes "sv_shutdown_requested s" "batch w fe messages s = Some (Inr (Inr ended, s'))"
  shows "sv_documents s' = sv_documents s \<and> sv_shutdown_requested s' \<and> ended \<in> {None, Some Ended_Shutdown} \<and>
    (\<exists>new. sv_sent s' = sv_sent s @ new \<and> list_all refusal new)"
proof -
  from assms(2) have "outcome (batch w fe messages) s ended s'" by (simp add: outcome_def)
  then obtain r s1 where r: "outcome (handle w fe (cancelled_ids w messages) messages []) s r s1"
    "outcome (case r of Inl ended \<Rightarrow> sv_return (Some ended)
       | Inr changed \<Rightarrow> sv_bind (publish_changed w fe changed) (\<lambda>_. sv_return None)) s1 ended s'"
    unfolding batch_def outcome_bind by blast
  from handle_refuses [OF r(1) assms(1)] r(2) have "refuses s s' \<and> ended \<in> {None, Some Ended_Shutdown}"
    by (auto simp: outcome_bind)
  then show ?thesis unfolding refuses_def by blast
qed

text \<open>A client that sends the text of one document as the parameters of every message.\<close>

definition sample_wire :: "utext Wire" where
  "sample_wire = \<lparr>w_cancel = (\<lambda>_. None), w_open = (\<lambda>t. Inr (lit ''file:///a'', t, 1)),
     w_change = (\<lambda>t. Inr (lit ''file:///a'', 2, [ChangeWhole t])), w_close = (\<lambda>_. Inr (lit ''file:///a'')),
     w_symbols = (\<lambda>_. Inr (lit ''file:///a'')), w_folding = (\<lambda>_. Inr (lit ''file:///a'')),
     w_accepts = (\<lambda>_ _. True)\<rparr>"

lemma sample_front_ok: "front_ok sample_front"
  using rules.logos_lexer_axioms sample_front_spans sample_front_errors
  by (simp add: front_ok_def grammar_name_spans_def sample_front_def)

lemma sample_batch:
  obtains ended s' where "outcome (batch sample_wire sample_front messages) (Server_new enc) ended s'"
  using servesD [OF serves_batch [OF sample_front_ok] Server_new_ok, of sample_wire messages enc]
  by (auto simp: is_ok_iff outcome_def connected_def sample_wire_def)

lemmas method_defs = CANCEL_def EXIT_def SHUTDOWN_def DOCUMENT_SYMBOL_def FOLDING_RANGE_def DID_OPEN_def DID_CHANGE_def DID_CLOSE_def

lemma sample_open:
  obtains s d where "batch sample_wire sample_front [M_Notification DID_OPEN t] (Server_new enc) = Some (Inr (Inr None, s))"
    "sv_documents s (lit ''file:///a'') = Some d" "doc_text d = t"
proof -
  obtain ended s where e: "outcome (batch sample_wire sample_front [M_Notification DID_OPEN t]) (Server_new enc) ended s"
    by (rule sample_batch)
  then obtain c s1 where c: "outcome (notification sample_wire sample_front DID_OPEN t []) (Server_new enc) c s1"
    "outcome (publish_changed sample_wire sample_front c) s1 () s" "ended = None"
    by (auto simp: batch_def outcome_bind method_defs lit_def)
  then have o: "outcome (did_open sample_wire [] (lit ''file:///a'', t, 1)) (Server_new enc) c s1"
    by (simp add: notification_def outcome_def params_or_log_def sample_wire_def Server_new_def)
  note d = did_open_outcome [OF o]
  from servesD [OF serves_did_open [of sample_wire sample_front "[]" "(lit ''file:///a'', t, 1)"] Server_new_ok, of enc] o have "server_ok sample_front s1" by (fastforce simp: outcome_def)
  from publish_changed_outcome [OF c(2) sample_front_ok this] have "same_docs s1 s"
    by (simp add: d(2) mark_changed_def publishes_def)
  then have "rel_option same_doc (sv_documents s1 (lit ''file:///a'')) (sv_documents s (lit ''file:///a''))"
    by (simp add: same_docs_def)
  moreover have "sv_documents s1 (lit ''file:///a'') = Some (Document_new t 1 enc)"
    by (simp add: d(3) Server_new_def)
  ultimately obtain d' where "sv_documents s (lit ''file:///a'') = Some d'" "same_doc (Document_new t 1 enc) d'"
    by (auto simp: option_rel_Some1)
  then show thesis using e c(3) that by (auto simp: outcome_def same_doc_def Document_new_def)
qed

theorem reachable_documents_witness:
  "\<exists>s d. reaches sample_wire sample_front (Server_new Utf8) s \<and> sv_documents s (lit ''file:///a'') = Some d \<and>
     doc_text d = lit ''x = 1'' \<and> doc_index d = LineIndex_new (lit ''x = 1'')"
proof -
  obtain s d where s: "batch sample_wire sample_front [M_Notification DID_OPEN (lit ''x = 1'')] (Server_new Utf8) = Some (Inr (Inr None, s))"
    "sv_documents s (lit ''file:///a'') = Some d" "doc_text d = lit ''x = 1''" by (rule sample_open)
  have r: "reaches sample_wire sample_front (Server_new Utf8) s" by (rule reaches.step [OF reaches.start s(1)])
  from reachable_documents [OF sample_front_ok r s(2)] r s(2,3) show ?thesis by auto
qed

theorem session_never_fails_witness:
  "\<exists>ended s. run sample_wire sample_front None [[M_Notification DID_OPEN (lit ''(''), M_Request (RI_Int 1) FOLDING_RANGE []]] =
     Some (Inr (Inr ended, s))"
  using session_never_fails [OF sample_front_ok, of sample_wire None
      "[[M_Notification DID_OPEN (lit ''(''), M_Request (RI_Int 1) FOLDING_RANGE []]]"]
  by (auto simp: sample_wire_def)

theorem requests_answered_witness:
  "\<exists>s. batch sample_wire sample_front
        [M_Notification DID_OPEN (lit ''(''), M_Request (RI_Int 7) DOCUMENT_SYMBOL [], M_Notification EXIT []] (Server_new Utf16) =
      Some (Inr (Inr (Some (if sv_shutdown_requested s then Ended_Shutdown else Ended_WithoutShutdown)), s)) \<and>
     List.map_filter response_id (sv_sent s) = [RI_Int 7]"
proof -
  let ?ms = "[M_Notification DID_OPEN (lit ''(''), M_Request (RI_Int 7) DOCUMENT_SYMBOL [], M_Notification EXIT []]"
  obtain ended s where e: "batch sample_wire sample_front ?ms (Server_new Utf16) = Some (Inr (Inr ended, s))"
    using sample_batch [of ?ms Utf16] unfolding outcome_def by blast
  from requests_answered [OF sample_front_ok Server_new_ok e] e show ?thesis
    by (auto simp: method_defs lit_def Server_new_def List.map_filter_simps)
qed


theorem shutdown_refuses_witness:
  "\<exists>ended s'. batch sample_wire sample_front [M_Request (RI_Int 1) FOLDING_RANGE [], M_Notification DID_OPEN (lit ''x'')]
        ((Server_new Utf8)\<lparr>sv_shutdown_requested := True\<rparr>) = Some (Inr (Inr ended, s')) \<and>
     sv_documents s' = Map.empty \<and> length (sv_sent s') = 1 \<and>
     list_all refusal (sv_sent s')"
proof -
  let ?ms = "[M_Request (RI_Int 1) FOLDING_RANGE [], M_Notification DID_OPEN (lit ''x'')]"
  let ?s = "(Server_new Utf8)\<lparr>sv_shutdown_requested := True\<rparr>"
  obtain s' where e: "batch sample_wire sample_front ?ms ?s = Some (Inr (Inr None, s'))" "length (sv_sent s') = 1"
    by (simp add: batch_def cancelled_ids_def List.map_filter_simps sv_bind_def request_def respond_err_def send_def
        notification_def sv_return_def sample_wire_def Server_new_def method_defs lit_def)
  from shutdown_refuses [OF _ e(1)] e show ?thesis by (auto simp: Server_new_def)
qed

end
