(* ===== verification/Spec2Isabelle.thy ===== *)
theory Spec2Isabelle
  imports Line_Index Lexer_Properties Labels Scalar_Ops Column_Retain Column_Build Parse_Actions Module_Loading Lsp_Server
begin

text \<open>
  \<^bold>\<open>The program.\<close> cambra compiles programs in the language CHL to a dataflow graph and runs them. Its
  parts under \<open>src/\<close> are the parser (\<open>chl-parser\<close>), the language server (\<open>cambra-lsp\<close>), the compiler and
  the run time (\<open>src/ccl\<close> and \<open>src/interpreter\<close>), a reference interpreter (\<open>chl-interp\<close>), an inspector
  and its web client. The development covers the parser but for its grammar, the loading of the modules
  of a program, the language server from the text of a document to the loop over the client's messages,
  and the pure data structures of the compiler and the run time: labels, tag maps, columns and the
  kernels over them.

  How the parts call each other: \<open>tokenize\<close> drives the generated lexer and then lays the raw tokens out;
  \<open>parse_module\<close> runs the grammar on the result and merges the errors; \<open>load_with\<close> parses a file,
  follows its imports, and orders the modules with \<open>cycles\<close> and \<open>link_order\<close>, which uses
  \<open>strongly_connected\<close>; a document of the language server holds a text with its \<open>LineIndex\<close>, its parse
  and its tokens; the outline, the folds and the diagnostics read them; the server answers requests and
  publishes diagnostics from them. At run time the operators, which are not modelled, call the columns
  and the scalar kernels.

  \<^bold>\<open>Conventions.\<close> A Rust function that may panic returns \<open>'a res\<close>, where \<open>Inl\<close> is the panic; an
  arithmetic overflow, an index, a slice off a character boundary, \<open>unwrap\<close>, \<open>expect\<close> and an assertion
  are such branches. The flag \<open>dbg\<close> is the build profile, with debug assertions and overflow checks when
  it is set. A \<open>Result\<close> is a sum with the error on the left. A \<open>str\<close> is the list of its Unicode scalar
  values, and the byte offsets are those of its UTF-8 encoding. Machine integers are words where the code
  can reach their bounds (\<open>i64\<close> and \<open>u64\<close> of the kernels, the \<open>u32\<close> of protocol positions, \<open>i32\<close> of
  versions) and naturals where they are lengths and offsets of data in memory. A \<open>BTreeMap\<close> is an entry list in
  key order, a \<open>HashMap\<close> that is only looked up is a map.

  \<^bold>\<open>Theories.\<close>

  \<^item> \<open>Prelude\<close>: panics, words, searches of slices, the lemmas on lists that all components share.
    \<open>Source_Text\<close>: text, \<open>FileId\<close>, \<open>Span\<close> and \<open>Spanned\<close> (\<open>source_map.rs\<close>, \<open>ast.rs\<close>).

  \<^item> \<open>Line_Index\<close> (\<open>chl-parser/src/line_index.rs\<close>): the table and its four conversions. The locale
    \<open>line_index_of\<close> is what a client may rely on of a table; it is interpreted on \<open>LineIndex_new\<close>. Offsets
    and positions are inverse, and positions outside the text are clamped.

  \<^item> \<open>Builtins\<close> (\<open>builtins.rs\<close>), \<open>Tokens\<close> and \<open>Literals\<close> (\<open>lexer.rs\<close>): the tables and the literals;
    which texts are integer literals, and that every text has a string literal.

  \<^item> \<open>Layout_Pass\<close>: every method of \<open>Layout\<close>. \<open>Layout_Nesting\<close>, \<open>Layout_Accounting\<close>, \<open>Layout_Spans\<close> and
    \<open>Layout_Order\<close> hold its invariants: the tokens nest; the closers it makes up are accounted for by
    errors and the raw tokens are kept; spans lie in the text; tokens are in order.

  \<^item> \<open>Raw_Tokens\<close> (\<open>raw_tokens\<close>, \<open>tokenize\<close>), \<open>Highlight\<close> (\<open>highlight\<close>) and \<open>Token_Rules\<close>: the locale
    \<open>logos_lexer\<close> is the contract of the generated lexer, that a token is not empty, has the text its rule asks
    for, is none of those that only the layout makes, and that only skipped text lies between two tokens. It is interpreted on \<open>rules_lexer\<close>, which reads the
    attributes of the \<open>Token\<close> enum. \<open>Lexer_Properties\<close> states what holds for every lexer with the contract.

  \<^item> \<open>Module_Paths\<close> (\<open>module_path.rs\<close>, \<open>source_map.rs\<close>) and \<open>Labels\<close> (\<open>src/ccl/label.rs\<close>, \<open>RunPath\<close> of
    \<open>names.rs\<close>): different modules have different files, and a label is read back from its run-time key.

  \<^item> \<open>Syntax_Tree\<close> (\<open>ast.rs\<close>), \<open>Parse_Actions\<close> (the functions the grammar of \<open>parser.rs\<close> calls) and
    \<open>Parse_Errors\<close> (\<open>parser/error.rs\<close> and the entry points of \<open>parser.rs\<close>): assignment targets round-trip;
    \<open>parse_module\<close> never panics and drops only grammar errors that a lexical error explains; the expected
    tokens of a message denote those the grammar reported.

  \<^item> \<open>Strong_Components\<close> (\<open>src/util.rs\<close>), \<open>Module_Graph\<close>, \<open>Link_Order\<close>, \<open>Module_Cycles\<close>
    (\<open>src/ccl/load/graph.rs\<close>) and \<open>Module_Loading\<close> (\<open>src/ccl/load/mod.rs\<close>): Tarjan's search is correct on the
    arrays the code uses; the link order is the least topological order; each cycle reported is a shortest
    one; loading ends, fetches each path once, and reports every statement that names a module.

  \<^item> \<open>Scalar_Ops\<close> (\<open>src/view.rs\<close>, \<open>src/scalar_ops.rs\<close>), with the locale \<open>int_pow_mul\<close> interpreted at both
    widths: the kernels refine integer arithmetic with its overflow.

  \<^item> \<open>Tag_Maps\<close> (\<open>src/ccl/ty.rs\<close>), \<open>Columns\<close>, \<open>Column_Rows\<close>, \<open>Column_Append\<close>, \<open>Column_Retain\<close> and
    \<open>Column_Build\<close> (\<open>src/interpreter/types\<close>): a well-formed column is read row by row; the locale
    \<open>row_store\<close>, interpreted on the columns, is that reading; each operation is described by the rows of its
    result.

  \<^item> \<open>Lsp_Document\<close>, \<open>Lsp_Folding\<close>, \<open>Lsp_Diagnostics\<close>, \<open>Lsp_Symbols\<close> and \<open>Lsp_Server\<close> (the files of
    \<open>cambra-lsp/src\<close>): \<open>reads\<close> is the contract of everything that reads a document, that it returns, keeps
    the document and gives a result with a property; \<open>serves\<close> is that of the handlers. The edits of a
    client change the text they mean; folds, outline and diagnostics are those of the text; every request
    is answered once and every changed document published; no message makes the server panic.

  \<^bold>\<open>Parameters and hypotheses.\<close> Code that is not under \<open>src/\<close> is an argument of the definitions: the lexer
  that \<open>logos\<close> generates (\<open>next_tok\<close>, with the locale above), the grammar in the combinators of
  \<open>chumsky\<close> (\<open>grammar\<close>, from tokens to a tree and the library's errors), the Unicode table of uppercase
  letters, the module files of a host program, the decoding of JSON and the connection (\<open>Wire\<close>), the
  debug format of a range. The language server relies on the spans of the grammar: those of statements lie
  between the edges of tokens (\<open>grammar_stmt_spans\<close>), those of bound names lie in their statements
  (\<open>grammar_name_spans\<close>), and those of errors end at the edges of tokens (\<open>grammar_error_spans\<close>). Loading
  relies on the paths the grammar writes (\<open>grammar_paths\<close>) and on finitely many files (\<open>provides\<close>). The
  witnesses discharge these with small grammars and the lexer of the token rules.

  \<^bold>\<open>Loops and fuel.\<close> The loop over raw tokens is a \<open>partial_function\<close> and is shown to return for every
  lexer with the contract. \<open>visit\<close> of Tarjan's search and the loops of the module graph take fuel; the
  number of vertices, or of modules, is shown to be enough. The loop of \<open>load_with\<close> needs none: a file
  id has 32 bits, and the measure is the room left for files. All other recursions are total functions
  with termination proofs. A session of the server is a list of the batches it receives, since
  it ends when the client closes the connection.

  \<^bold>\<open>Not modelled.\<close> The grammar's combinators, and rendering an error for a terminal, belong to libraries.
  The handshake of the language server, its static capabilities and its threads are I/O. Lowering, type
  inference, the rewriting passes and planning (\<open>src/ccl\<close>) work on the typed tree of the compiler, whose
  nodes are shared and whose types hold mutable inference variables with an external solver; none of them
  can be stated without the whole tree, so they are left out together, with the operator graph that is
  built from it. The operators, tiles and guards of \<open>src/interpreter\<close> call each other through trait
  objects and threads. Of \<open>column_value.rs\<close>, the two operations that read an extent are left out with the
  extents. The other utilities of \<open>util.rs\<close>, the inspector, the web client, the editor files, the command
  line and the control port are formatting and I/O. The reference interpreter evaluates the surface tree
  through shared closures and is used in tests only.
\<close>

end
